(* ===== verification/Prelude.thy ===== *)
theory Prelude
  imports Main "HOL-Library.Word"
begin

unbundle bit_operations_syntax

text \<open>
  Shared vocabulary of the development: the machine types of \<open>include/types.h\<close> on the
  32-bit x86 target of the \<open>Makefile\<close> (\<open>-m32\<close>), the outcome type of code that may stop the
  kernel, the collections of simplification rules the component theories add to, and the
  generic facts on lists and words they share.
\<close>

section \<open>Machine types\<close>

type_synonym u8 = "8 word"
type_synonym u16 = "16 word"
type_synonym u32 = "32 word"
type_synonym u64 = "64 word"

text \<open>A pointer is a 32-bit address; \<open>NULL\<close> is address 0 (\<open>include/types.h\<close>).\<close>

type_synonym addr = "32 word"

definition NULL :: addr where
  "NULL = 0"

section \<open>Rule collections\<close>

named_theorems heap_simps \<open>frame and read-after-write rules of the pointer heap\<close>
named_theorems sched_simps \<open>field-by-field effect of the scheduler's operations\<close>
named_theorems io_simps \<open>effect of the port and interrupt operations\<close>
named_theorems mem_simps \<open>read-after-write rules of the byte memory\<close>

section \<open>Generic lemmas\<close>

lemma distinct_rotate_append: "distinct (xs @ ys) \<longleftrightarrow> distinct (ys @ xs)"
  by auto

lemma list_ends_cases:
  obtains "xs = []" | x where "xs = [x]" | x ys y where "xs = x # ys @ [y]"
  by (cases xs; cases "tl xs" rule: rev_cases) auto

lemma removeAll_notin [simp]: "x \<notin> set xs \<Longrightarrow> removeAll x xs = xs"
  by (rule removeAll_id)

lemma upto_16: "[0..<16] = [0, 1, 2, 3, 4, 5, 6, 7, 8, 9, 10, 11, 12, 13, 14, 15 :: nat]"
  by (simp add: upt_rec)

end
