(* ===== verification/LinkedList.thy ===== *)
theory LinkedList
  imports Prelude
begin

text \<open>
  The circular doubly linked list of \<open>include/list.h\<close>.  The memory of \<^verbatim>\<open>struct list_head\<close>
  objects is a record of two fields, each a function from the object's address to the pointer
  stored there; every C statement that writes a field is one \<open>set_next\<close> or \<open>set_prev\<close>, in
  the order of the code.  The record is extensible, so that the scheduler's state carries the
  same heap.  \<open>WRITE_ONCE\<close>, \<open>READ_ONCE\<close> and the barriers order accesses and store the plain
  value, so they are plain reads and writes here; what they order between processors is in the
  theory Barrier.
\<close>

section \<open>The heap of list heads\<close>

record list_heap =
  next_of :: "addr \<Rightarrow> addr"
  prev_of :: "addr \<Rightarrow> addr"

definition set_next :: "addr \<Rightarrow> addr \<Rightarrow> 'a list_heap_scheme \<Rightarrow> 'a list_heap_scheme" where
  "set_next p v \<sigma> = \<sigma>\<lparr>next_of := (next_of \<sigma>)(p := v)\<rparr>"

definition set_prev :: "addr \<Rightarrow> addr \<Rightarrow> 'a list_heap_scheme \<Rightarrow> 'a list_heap_scheme" where
  "set_prev p v \<sigma> = \<sigma>\<lparr>prev_of := (prev_of \<sigma>)(p := v)\<rparr>"

definition LIST_POISON1 :: addr where
  "LIST_POISON1 = 0x100"

definition LIST_POISON2 :: addr where
  "LIST_POISON2 = 0x122"

section \<open>Operations\<close>

text \<open>The initialiser \<open>{ &(name), &(name) }\<close> of a static head.\<close>

definition LIST_HEAD :: "addr \<Rightarrow> 'a list_heap_scheme \<Rightarrow> 'a list_heap_scheme" where
  "LIST_HEAD name \<sigma> = \<sigma>\<lparr>next_of := (next_of \<sigma>)(name := name), prev_of := (prev_of \<sigma>)(name := name)\<rparr>"

definition INIT_LIST_HEAD :: "addr \<Rightarrow> 'a list_heap_scheme \<Rightarrow> 'a list_heap_scheme" where
  "INIT_LIST_HEAD list \<sigma> =
     (let \<sigma> = set_next list list \<sigma> in
      set_prev list list \<sigma>)"

definition raw_list_add ::
  "addr \<Rightarrow> addr \<Rightarrow> addr \<Rightarrow> 'a list_heap_scheme \<Rightarrow> 'a list_heap_scheme" where
  "raw_list_add new prv nxt \<sigma> =
     (let \<sigma> = set_prev nxt new \<sigma>;
          \<sigma> = set_next new nxt \<sigma>;
          \<sigma> = set_prev new prv \<sigma> in
      set_next prv new \<sigma>)"

definition list_add :: "addr \<Rightarrow> addr \<Rightarrow> 'a list_heap_scheme \<Rightarrow> 'a list_heap_scheme" where
  "list_add new head \<sigma> = raw_list_add new head (next_of \<sigma> head) \<sigma>"

definition list_add_tail :: "addr \<Rightarrow> addr \<Rightarrow> 'a list_heap_scheme \<Rightarrow> 'a list_heap_scheme" where
  "list_add_tail new head \<sigma> = raw_list_add new (prev_of \<sigma> head) head \<sigma>"

definition raw_list_del :: "addr \<Rightarrow> addr \<Rightarrow> 'a list_heap_scheme \<Rightarrow> 'a list_heap_scheme" where
  "raw_list_del prv nxt \<sigma> =
     (let \<sigma> = set_prev nxt prv \<sigma> in
      set_next prv nxt \<sigma>)"

definition raw_list_del_clearprev :: "addr \<Rightarrow> 'a list_heap_scheme \<Rightarrow> 'a list_heap_scheme" where
  "raw_list_del_clearprev entry \<sigma> =
     (let \<sigma> = raw_list_del (prev_of \<sigma> entry) (next_of \<sigma> entry) \<sigma> in
      set_prev entry NULL \<sigma>)"

definition raw_list_del_entry :: "addr \<Rightarrow> 'a list_heap_scheme \<Rightarrow> 'a list_heap_scheme" where
  "raw_list_del_entry entry \<sigma> = raw_list_del (prev_of \<sigma> entry) (next_of \<sigma> entry) \<sigma>"

definition list_del :: "addr \<Rightarrow> 'a list_heap_scheme \<Rightarrow> 'a list_heap_scheme" where
  "list_del entry \<sigma> =
     (let \<sigma> = raw_list_del_entry entry \<sigma>;
          \<sigma> = set_next entry LIST_POISON1 \<sigma> in
      set_prev entry LIST_POISON2 \<sigma>)"

definition list_replace :: "addr \<Rightarrow> addr \<Rightarrow> 'a list_heap_scheme \<Rightarrow> 'a list_heap_scheme" where
  "list_replace old new \<sigma> =
     (let \<sigma> = set_next new (next_of \<sigma> old) \<sigma>;
          \<sigma> = set_prev (next_of \<sigma> new) new \<sigma>;
          \<sigma> = set_prev new (prev_of \<sigma> old) \<sigma> in
      set_next (prev_of \<sigma> new) new \<sigma>)"

definition list_replace_init :: "addr \<Rightarrow> addr \<Rightarrow> 'a list_heap_scheme \<Rightarrow> 'a list_heap_scheme" where
  "list_replace_init old new \<sigma> =
     (let \<sigma> = list_replace old new \<sigma> in
      INIT_LIST_HEAD old \<sigma>)"

definition list_swap :: "addr \<Rightarrow> addr \<Rightarrow> 'a list_heap_scheme \<Rightarrow> 'a list_heap_scheme" where
  "list_swap entry1 entry2 \<sigma> =
     (let pos = prev_of \<sigma> entry2;
          \<sigma> = list_del entry2 \<sigma>;
          \<sigma> = list_replace entry1 entry2 \<sigma>;
          pos = (if pos = entry1 then entry2 else pos) in
      list_add entry1 pos \<sigma>)"

definition list_del_init :: "addr \<Rightarrow> 'a list_heap_scheme \<Rightarrow> 'a list_heap_scheme" where
  "list_del_init entry \<sigma> =
     (let \<sigma> = raw_list_del_entry entry \<sigma> in
      INIT_LIST_HEAD entry \<sigma>)"

definition list_move :: "addr \<Rightarrow> addr \<Rightarrow> 'a list_heap_scheme \<Rightarrow> 'a list_heap_scheme" where
  "list_move list head \<sigma> =
     (let \<sigma> = raw_list_del_entry list \<sigma> in
      list_add list head \<sigma>)"

definition list_move_tail :: "addr \<Rightarrow> addr \<Rightarrow> 'a list_heap_scheme \<Rightarrow> 'a list_heap_scheme" where
  "list_move_tail list head \<sigma> =
     (let \<sigma> = raw_list_del_entry list \<sigma> in
      list_add_tail list head \<sigma>)"

definition list_bulk_move_tail ::
  "addr \<Rightarrow> addr \<Rightarrow> addr \<Rightarrow> 'a list_heap_scheme \<Rightarrow> 'a list_heap_scheme" where
  "list_bulk_move_tail head first lst \<sigma> =
     (let \<sigma> = set_next (prev_of \<sigma> first) (next_of \<sigma> lst) \<sigma>;
          \<sigma> = set_prev (next_of \<sigma> lst) (prev_of \<sigma> first) \<sigma>;
          \<sigma> = set_next (prev_of \<sigma> head) first \<sigma>;
          \<sigma> = set_prev first (prev_of \<sigma> head) \<sigma>;
          \<sigma> = set_next lst head \<sigma> in
      set_prev head lst \<sigma>)"

definition list_is_first :: "addr \<Rightarrow> addr \<Rightarrow> 'a list_heap_scheme \<Rightarrow> bool" where
  "list_is_first list head \<sigma> \<longleftrightarrow> prev_of \<sigma> list = head"

definition list_is_last :: "addr \<Rightarrow> addr \<Rightarrow> 'a list_heap_scheme \<Rightarrow> bool" where
  "list_is_last list head \<sigma> \<longleftrightarrow> next_of \<sigma> list = head"

definition list_empty :: "addr \<Rightarrow> 'a list_heap_scheme \<Rightarrow> bool" where
  "list_empty head \<sigma> \<longleftrightarrow> next_of \<sigma> head = head"

definition list_del_init_careful :: "addr \<Rightarrow> 'a list_heap_scheme \<Rightarrow> 'a list_heap_scheme" where
  "list_del_init_careful entry \<sigma> =
     (let \<sigma> = raw_list_del_entry entry \<sigma>;
          \<sigma> = set_prev entry entry \<sigma> in
      set_next entry entry \<sigma>)"

definition list_empty_careful :: "addr \<Rightarrow> 'a list_heap_scheme \<Rightarrow> bool" where
  "list_empty_careful head \<sigma> \<longleftrightarrow>
     (let nxt = next_of \<sigma> head in nxt = head \<and> nxt = prev_of \<sigma> head)"

definition list_rotate_left :: "addr \<Rightarrow> 'a list_heap_scheme \<Rightarrow> 'a list_heap_scheme" where
  "list_rotate_left head \<sigma> =
     (if \<not> list_empty head \<sigma>
      then let first = next_of \<sigma> head in list_move_tail first head \<sigma>
      else \<sigma>)"

definition list_rotate_to_front :: "addr \<Rightarrow> addr \<Rightarrow> 'a list_heap_scheme \<Rightarrow> 'a list_heap_scheme" where
  "list_rotate_to_front list head \<sigma> = list_move_tail head list \<sigma>"

definition list_is_singular :: "addr \<Rightarrow> 'a list_heap_scheme \<Rightarrow> bool" where
  "list_is_singular head \<sigma> \<longleftrightarrow> \<not> list_empty head \<sigma> \<and> next_of \<sigma> head = prev_of \<sigma> head"

definition raw_list_cut_position ::
  "addr \<Rightarrow> addr \<Rightarrow> addr \<Rightarrow> 'a list_heap_scheme \<Rightarrow> 'a list_heap_scheme" where
  "raw_list_cut_position list head entry \<sigma> =
     (let new_first = next_of \<sigma> entry;
          \<sigma> = set_next list (next_of \<sigma> head) \<sigma>;
          \<sigma> = set_prev (next_of \<sigma> list) list \<sigma>;
          \<sigma> = set_prev list entry \<sigma>;
          \<sigma> = set_next entry list \<sigma>;
          \<sigma> = set_next head new_first \<sigma> in
      set_prev new_first head \<sigma>)"

definition list_cut_position ::
  "addr \<Rightarrow> addr \<Rightarrow> addr \<Rightarrow> 'a list_heap_scheme \<Rightarrow> 'a list_heap_scheme" where
  "list_cut_position list head entry \<sigma> =
     (if list_empty head \<sigma> then \<sigma>
      else if list_is_singular head \<sigma> \<and> (next_of \<sigma> head \<noteq> entry \<and> head \<noteq> entry) then \<sigma>
      else if entry = head then INIT_LIST_HEAD list \<sigma>
      else raw_list_cut_position list head entry \<sigma>)"

definition list_cut_before ::
  "addr \<Rightarrow> addr \<Rightarrow> addr \<Rightarrow> 'a list_heap_scheme \<Rightarrow> 'a list_heap_scheme" where
  "list_cut_before list head entry \<sigma> =
     (if next_of \<sigma> head = entry then INIT_LIST_HEAD list \<sigma>
      else
        let \<sigma> = set_next list (next_of \<sigma> head) \<sigma>;
            \<sigma> = set_prev (next_of \<sigma> list) list \<sigma>;
            \<sigma> = set_prev list (prev_of \<sigma> entry) \<sigma>;
            \<sigma> = set_next (prev_of \<sigma> list) list \<sigma>;
            \<sigma> = set_next head entry \<sigma> in
        set_prev entry head \<sigma>)"

definition raw_list_splice ::
  "addr \<Rightarrow> addr \<Rightarrow> addr \<Rightarrow> 'a list_heap_scheme \<Rightarrow> 'a list_heap_scheme" where
  "raw_list_splice list prv nxt \<sigma> =
     (let first = next_of \<sigma> list;
          lst = prev_of \<sigma> list;
          \<sigma> = set_prev first prv \<sigma>;
          \<sigma> = set_next prv first \<sigma>;
          \<sigma> = set_next lst nxt \<sigma> in
      set_prev nxt lst \<sigma>)"

definition list_splice :: "addr \<Rightarrow> addr \<Rightarrow> 'a list_heap_scheme \<Rightarrow> 'a list_heap_scheme" where
  "list_splice list head \<sigma> =
     (if \<not> list_empty list \<sigma> then raw_list_splice list head (next_of \<sigma> head) \<sigma> else \<sigma>)"

definition list_splice_tail :: "addr \<Rightarrow> addr \<Rightarrow> 'a list_heap_scheme \<Rightarrow> 'a list_heap_scheme" where
  "list_splice_tail list head \<sigma> =
     (if \<not> list_empty list \<sigma> then raw_list_splice list (prev_of \<sigma> head) head \<sigma> else \<sigma>)"

definition list_splice_init :: "addr \<Rightarrow> addr \<Rightarrow> 'a list_heap_scheme \<Rightarrow> 'a list_heap_scheme" where
  "list_splice_init list head \<sigma> =
     (if \<not> list_empty list \<sigma> then
        let \<sigma> = raw_list_splice list head (next_of \<sigma> head) \<sigma> in
        INIT_LIST_HEAD list \<sigma>
      else \<sigma>)"

definition list_splice_tail_init :: "addr \<Rightarrow> addr \<Rightarrow> 'a list_heap_scheme \<Rightarrow> 'a list_heap_scheme" where
  "list_splice_tail_init list head \<sigma> =
     (if \<not> list_empty list \<sigma> then
        let \<sigma> = raw_list_splice list (prev_of \<sigma> head) head \<sigma> in
        INIT_LIST_HEAD list \<sigma>
      else \<sigma>)"

section \<open>Entries and iteration\<close>

text \<open>
  The entry macros take the byte offset of the member in place of its name.  The iteration
  macros are loops over the loop body, a function on the state; a loop that never comes back
  to the head does not return, which is the value \<open>None\<close>.
\<close>

definition container_of :: "addr \<Rightarrow> u32 \<Rightarrow> addr" where
  "container_of ptr off = ptr - off"

definition list_entry :: "addr \<Rightarrow> u32 \<Rightarrow> addr" where
  "list_entry ptr off = container_of ptr off"

definition list_first_entry :: "addr \<Rightarrow> u32 \<Rightarrow> 'a list_heap_scheme \<Rightarrow> addr" where
  "list_first_entry ptr off \<sigma> = list_entry (next_of \<sigma> ptr) off"

definition list_last_entry :: "addr \<Rightarrow> u32 \<Rightarrow> 'a list_heap_scheme \<Rightarrow> addr" where
  "list_last_entry ptr off \<sigma> = list_entry (prev_of \<sigma> ptr) off"

definition list_first_entry_or_null :: "addr \<Rightarrow> u32 \<Rightarrow> 'a list_heap_scheme \<Rightarrow> addr" where
  "list_first_entry_or_null ptr off \<sigma> =
     (let head = ptr;
          pos = next_of \<sigma> head in
      if pos \<noteq> head then list_entry pos off else NULL)"

definition list_next_entry :: "addr \<Rightarrow> u32 \<Rightarrow> 'a list_heap_scheme \<Rightarrow> addr" where
  "list_next_entry pos off \<sigma> = list_entry (next_of \<sigma> (pos + off)) off"

definition list_prev_entry :: "addr \<Rightarrow> u32 \<Rightarrow> 'a list_heap_scheme \<Rightarrow> addr" where
  "list_prev_entry pos off \<sigma> = list_entry (prev_of \<sigma> (pos + off)) off"

definition list_entry_is_head :: "addr \<Rightarrow> addr \<Rightarrow> u32 \<Rightarrow> bool" where
  "list_entry_is_head pos head off \<longleftrightarrow> pos + off = head"

definition list_prepare_entry :: "addr \<Rightarrow> addr \<Rightarrow> u32 \<Rightarrow> addr" where
  "list_prepare_entry pos head off = (if pos \<noteq> NULL then pos else list_entry head off)"

type_synonym 'a list_body = "addr \<Rightarrow> 'a list_heap_scheme \<Rightarrow> 'a list_heap_scheme"

partial_function (option) list_fwd_loop ::
  "'a list_body \<Rightarrow> addr \<Rightarrow> addr \<Rightarrow> 'a list_heap_scheme \<Rightarrow> 'a list_heap_scheme option" where
  "list_fwd_loop body head pos \<sigma> =
     (if pos = head then Some \<sigma>
      else let \<sigma>' = body pos \<sigma> in list_fwd_loop body head (next_of \<sigma>' pos) \<sigma>')"

partial_function (option) list_bwd_loop ::
  "'a list_body \<Rightarrow> addr \<Rightarrow> addr \<Rightarrow> 'a list_heap_scheme \<Rightarrow> 'a list_heap_scheme option" where
  "list_bwd_loop body head pos \<sigma> =
     (if pos = head then Some \<sigma>
      else let \<sigma>' = body pos \<sigma> in list_bwd_loop body head (prev_of \<sigma>' pos) \<sigma>')"

partial_function (option) list_fwd_safe_loop ::
  "'a list_body \<Rightarrow> addr \<Rightarrow> addr \<Rightarrow> addr \<Rightarrow> 'a list_heap_scheme \<Rightarrow> 'a list_heap_scheme option" where
  "list_fwd_safe_loop body head pos n \<sigma> =
     (if pos = head then Some \<sigma>
      else let \<sigma>' = body pos \<sigma> in list_fwd_safe_loop body head n (next_of \<sigma>' n) \<sigma>')"

partial_function (option) list_bwd_safe_loop ::
  "'a list_body \<Rightarrow> addr \<Rightarrow> addr \<Rightarrow> addr \<Rightarrow> 'a list_heap_scheme \<Rightarrow> 'a list_heap_scheme option" where
  "list_bwd_safe_loop body head pos n \<sigma> =
     (if pos = head then Some \<sigma>
      else let \<sigma>' = body pos \<sigma> in list_bwd_safe_loop body head n (prev_of \<sigma>' n) \<sigma>')"

definition list_for_each :: "'a list_body \<Rightarrow> addr \<Rightarrow> 'a list_heap_scheme \<Rightarrow> 'a list_heap_scheme option" where
  "list_for_each body head \<sigma> = list_fwd_loop body head (next_of \<sigma> head) \<sigma>"

definition list_for_each_continue ::
  "'a list_body \<Rightarrow> addr \<Rightarrow> addr \<Rightarrow> 'a list_heap_scheme \<Rightarrow> 'a list_heap_scheme option" where
  "list_for_each_continue body pos head \<sigma> = list_fwd_loop body head (next_of \<sigma> pos) \<sigma>"

definition list_for_each_prev :: "'a list_body \<Rightarrow> addr \<Rightarrow> 'a list_heap_scheme \<Rightarrow> 'a list_heap_scheme option" where
  "list_for_each_prev body head \<sigma> = list_bwd_loop body head (prev_of \<sigma> head) \<sigma>"

definition list_for_each_safe :: "'a list_body \<Rightarrow> addr \<Rightarrow> 'a list_heap_scheme \<Rightarrow> 'a list_heap_scheme option" where
  "list_for_each_safe body head \<sigma> =
     (let pos = next_of \<sigma> head; n = next_of \<sigma> pos in list_fwd_safe_loop body head pos n \<sigma>)"

definition list_for_each_prev_safe ::
  "'a list_body \<Rightarrow> addr \<Rightarrow> 'a list_heap_scheme \<Rightarrow> 'a list_heap_scheme option" where
  "list_for_each_prev_safe body head \<sigma> =
     (let pos = prev_of \<sigma> head; n = prev_of \<sigma> pos in list_bwd_safe_loop body head pos n \<sigma>)"

partial_function (option) entry_fwd_loop ::
  "'a list_body \<Rightarrow> u32 \<Rightarrow> addr \<Rightarrow> addr \<Rightarrow> 'a list_heap_scheme \<Rightarrow> 'a list_heap_scheme option" where
  "entry_fwd_loop body off head pos \<sigma> =
     (if list_entry_is_head pos head off then Some \<sigma>
      else let \<sigma>' = body pos \<sigma> in entry_fwd_loop body off head (list_next_entry pos off \<sigma>') \<sigma>')"

partial_function (option) entry_bwd_loop ::
  "'a list_body \<Rightarrow> u32 \<Rightarrow> addr \<Rightarrow> addr \<Rightarrow> 'a list_heap_scheme \<Rightarrow> 'a list_heap_scheme option" where
  "entry_bwd_loop body off head pos \<sigma> =
     (if list_entry_is_head pos head off then Some \<sigma>
      else let \<sigma>' = body pos \<sigma> in entry_bwd_loop body off head (list_prev_entry pos off \<sigma>') \<sigma>')"

definition list_for_each_entry ::
  "'a list_body \<Rightarrow> u32 \<Rightarrow> addr \<Rightarrow> 'a list_heap_scheme \<Rightarrow> 'a list_heap_scheme option" where
  "list_for_each_entry body off head \<sigma> = entry_fwd_loop body off head (list_first_entry head off \<sigma>) \<sigma>"

definition list_for_each_entry_reverse ::
  "'a list_body \<Rightarrow> u32 \<Rightarrow> addr \<Rightarrow> 'a list_heap_scheme \<Rightarrow> 'a list_heap_scheme option" where
  "list_for_each_entry_reverse body off head \<sigma> =
     entry_bwd_loop body off head (list_last_entry head off \<sigma>) \<sigma>"


definition list_for_each_entry_continue ::
  "'a list_body \<Rightarrow> u32 \<Rightarrow> addr \<Rightarrow> addr \<Rightarrow> 'a list_heap_scheme \<Rightarrow> 'a list_heap_scheme option" where
  "list_for_each_entry_continue body off pos head \<sigma> =
     entry_fwd_loop body off head (list_next_entry pos off \<sigma>) \<sigma>"

definition list_for_each_entry_continue_reverse ::
  "'a list_body \<Rightarrow> u32 \<Rightarrow> addr \<Rightarrow> addr \<Rightarrow> 'a list_heap_scheme \<Rightarrow> 'a list_heap_scheme option" where
  "list_for_each_entry_continue_reverse body off pos head \<sigma> =
     entry_bwd_loop body off head (list_prev_entry pos off \<sigma>) \<sigma>"

definition list_for_each_entry_from ::
  "'a list_body \<Rightarrow> u32 \<Rightarrow> addr \<Rightarrow> addr \<Rightarrow> 'a list_heap_scheme \<Rightarrow> 'a list_heap_scheme option" where
  "list_for_each_entry_from body off pos head \<sigma> = entry_fwd_loop body off head pos \<sigma>"

definition list_for_each_entry_from_reverse ::
  "'a list_body \<Rightarrow> u32 \<Rightarrow> addr \<Rightarrow> addr \<Rightarrow> 'a list_heap_scheme \<Rightarrow> 'a list_heap_scheme option" where
  "list_for_each_entry_from_reverse body off pos head \<sigma> = entry_bwd_loop body off head pos \<sigma>"

partial_function (option) entry_fwd_safe_loop ::
  "'a list_body \<Rightarrow> u32 \<Rightarrow> addr \<Rightarrow> addr \<Rightarrow> addr \<Rightarrow> 'a list_heap_scheme \<Rightarrow>
     'a list_heap_scheme option" where
  "entry_fwd_safe_loop body off head pos n \<sigma> =
     (if list_entry_is_head pos head off then Some \<sigma>
      else let \<sigma>' = body pos \<sigma> in
        entry_fwd_safe_loop body off head n (list_next_entry n off \<sigma>') \<sigma>')"

partial_function (option) entry_bwd_safe_loop ::
  "'a list_body \<Rightarrow> u32 \<Rightarrow> addr \<Rightarrow> addr \<Rightarrow> addr \<Rightarrow> 'a list_heap_scheme \<Rightarrow>
     'a list_heap_scheme option" where
  "entry_bwd_safe_loop body off head pos n \<sigma> =
     (if list_entry_is_head pos head off then Some \<sigma>
      else let \<sigma>' = body pos \<sigma> in
        entry_bwd_safe_loop body off head n (list_prev_entry n off \<sigma>') \<sigma>')"

definition list_for_each_entry_safe ::
  "'a list_body \<Rightarrow> u32 \<Rightarrow> addr \<Rightarrow> 'a list_heap_scheme \<Rightarrow> 'a list_heap_scheme option" where
  "list_for_each_entry_safe body off head \<sigma> =
     (let pos = list_first_entry head off \<sigma>;
          n = list_next_entry pos off \<sigma> in
      entry_fwd_safe_loop body off head pos n \<sigma>)"

definition list_for_each_entry_safe_continue ::
  "'a list_body \<Rightarrow> u32 \<Rightarrow> addr \<Rightarrow> addr \<Rightarrow> 'a list_heap_scheme \<Rightarrow> 'a list_heap_scheme option" where
  "list_for_each_entry_safe_continue body off pos head \<sigma> =
     (let pos = list_next_entry pos off \<sigma>;
          n = list_next_entry pos off \<sigma> in
      entry_fwd_safe_loop body off head pos n \<sigma>)"

definition list_for_each_entry_safe_from ::
  "'a list_body \<Rightarrow> u32 \<Rightarrow> addr \<Rightarrow> addr \<Rightarrow> 'a list_heap_scheme \<Rightarrow> 'a list_heap_scheme option" where
  "list_for_each_entry_safe_from body off pos head \<sigma> =
     (let n = list_next_entry pos off \<sigma> in
      entry_fwd_safe_loop body off head pos n \<sigma>)"

definition list_for_each_entry_safe_reverse ::
  "'a list_body \<Rightarrow> u32 \<Rightarrow> addr \<Rightarrow> 'a list_heap_scheme \<Rightarrow> 'a list_heap_scheme option" where
  "list_for_each_entry_safe_reverse body off head \<sigma> =
     (let pos = list_last_entry head off \<sigma>;
          n = list_prev_entry pos off \<sigma> in
      entry_bwd_safe_loop body off head pos n \<sigma>)"

definition list_safe_reset_next :: "addr \<Rightarrow> u32 \<Rightarrow> 'a list_heap_scheme \<Rightarrow> addr" where
  "list_safe_reset_next pos off \<sigma> = list_next_entry pos off \<sigma>"

section \<open>Abstraction\<close>

text \<open>
  \<open>seg n p a xs b\<close>: following \<open>n\<close> from \<open>a\<close> visits \<open>xs\<close> and reaches \<open>b\<close>, and \<open>p\<close> is the
  way back.  \<open>ring \<sigma> xs\<close>: the nodes \<open>xs\<close>, all different, form a closed cycle.
  \<open>dlist \<sigma> head xs\<close>: \<open>head\<close> is a list head whose entries are \<open>xs\<close>, first to last.
\<close>

fun seg :: "(addr \<Rightarrow> addr) \<Rightarrow> (addr \<Rightarrow> addr) \<Rightarrow> addr \<Rightarrow> addr list \<Rightarrow> addr \<Rightarrow> bool" where
  "seg n p a [] b \<longleftrightarrow> n a = b \<and> p b = a"
| "seg n p a (x # xs) b \<longleftrightarrow> n a = x \<and> p x = a \<and> seg n p x xs b"

fun ring :: "'a list_heap_scheme \<Rightarrow> addr list \<Rightarrow> bool" where
  "ring \<sigma> [] \<longleftrightarrow> True"
| "ring \<sigma> (x # xs) \<longleftrightarrow> distinct (x # xs) \<and> seg (next_of \<sigma>) (prev_of \<sigma>) x xs x"

definition dlist :: "'a list_heap_scheme \<Rightarrow> addr \<Rightarrow> addr list \<Rightarrow> bool" where
  "dlist \<sigma> head xs \<longleftrightarrow> ring \<sigma> (head # xs)"

definition same_links :: "addr set \<Rightarrow> 'a list_heap_scheme \<Rightarrow> 'a list_heap_scheme \<Rightarrow> bool" where
  "same_links A \<sigma> \<sigma>' \<longleftrightarrow> (\<forall>a\<in>A. next_of \<sigma>' a = next_of \<sigma> a \<and> prev_of \<sigma>' a = prev_of \<sigma> a)"

section \<open>Links and rings\<close>

lemma next_of_set_next [simp]: "next_of (set_next p v \<sigma>) = (next_of \<sigma>)(p := v)"
  and prev_of_set_next [simp]: "prev_of (set_next p v \<sigma>) = prev_of \<sigma>"
  and more_set_next [simp]: "list_heap.more (set_next p v \<sigma>) = list_heap.more \<sigma>"
  by (simp_all add: set_next_def)

lemma prev_of_set_prev [simp]: "prev_of (set_prev p v \<sigma>) = (prev_of \<sigma>)(p := v)"
  and next_of_set_prev [simp]: "next_of (set_prev p v \<sigma>) = next_of \<sigma>"
  and more_set_prev [simp]: "list_heap.more (set_prev p v \<sigma>) = list_heap.more \<sigma>"
  by (simp_all add: set_prev_def)

lemma seg_append [simp]:
  "seg n p a (xs @ x # ys) b \<longleftrightarrow> seg n p a xs x \<and> seg n p x ys b"
  by (induction xs arbitrary: a) auto

lemma seg_upd_next [simp]:
  "c \<noteq> a \<Longrightarrow> c \<notin> set xs \<Longrightarrow> seg (n(c := v)) p a xs b \<longleftrightarrow> seg n p a xs b"
  by (induction xs arbitrary: a) auto

lemma seg_upd_prev [simp]:
  "c \<noteq> b \<Longrightarrow> c \<notin> set xs \<Longrightarrow> seg n (p(c := v)) a xs b \<longleftrightarrow> seg n p a xs b"
  by (induction xs arbitrary: a) auto

lemma ring_rotate: "ring \<sigma> (xs @ ys) \<longleftrightarrow> ring \<sigma> (ys @ xs)"
  by (cases xs; cases ys) auto

lemma seg_next: "seg n p a xs b \<Longrightarrow> n a = hd (xs @ [b])"
  by (cases xs) auto

lemma seg_prev: "seg n p a xs b \<Longrightarrow> p b = last (a # xs)"
  by (induction xs arbitrary: a) auto

lemma seg_last_next: "seg n p a xs b \<Longrightarrow> n (last (a # xs)) = b"
  by (induction xs arbitrary: a) auto

lemma seg_link:
  "seg n p a xs b \<Longrightarrow> distinct (a # xs) \<Longrightarrow> c \<notin> set xs \<Longrightarrow> l = last (a # xs) \<Longrightarrow>
     seg (n(l := c)) (p(c := l)) a xs c"
  by (induction xs arbitrary: a) (auto split: if_splits)

lemma seg_relink:
  "seg n p a xs b \<Longrightarrow> distinct (a # xs) \<Longrightarrow> b \<notin> set xs \<Longrightarrow> c \<notin> set xs \<Longrightarrow> l = last (a # xs) \<Longrightarrow>
     seg (n(l := c)) (p(b := v, c := l)) a xs c"
  by (induction xs arbitrary: a) (auto split: if_splits)

lemma ring_raw_add:
  assumes "ring \<sigma> (p # ys)" "x \<notin> set (p # ys)" 
  shows "ring (raw_list_add x p (next_of \<sigma> p) \<sigma>) (p # x # ys)"
  using assms by (cases ys) (auto simp: raw_list_add_def)

lemma ring_raw_del:
  assumes "ring \<sigma> (x # ys)" "ys \<noteq> []"
  shows "ring (raw_list_del (prev_of \<sigma> x) (next_of \<sigma> x) \<sigma>) ys"
  using assms by (cases ys rule: list_ends_cases) (auto simp: raw_list_del_def)



lemma ring_rotate_at: "ring \<sigma> (as @ x # bs) \<longleftrightarrow> ring \<sigma> (x # bs @ as)"
  using ring_rotate [of \<sigma> as "x # bs"] by simp

lemma ring_distinct: "ring \<sigma> xs \<Longrightarrow> distinct xs"
  by (cases xs) auto

lemma ring_last: "ring \<sigma> (x # ys) \<Longrightarrow> prev_of \<sigma> x = last (x # ys)"
  by (auto dest: seg_prev)

lemma ring_first: "ring \<sigma> (x # ys) \<Longrightarrow> next_of \<sigma> x = hd (ys @ [x])"
  by (auto dest: seg_next)

lemma ring_last_next: "ring \<sigma> (x # ys) \<Longrightarrow> next_of \<sigma> (last (x # ys)) = x"
  using seg_last_next [of "next_of \<sigma>" "prev_of \<sigma>" x ys x] by auto

lemma ring_replace_head:
  assumes "ring \<sigma> (x # ys)" "y \<notin> set (x # ys)"
  shows "ring (list_replace x y \<sigma>) (y # ys)"
  using assms by (cases ys rule: list_ends_cases) (auto simp: list_replace_def Let_def)


lemma ring_bulk:
  assumes r: "ring \<sigma> (h # as @ (f # ms) @ bs)"
  shows "ring (list_bulk_move_tail h f (last (f # ms)) \<sigma>) (h # as @ bs @ f # ms)"
proof (cases bs)
  case Nil
  let ?n = "next_of \<sigma>" let ?p = "prev_of \<sigma>"
  define P where "P = last (h # as)"
  define l where "l = last (f # ms)"
  from r Nil have d: "distinct (h # as @ f # ms)" and s: "seg ?n ?p h as f" "seg ?n ?p f ms h"
    by auto
  have "P \<in> set (h # as)" "l \<in> set (f # ms)"
    by (auto simp: P_def l_def)
  with d have "f \<noteq> h" "P \<noteq> l" "l \<noteq> h"
    by auto
  moreover have "?p f = P" "?n P = f" "?p h = l" "?n l = h"
    using seg_prev [OF s(1)] seg_prev [OF s(2)] seg_last_next [OF s(1)] seg_last_next [OF s(2)]
    by (auto simp: P_def l_def)
  ultimately have "next_of (list_bulk_move_tail h f l \<sigma>) = ?n" "prev_of (list_bulk_move_tail h f l \<sigma>) = ?p"
    by (auto simp: list_bulk_move_tail_def Let_def fun_eq_iff)
  with r Nil show ?thesis
    unfolding l_def [symmetric] by simp
next
  case (Cons b cs)
  define P where "P = last (h # as)" define B where "B = last (b # cs)"
  define l where "l = last (f # ms)"
  have P: "P \<in> set (h # as)" and B: "B \<in> set (b # cs)" and l: "l \<in> set (f # ms)" by (auto simp: P_def B_def l_def)
  let ?n = "next_of \<sigma>" let ?p = "prev_of \<sigma>"
  from r Cons have d: "distinct (h # as @ f # ms @ b # cs)" and
    s: "seg ?n ?p h as f" "seg ?n ?p f ms b" "seg ?n ?p b cs h" by auto
  from d P B l have out: "P \<notin> set (f # ms @ b # cs)" "B \<notin> set (h # as @ f # ms)"
    "l \<notin> set (h # as @ b # cs)" "P \<noteq> B" "P \<noteq> l" "B \<noteq> l"
    by auto
  have s3: "seg (?n(P := b)) (?p(b := P)) b cs h"
    using s(3) d out by auto
  have s2: "seg (?n(P := b, B := f)) (?p(f := B)) f ms b"
    using s(2) d out by auto
  have e: "?p f = P" "?n l = b" "?p h = B" "?p b = l"
    using seg_prev [OF s(1)] seg_prev [OF s(3)] seg_prev [OF s(2)] seg_last_next [OF s(2)] unfolding P_def B_def l_def by auto
  have "seg (?n(P := b, B := f, l := h)) (?p(b := P, f := B, h := l)) h as b"
    using d out seg_link [OF s(1), of b P] P_def by simp
  moreover have "seg (?n(P := b, B := f, l := h)) (?p(b := P, f := B, h := l)) b cs f"
    using d out seg_link [of "?n(P := b)" "?p(b := P)" b cs h f B, OF s3 _ _ B_def] by simp
  moreover have "seg (?n(P := b, B := f, l := h)) (?p(b := P, f := B, h := l)) f ms h"
    using d out seg_relink [OF s2 _ _ _ l_def, of h P] fun_upd_twist [of f b ?p B P] by auto
  moreover have "distinct (h # as @ (b # cs) @ f # ms)"
    using d by auto
  ultimately show ?thesis
    unfolding l_def [symmetric] using Cons e out by (simp add: list_bulk_move_tail_def Let_def)
qed

lemma ring_cut:
  assumes "ring \<sigma> (h # as @ e # bs)" "l \<notin> set (h # as @ e # bs)"
  shows "ring (raw_list_cut_position l h e \<sigma>) (l # as @ [e])"
    and "ring (raw_list_cut_position l h e \<sigma>) (h # bs)"
  using assms
  by (cases as; cases bs; auto simp: raw_list_cut_position_def Let_def)+

lemma ring_splice:
  assumes "ring \<sigma> (l # ys)" "ys \<noteq> []" "ring \<sigma> (h # xs)" "set (l # ys) \<inter> set (h # xs) = {}"
  shows "ring (raw_list_splice l h (next_of \<sigma> h) \<sigma>) (h # ys @ xs)"
  using assms
  by (cases xs; cases ys rule: list_ends_cases) (auto simp: raw_list_splice_def Let_def)

declare ring.simps [simp del]

lemma ring_insert_after:
  assumes "ring \<sigma> (as @ p # bs)" "x \<notin> set (as @ p # bs)"
  shows "ring (raw_list_add x p (next_of \<sigma> p) \<sigma>) (as @ p # x # bs)"
  unfolding ring_rotate_at [of _ as p "x # bs"] append_Cons
  using assms by (intro ring_raw_add) (simp_all add: ring_rotate_at)

lemma ring_delete:
  assumes "ring \<sigma> (as @ x # bs)" "as @ bs \<noteq> []"
  shows "ring (raw_list_del_entry x \<sigma>) (as @ bs)"
  unfolding raw_list_del_entry_def ring_rotate [of _ as bs]
  using assms by (intro ring_raw_del) (auto simp: ring_rotate_at)

lemma ring_replace:
  assumes "ring \<sigma> (as @ x # bs)" "y \<notin> set (as @ x # bs)"
  shows "ring (list_replace x y \<sigma>) (as @ y # bs)"
  unfolding ring_rotate_at [of _ as y bs]
  using assms by (intro ring_replace_head) (simp_all add: ring_rotate_at)


lemma dlist_distinct: "dlist \<sigma> h xs \<Longrightarrow> distinct (h # xs)"
  unfolding dlist_def by (rule ring_distinct)

lemma dlist_next_head: "dlist \<sigma> h xs \<Longrightarrow> next_of \<sigma> h = hd (xs @ [h])"
  unfolding dlist_def by (rule ring_first)

lemma dlist_prev_head: "dlist \<sigma> h xs \<Longrightarrow> prev_of \<sigma> h = last (h # xs)"
  unfolding dlist_def by (rule ring_last)

lemma dlist_Nil: "dlist \<sigma> h [] \<longleftrightarrow> next_of \<sigma> h = h \<and> prev_of \<sigma> h = h"
  by (simp add: dlist_def ring.simps)

lemma dlist_ring_at: "dlist \<sigma> h (as @ x # bs) \<longleftrightarrow> ring \<sigma> (x # bs @ h # as)"
  using ring_rotate [of \<sigma> "h # as" "x # bs"] by (simp add: dlist_def)

lemma dlist_INIT_LIST_HEAD: "dlist (INIT_LIST_HEAD h \<sigma>) h []"
  by (simp add: dlist_Nil INIT_LIST_HEAD_def Let_def)

lemma dlist_LIST_HEAD: "dlist (LIST_HEAD h \<sigma>) h []" "LIST_HEAD h \<sigma> = INIT_LIST_HEAD h \<sigma>"
  by (simp_all add: dlist_Nil LIST_HEAD_def INIT_LIST_HEAD_def Let_def)

lemma seg_cong:
  "(\<And>c. c \<in> set (a # xs) \<Longrightarrow> n' c = n c) \<Longrightarrow> (\<And>c. c \<in> set (b # xs) \<Longrightarrow> p' c = p c) \<Longrightarrow>
   seg n' p' a xs b \<longleftrightarrow> seg n p a xs b"
  by (induction xs arbitrary: a) auto

lemma ring_frame: "same_links (set xs) \<sigma> \<sigma>' \<Longrightarrow> ring \<sigma>' xs \<longleftrightarrow> ring \<sigma> xs"
proof (cases xs)
  case (Cons a ys)
  moreover assume "same_links (set xs) \<sigma> \<sigma>'"
  ultimately have "seg (next_of \<sigma>') (prev_of \<sigma>') a ys a \<longleftrightarrow> seg (next_of \<sigma>) (prev_of \<sigma>) a ys a"
    by (intro seg_cong) (auto simp: same_links_def)
  with Cons show ?thesis
    by (simp add: ring.simps)
qed (simp add: ring.simps)

lemma dlist_list_add:
  assumes "dlist \<sigma> h xs" "x \<notin> set (h # xs)"
  shows "dlist (list_add x h \<sigma>) h (x # xs)"
  using assms ring_insert_after [of \<sigma> "[]" h xs x] by (simp add: dlist_def list_add_def)

lemma dlist_list_add_tail:
  assumes "dlist \<sigma> h xs" "x \<notin> set (h # xs)"
  shows "dlist (list_add_tail x h \<sigma>) h (xs @ [x])"
proof (cases xs rule: rev_cases)
  case Nil
  with assms show ?thesis
    using ring_insert_after [of \<sigma> "[]" h "[]" x]
    by (simp add: dlist_def list_add_tail_def dlist_next_head [unfolded dlist_def] dlist_prev_head [unfolded dlist_def])
next
  case (snoc ys y)
  with assms have "ring \<sigma> ((h # ys) @ y # [])"
    by (simp add: dlist_def)
  moreover from this have "next_of \<sigma> y = h" "prev_of \<sigma> h = y"
    using ring_last_next [of \<sigma> h "ys @ [y]"] ring_last [of \<sigma> h "ys @ [y]"] by simp_all
  ultimately show ?thesis
    using assms snoc ring_insert_after [of \<sigma> "h # ys" y "[]" x]
    by (simp add: dlist_def list_add_tail_def)
qed

lemma dlist_raw_del:
  assumes "dlist \<sigma> h (as @ x # bs)"
  shows "dlist (raw_list_del_entry x \<sigma>) h (as @ bs)"
  using assms ring_delete [of \<sigma> "h # as" x bs] by (simp add: dlist_def)

lemma ring_upd_outside:
  "x \<notin> set xs \<Longrightarrow> ring (set_next x v \<sigma>) xs \<longleftrightarrow> ring \<sigma> xs"
  "x \<notin> set xs \<Longrightarrow> ring (set_prev x v \<sigma>) xs \<longleftrightarrow> ring \<sigma> xs"
  "x \<notin> set xs \<Longrightarrow> ring (INIT_LIST_HEAD x \<sigma>) xs \<longleftrightarrow> ring \<sigma> xs"
  by (rule ring_frame; auto simp: same_links_def INIT_LIST_HEAD_def Let_def)+

lemma dlist_list_del_init:
  assumes "dlist \<sigma> h (as @ x # bs)"
  shows "dlist (list_del_init x \<sigma>) h (as @ bs)" "dlist (list_del_init x \<sigma>) x []"
  using dlist_raw_del [OF assms] dlist_distinct [OF assms]
  by (auto simp: list_del_init_def Let_def dlist_def ring_upd_outside dlist_INIT_LIST_HEAD [unfolded dlist_def])

lemma dlist_list_del:
  assumes "dlist \<sigma> h (as @ x # bs)"
  shows "dlist (list_del x \<sigma>) h (as @ bs)"
    and "next_of (list_del x \<sigma>) x = LIST_POISON1" "prev_of (list_del x \<sigma>) x = LIST_POISON2"
  using dlist_raw_del [OF assms] dlist_distinct [OF assms]
  by (auto simp: list_del_def Let_def dlist_def ring_upd_outside)

lemma dlist_replace:
  assumes "dlist \<sigma> h (as @ x # bs)" "y \<notin> set (h # as @ x # bs)"
  shows "dlist (list_replace x y \<sigma>) h (as @ y # bs)"
  using assms ring_replace [of \<sigma> "h # as" x bs y] by (simp add: dlist_def)

lemma ring_swap:
  assumes r: "ring \<sigma> (e1 # ys @ e2 # zs)"
  shows "ring (list_swap e1 e2 \<sigma>) (e2 # ys @ e1 # zs)"
proof -
  define \<sigma>1 where "\<sigma>1 = list_del e2 \<sigma>"
  define \<sigma>2 where "\<sigma>2 = list_replace e1 e2 \<sigma>1"
  note d = ring_distinct [OF r]
  have pos: "prev_of \<sigma> e2 = last (e1 # ys)"
    using ring_last [of \<sigma> e2 "zs @ e1 # ys"] r ring_rotate_at [of \<sigma> "e1 # ys" e2 zs] by simp
  have "ring \<sigma>1 (e1 # ys @ zs)"
    using dlist_list_del(1) [of \<sigma> e1 ys e2 zs] r by (simp add: \<sigma>1_def dlist_def)
  then have r2: "ring \<sigma>2 (e2 # ys @ zs)"
    unfolding \<sigma>2_def using d by (intro ring_replace_head) auto
  have split: "butlast (e2 # ys) @ last (e2 # ys) # us = e2 # ys @ us" for us
    using append_butlast_last_id [of "e2 # ys"] by (metis append_Cons append_assoc append_Nil list.distinct(1))
  have "ring (list_add e1 (last (e2 # ys)) \<sigma>2) (butlast (e2 # ys) @ last (e2 # ys) # e1 # zs)"
    unfolding list_add_def
    by (rule ring_insert_after)
      (unfold split [of zs], use r2 d in auto)
  note this [unfolded split]
  moreover have "(if prev_of \<sigma> e2 = e1 then e2 else prev_of \<sigma> e2) = last (e2 # ys)"
    using d pos by auto
  ultimately show ?thesis
    by (simp add: list_swap_def Let_def \<sigma>1_def \<sigma>2_def)
qed


lemma dlist_move:
  assumes "dlist \<sigma> h (as @ x # bs)"
  shows "dlist (list_move x h \<sigma>) h (x # as @ bs)"
    and "dlist (list_move_tail x h \<sigma>) h (as @ bs @ [x])"
  using dlist_raw_del [OF assms] dlist_distinct [OF assms]
    dlist_list_add [of _ h "as @ bs" x] dlist_list_add_tail [of _ h "as @ bs" x]
  by (auto simp: list_move_def list_move_tail_def Let_def)

lemma raw_del_other:
  assumes "ring \<sigma> (x # as)" "as \<noteq> []" "ring \<sigma> ys" "set (x # as) \<inter> set ys = {}"
  shows "ring (raw_list_del_entry x \<sigma>) ys"
proof -
  have "prev_of \<sigma> x \<in> set as" "next_of \<sigma> x \<in> set as"
    using ring_last [OF assms(1)] ring_first [OF assms(1)] assms(2) by (auto simp: hd_append)
  then have "same_links (set ys) \<sigma> (raw_list_del_entry x \<sigma>)"
    using assms(4) by (auto simp: same_links_def raw_list_del_entry_def raw_list_del_def Let_def)
  with assms(3) show ?thesis
    by (simp add: ring_frame)
qed

lemma dlist_move_other:
  assumes "dlist \<sigma> h (as @ x # bs)" "dlist \<sigma> k ys" "set (h # as @ x # bs) \<inter> set (k # ys) = {}"
  shows "dlist (list_move x k \<sigma>) k (x # ys)"
    and "dlist (list_move_tail x k \<sigma>) k (ys @ [x])"
proof -
  have "dlist (raw_list_del_entry x \<sigma>) k ys"
    using raw_del_other [of \<sigma> x "bs @ h # as" "k # ys"] assms
    unfolding dlist_ring_at dlist_def [of _ k] by auto
  then show "dlist (list_move x k \<sigma>) k (x # ys)" "dlist (list_move_tail x k \<sigma>) k (ys @ [x])"
    using assms(3) dlist_list_add [of _ k ys x] dlist_list_add_tail [of _ k ys x]
    by (auto simp: list_move_def list_move_tail_def Let_def)
qed

lemma dlist_rotate_left: "dlist \<sigma> h xs \<Longrightarrow> dlist (list_rotate_left h \<sigma>) h (rotate1 xs)"
  by (cases xs)
    (auto simp: list_rotate_left_def list_empty_def Let_def dlist_next_head
      dest: dlist_distinct dlist_move(2) [of _ _ "[]", simplified])

lemma dlist_rotate_to_front:
  assumes "dlist \<sigma> h (as @ x # bs)"
  shows "dlist (list_rotate_to_front x h \<sigma>) h (x # bs @ as)"
proof -
  from assms have "dlist \<sigma> x (bs @ h # as)"
    using dlist_ring_at [of \<sigma> h as x bs] by (simp add: dlist_def)
  then have "dlist (list_move_tail h x \<sigma>) x (bs @ as @ [h])"
    by (rule dlist_move)
  then have "ring (list_move_tail h x \<sigma>) ((x # bs @ as) @ [h])"
    by (simp add: dlist_def)
  then show ?thesis
    unfolding list_rotate_to_front_def dlist_def using ring_rotate_at [of "list_move_tail h x \<sigma>" "x # bs @ as" h "[]"] by simp
qed

lemma dlist_empty_iff: "dlist \<sigma> h xs \<Longrightarrow> list_empty h \<sigma> \<longleftrightarrow> xs = []"
  using dlist_next_head [of \<sigma> h xs] dlist_distinct [of \<sigma> h xs] by (cases xs) (auto simp: list_empty_def)

lemma dlist_empty_careful_iff: "dlist \<sigma> h xs \<Longrightarrow> list_empty_careful h \<sigma> \<longleftrightarrow> xs = []"
  using dlist_next_head [of \<sigma> h xs] dlist_prev_head [of \<sigma> h xs] dlist_distinct [of \<sigma> h xs]
  by (cases xs) (auto simp: list_empty_careful_def)

lemma dlist_singular_iff: "dlist \<sigma> h xs \<Longrightarrow> list_is_singular h \<sigma> \<longleftrightarrow> length xs = 1"
  using dlist_next_head [of \<sigma> h xs] dlist_prev_head [of \<sigma> h xs] dlist_distinct [of \<sigma> h xs]
  by (cases xs rule: list_ends_cases) (auto simp: list_is_singular_def dlist_empty_iff)

lemma dlist_cut_position:
  assumes "dlist \<sigma> h (as @ e # bs)" "l \<notin> set (h # as @ e # bs)"
  shows "dlist (list_cut_position l h e \<sigma>) l (as @ [e])"
    and "dlist (list_cut_position l h e \<sigma>) h bs"
proof -
  have "e \<noteq> h" using dlist_distinct [OF assms(1)] by auto
  moreover have "\<not> list_empty h \<sigma>"
    using dlist_empty_iff [OF assms(1)] by simp
  moreover have "list_is_singular h \<sigma> \<Longrightarrow> next_of \<sigma> h = e"
    using dlist_singular_iff [OF assms(1)] dlist_next_head [OF assms(1)] by (cases as) auto
  ultimately have "list_cut_position l h e \<sigma> = raw_list_cut_position l h e \<sigma>"
    by (auto simp: list_cut_position_def)
  then show "dlist (list_cut_position l h e \<sigma>) l (as @ [e])" "dlist (list_cut_position l h e \<sigma>) h bs"
    using ring_cut [of \<sigma> h as e bs l] assms by (simp_all add: dlist_def)
qed

lemma dlist_cut_position_head:
  assumes "dlist \<sigma> h xs" "xs \<noteq> []" "l \<notin> set (h # xs)"
  shows "dlist (list_cut_position l h h \<sigma>) l []" and "dlist (list_cut_position l h h \<sigma>) h xs"
  using assms dlist_empty_iff [OF assms(1)]
    dlist_INIT_LIST_HEAD [of l \<sigma>]
  by (auto simp: list_cut_position_def dlist_def ring_upd_outside)

lemma cut_before_position:
  assumes "next_of \<sigma> h \<noteq> e" "l \<noteq> e" "q = prev_of \<sigma> e" "next_of \<sigma> q = e"
  shows "list_cut_before l h e \<sigma> = raw_list_cut_position l h q \<sigma>"
  using assms by (simp add: list_cut_before_def raw_list_cut_position_def Let_def)

lemma dlist_cut_before:
  assumes d: "dlist \<sigma> h (as @ e # bs)" and l: "l \<notin> set (h # as @ e # bs)"
  shows "dlist (list_cut_before l h e \<sigma>) l as" and "dlist (list_cut_before l h e \<sigma>) h (e # bs)"
proof -
  have "dlist (list_cut_before l h e \<sigma>) l as \<and> dlist (list_cut_before l h e \<sigma>) h (e # bs)"
  proof (cases as rule: rev_cases)
    case Nil
    with d have "next_of \<sigma> h = e"
      by (simp add: dlist_next_head)
    then show ?thesis
      using Nil d l dlist_INIT_LIST_HEAD [of l \<sigma>]
      by (auto simp: list_cut_before_def dlist_def ring_upd_outside)
  next
    case (snoc cs q)
    with d have r: "ring \<sigma> (h # cs @ q # e # bs)"
      by (simp add: dlist_def)
    then have "next_of \<sigma> q = e" "prev_of \<sigma> e = q"
      by (auto simp: ring.simps)
    moreover have "next_of \<sigma> h \<noteq> e"
      using dlist_next_head [OF d] dlist_distinct [OF d] snoc by (cases cs) auto
    ultimately have "list_cut_before l h e \<sigma> = raw_list_cut_position l h q \<sigma>"
      using l by (intro cut_before_position) auto
    then show ?thesis
      using ring_cut [OF r, of l] l snoc by (simp add: dlist_def)
  qed
  then show "dlist (list_cut_before l h e \<sigma>) l as" "dlist (list_cut_before l h e \<sigma>) h (e # bs)"
    by blast+
qed

lemma dlist_cut_before_all:
  assumes d: "dlist \<sigma> h xs" and l: "l \<notin> set (h # xs)"
  shows "dlist (list_cut_before l h h \<sigma>) l xs" and "dlist (list_cut_before l h h \<sigma>) h []"
proof -
  have "dlist (list_cut_before l h h \<sigma>) l xs \<and> dlist (list_cut_before l h h \<sigma>) h []"
  proof (cases xs rule: rev_cases)
    case Nil
    then show ?thesis
      using d l dlist_INIT_LIST_HEAD [of l \<sigma>]
      by (auto simp: list_cut_before_def dlist_next_head dlist_def ring_upd_outside)
  next
    case (snoc cs q)
    with d have r: "ring \<sigma> (h # cs @ q # [])"
      by (simp add: dlist_def)
    then have "next_of \<sigma> q = h" "prev_of \<sigma> h = q"
      by (auto simp: ring.simps)
    moreover have "next_of \<sigma> h \<noteq> h"
      using dlist_next_head [OF d] dlist_distinct [OF d] snoc by (cases cs) auto
    ultimately have "list_cut_before l h h \<sigma> = raw_list_cut_position l h q \<sigma>"
      using l by (intro cut_before_position) auto
    then show ?thesis
      using ring_cut [OF r, of l] l snoc by (simp add: dlist_def)
  qed
  then show "dlist (list_cut_before l h h \<sigma>) l xs" "dlist (list_cut_before l h h \<sigma>) h []"
    by blast+
qed

lemma ring_splice_at:
  assumes "ring \<sigma> (l # ys)" "ys \<noteq> []" "ring \<sigma> (as @ q # bs)" "set (l # ys) \<inter> set (as @ q # bs) = {}"
  shows "ring (raw_list_splice l q (next_of \<sigma> q) \<sigma>) (as @ q # ys @ bs)"
  unfolding ring_rotate_at [of _ as q "ys @ bs"]
  using assms ring_splice [of \<sigma> l ys q "bs @ as"] ring_rotate_at [of \<sigma> as q bs] by auto

lemma dlist_splice:
  assumes l: "dlist \<sigma> l ys" and h: "dlist \<sigma> h xs" and dj: "set (l # ys) \<inter> set (h # xs) = {}"
  shows "dlist (list_splice l h \<sigma>) h (ys @ xs)" and "dlist (list_splice_tail l h \<sigma>) h (xs @ ys)"
proof -
  define q where "q = last (h # xs)"
  have hq: "prev_of \<sigma> h = q" "next_of \<sigma> q = h"
    using dlist_prev_head [OF h] ring_last_next [of \<sigma> h xs] h by (simp_all add: q_def dlist_def)
  have qs: "butlast (h # xs) @ q # us = h # xs @ us" for us
    using append_butlast_last_id [of "h # xs"]
    by (metis append_Cons append_assoc append_Nil list.distinct(1) q_def)
  show "dlist (list_splice l h \<sigma>) h (ys @ xs)"
    using assms dlist_empty_iff [OF l] ring_splice [of \<sigma> l ys h xs]
    by (auto simp: list_splice_def dlist_def)
  show "dlist (list_splice_tail l h \<sigma>) h (xs @ ys)"
    using assms dlist_empty_iff [OF l] ring_splice_at [of \<sigma> l ys "butlast (h # xs)" q "[]"] hq
    unfolding qs by (auto simp: list_splice_tail_def dlist_def)
qed

lemma dlist_splice_init:
  assumes l: "dlist \<sigma> l ys" and h: "dlist \<sigma> h xs" and dj: "set (l # ys) \<inter> set (h # xs) = {}"
  shows "dlist (list_splice_init l h \<sigma>) h (ys @ xs)" and "dlist (list_splice_init l h \<sigma>) l []"
    and "dlist (list_splice_tail_init l h \<sigma>) h (xs @ ys)" and "dlist (list_splice_tail_init l h \<sigma>) l []"
proof -
  have "l \<notin> set (h # ys @ xs)" "l \<notin> set (h # xs @ ys)"
    using dj dlist_distinct [OF l] by auto
  then show "dlist (list_splice_init l h \<sigma>) h (ys @ xs)" "dlist (list_splice_init l h \<sigma>) l []"
    "dlist (list_splice_tail_init l h \<sigma>) h (xs @ ys)" "dlist (list_splice_tail_init l h \<sigma>) l []"
    using dlist_splice [OF assms] dlist_empty_iff [OF l] l
    by (auto simp: list_splice_init_def list_splice_tail_init_def list_splice_def list_splice_tail_def
        dlist_INIT_LIST_HEAD dlist_def [of _ h] ring_upd_outside Let_def)
qed

lemma fwd_loop_fold:
  assumes links: "\<And>p \<tau>. next_of (body p \<tau>) = next_of \<tau>"
  shows "seg (next_of \<sigma>) pr a xs h \<Longrightarrow> h \<notin> set xs \<Longrightarrow>
    list_fwd_loop body h (next_of \<sigma> a) \<sigma> = Some (fold body xs \<sigma>)"
proof (induction xs arbitrary: a \<sigma>)
  case Nil
  then show ?case by (subst list_fwd_loop.simps) simp
next
  case (Cons x xs)
  then have "next_of \<sigma> a = x" "x \<noteq> h" by auto
  moreover have "list_fwd_loop body h (next_of (body x \<sigma>) x) (body x \<sigma>) = Some (fold body xs (body x \<sigma>))"
    using Cons.prems by (intro Cons.IH) (auto simp: links)
  ultimately show ?case
    by (subst list_fwd_loop.simps) (simp add: Let_def)
qed

lemma bwd_loop_fold:
  assumes links: "\<And>p \<tau>. prev_of (body p \<tau>) = prev_of \<tau>"
  shows "seg nx (prev_of \<sigma>) h xs a \<Longrightarrow> h \<notin> set xs \<Longrightarrow>
    list_bwd_loop body h (prev_of \<sigma> a) \<sigma> = Some (fold body (rev xs) \<sigma>)"
proof (induction xs arbitrary: a \<sigma> rule: rev_induct)
  case Nil
  then show ?case by (subst list_bwd_loop.simps) simp
next
  case (snoc x xs)
  then have "prev_of \<sigma> a = x" "x \<noteq> h" by auto
  moreover have "list_bwd_loop body h (prev_of (body x \<sigma>) x) (body x \<sigma>) = Some (fold body (rev xs) (body x \<sigma>))"
    using snoc.prems by (intro snoc.IH) (auto simp: links)
  ultimately show ?case
    by (subst list_bwd_loop.simps) (simp add: Let_def)
qed

lemma entry_fwd_loop_nodes:
  assumes links: "\<And>p \<tau>. next_of (body p \<tau>) = next_of \<tau>"
  shows "seg (next_of \<sigma>) pr a xs h \<Longrightarrow> h \<notin> set xs \<Longrightarrow>
    entry_fwd_loop body off h (next_of \<sigma> a - off) \<sigma> = Some (fold body (map (\<lambda>p. p - off) xs) \<sigma>)"
proof (induction xs arbitrary: a \<sigma>)
  case Nil
  then show ?case by (subst entry_fwd_loop.simps) (simp add: list_entry_is_head_def)
next
  case (Cons x xs)
  then have "next_of \<sigma> a = x" "x \<noteq> h" by auto
  moreover have "entry_fwd_loop body off h (next_of (body (x - off) \<sigma>) x - off) (body (x - off) \<sigma>) =
     Some (fold body (map (\<lambda>p. p - off) xs) (body (x - off) \<sigma>))"
    using Cons.prems by (intro Cons.IH) (auto simp: links)
  ultimately show ?case
    by (subst entry_fwd_loop.simps)
      (simp add: Let_def list_entry_is_head_def list_next_entry_def list_entry_def container_of_def)
qed

lemma dlist_del_init_other:
  assumes "dlist \<sigma> h (as @ x # bs)" "dlist \<sigma> k ys" "set (h # as @ x # bs) \<inter> set (k # ys) = {}"
  shows "dlist (list_del_init x \<sigma>) k ys"
proof -
  have "ring (raw_list_del_entry x \<sigma>) (k # ys)"
    using raw_del_other [of \<sigma> x "bs @ h # as" "k # ys"] assms
    unfolding dlist_ring_at dlist_def [of _ k] by auto
  then show ?thesis
    using assms(3) by (auto simp: list_del_init_def Let_def dlist_def ring_upd_outside)
qed

lemma safe_loop_drain:
  "dlist \<sigma> h xs \<Longrightarrow> \<forall>x\<in>D. dlist \<sigma> x [] \<and> x \<notin> set (h # xs) \<Longrightarrow>
   \<exists>\<sigma>'. list_fwd_safe_loop list_del_init h (next_of \<sigma> h) (next_of \<sigma> (next_of \<sigma> h)) \<sigma> = Some \<sigma>' \<and>
     dlist \<sigma>' h [] \<and> (\<forall>x \<in> D \<union> set xs. dlist \<sigma>' x [])"
proof (induction xs arbitrary: \<sigma> D)
  case Nil
  then show ?case
    by (subst list_fwd_safe_loop.simps) (simp add: dlist_next_head)
next
  case (Cons x xs)
  let ?\<sigma> = "list_del_init x \<sigma>"
  have ne: "next_of \<sigma> h = x" "x \<noteq> h"
    using dlist_next_head [OF Cons.prems(1)] dlist_distinct [OF Cons.prems(1)] by auto
  have nx: "next_of \<sigma> x = hd (xs @ [h])"
    using Cons.prems(1) by (cases xs) (auto simp: dlist_def ring.simps)
  have d: "dlist ?\<sigma> h xs" and dx: "dlist ?\<sigma> x []"
    using dlist_list_del_init [of \<sigma> h "[]" x xs] Cons.prems(1) by simp_all
  have "\<forall>y \<in> insert x D. dlist ?\<sigma> y [] \<and> y \<notin> set (h # xs)"
    using dx Cons.prems dlist_distinct [OF Cons.prems(1)] dlist_del_init_other [of \<sigma> h "[]" x xs _ "[]"] by auto
  from Cons.IH [OF d this] nx ne show ?case
    by (subst list_fwd_safe_loop.simps) (simp add: Let_def dlist_next_head [OF d] insert_commute)
qed


lemma seg_unique: "seg n p a xs h \<Longrightarrow> seg n p a ys h \<Longrightarrow> h \<notin> set xs \<Longrightarrow> h \<notin> set ys \<Longrightarrow> xs = ys"
proof (induction xs arbitrary: a ys)
  case Nil
  then show ?case by (cases ys) auto
next
  case (Cons x xs)
  then show ?case by (cases ys) auto
qed

lemma dlist_unique: "dlist \<sigma> h xs \<Longrightarrow> dlist \<sigma> h ys \<Longrightarrow> xs = ys"
  by (auto simp: dlist_def ring.simps intro: seg_unique)

section \<open>Frames\<close>

lemma same_links_subset: "same_links B \<sigma> \<sigma>' \<Longrightarrow> A \<subseteq> B \<Longrightarrow> same_links A \<sigma> \<sigma>'"
  by (auto simp: same_links_def)

lemma dlist_frame: "dlist \<sigma> k ys \<Longrightarrow> same_links (set (k # ys)) \<sigma> \<sigma>' \<Longrightarrow> dlist \<sigma>' k ys"
  unfolding dlist_def using ring_frame by blast

lemma hd_mem: "hd (xs @ [h]) \<in> set (h # xs)"
  by (cases xs) auto

lemma last_mem: "last (h # xs) \<in> set (h # xs)"
  by simp

lemma dlist_head_notin: "dlist \<sigma> h xs \<Longrightarrow> h \<notin> set xs"
  using dlist_distinct [of \<sigma> h xs] by simp

lemma list_add_frame:
  assumes "dlist \<sigma> h xs"
  shows "same_links (- set (x # h # xs)) \<sigma> (list_add x h \<sigma>)"
    and "same_links (- set (x # h # xs)) \<sigma> (list_add_tail x h \<sigma>)"
  using hd_mem [of xs h] last_mem [of h xs]
  by (auto simp: same_links_def list_add_def list_add_tail_def raw_list_add_def Let_def
      dlist_next_head [OF assms] dlist_prev_head [OF assms])

lemma node_neighbours:
  assumes "dlist \<sigma> h (as @ x # bs)"
  shows "prev_of \<sigma> x \<in> set (h # as @ bs)" "next_of \<sigma> x \<in> set (h # as @ bs)"
  using assms ring_last [of \<sigma> x "bs @ h # as"] ring_first [of \<sigma> x "bs @ h # as"]
    last_mem [of h as]
  unfolding dlist_ring_at by (auto simp: hd_append)

lemma list_del_init_frame:
  assumes "dlist \<sigma> h (as @ x # bs)"
  shows "same_links (- set (h # as @ x # bs)) \<sigma> (list_del_init x \<sigma>)"
  using node_neighbours [OF assms]
  by (auto simp: same_links_def list_del_init_def raw_list_del_entry_def raw_list_del_def
      INIT_LIST_HEAD_def Let_def)

lemma more_list_ops [heap_simps]:
  "list_heap.more (INIT_LIST_HEAD x \<sigma>) = list_heap.more \<sigma>"
  "list_heap.more (raw_list_add x y z \<sigma>) = list_heap.more \<sigma>"
  "list_heap.more (raw_list_del x y \<sigma>) = list_heap.more \<sigma>"
  "list_heap.more (list_add x y \<sigma>) = list_heap.more \<sigma>"
  "list_heap.more (list_add_tail x y \<sigma>) = list_heap.more \<sigma>"
  "list_heap.more (list_del_init x \<sigma>) = list_heap.more \<sigma>"
  by (simp_all add: INIT_LIST_HEAD_def raw_list_add_def raw_list_del_def list_add_def
      list_add_tail_def list_del_init_def raw_list_del_entry_def Let_def)

section \<open>The queue interface\<close>

text \<open>
  What a client such as the scheduler relies on: a queue of nodes with a front, insertion at
  both ends and removal.  \<open>node x\<close> says that \<open>x\<close> may be an entry at all (it is neither the
  head nor \<open>NULL\<close>).
\<close>

locale node_queue =
  fixes front :: "'s \<Rightarrow> addr"
    and push_front :: "addr \<Rightarrow> 's \<Rightarrow> 's"
    and push_back :: "addr \<Rightarrow> 's \<Rightarrow> 's"
    and remove :: "addr \<Rightarrow> 's \<Rightarrow> 's"
    and node :: "addr \<Rightarrow> bool"
    and queue :: "'s \<Rightarrow> addr list \<Rightarrow> bool"
  assumes front_empty: "queue s [] \<Longrightarrow> front s = NULL"
    and front_first: "queue s (x # xs) \<Longrightarrow> front s = x"
    and push_front: "queue s xs \<Longrightarrow> node x \<Longrightarrow> x \<notin> set xs \<Longrightarrow> queue (push_front x s) (x # xs)"
    and push_back: "queue s xs \<Longrightarrow> node x \<Longrightarrow> x \<notin> set xs \<Longrightarrow> queue (push_back x s) (xs @ [x])"
    and remove: "queue s xs \<Longrightarrow> x \<in> set xs \<Longrightarrow> queue (remove x s) (remove1 x xs)"
    and queue_distinct: "queue s xs \<Longrightarrow> distinct xs"
    and queue_nodes: "queue s xs \<Longrightarrow> x \<in> set xs \<Longrightarrow> node x"
    and node_not_null: "node x \<Longrightarrow> x \<noteq> NULL"
begin

lemma front_null_iff: "queue s xs \<Longrightarrow> front s = NULL \<longleftrightarrow> xs = []"
  by (cases xs) (auto simp: front_empty front_first dest: queue_nodes node_not_null)

lemma pop: "queue s (x # xs) \<Longrightarrow> queue (remove x s) xs"
  using remove [of s "x # xs" x] by simp

lemma requeue_and_pop:
  assumes "queue s (x # xs)" "node c" "c \<notin> set (x # xs)"
  shows "queue (remove x (push_back c s)) (xs @ [c])"
proof -
  have "queue (push_back c s) (x # xs @ [c])"
    using push_back [OF assms] by simp
  then show ?thesis
    by (rule pop)
qed

lemma push_front_requeue_and_pop:
  assumes "queue s xs" "node x" "x \<notin> set xs" "node c" "c \<notin> set (x # xs)"
  shows "queue (remove x (push_back c (push_front x s))) (xs @ [c])"
  using assms push_front [of s xs x] by (intro requeue_and_pop) auto

end

definition task_node :: "addr \<Rightarrow> addr \<Rightarrow> bool" where
  "task_node head x \<longleftrightarrow> x \<noteq> head \<and> x \<noteq> NULL"

definition node_list :: "addr \<Rightarrow> 'a list_heap_scheme \<Rightarrow> addr list \<Rightarrow> bool" where
  "node_list head \<sigma> xs \<longleftrightarrow> dlist \<sigma> head xs \<and> NULL \<notin> set xs"

lemma dlist_del_init_remove1:
  assumes "dlist \<sigma> h xs" "x \<in> set xs"
  shows "dlist (list_del_init x \<sigma>) h (remove1 x xs)"
proof -
  obtain as bs where "xs = as @ x # bs" "x \<notin> set as"
    using split_list_first [OF assms(2)] by blast
  with assms(1) dlist_list_del_init(1) [of \<sigma> h as x bs] show ?thesis
    by (simp add: remove1_append)
qed

lemma dlist_head_first [simp]: "\<not> dlist \<sigma> h (h # xs)"
  by (auto dest: dlist_distinct)

interpretation lq: node_queue
  "list_first_entry_or_null head 0" "\<lambda>x. list_add x head" "\<lambda>x. list_add_tail x head"
  list_del_init "task_node head" "node_list head"
  by unfold_locales
    (auto simp: node_list_def task_node_def list_first_entry_or_null_def list_entry_def
      container_of_def Let_def dlist_next_head NULL_def
      intro!: dlist_list_add dlist_list_add_tail dlist_del_init_remove1
      dest: dlist_distinct dlist_head_notin notin_set_remove1)

section \<open>Properties\<close>

text \<open>A concrete heap for the witnesses: head 100 with entries 8, 16, 24 and the empty head 200.\<close>

definition sample_heap :: list_heap where
  "sample_heap =
     \<lparr>next_of = (\<lambda>_. 0)(100 := 8, 8 := 16, 16 := 24, 24 := 100, 200 := 200),
      prev_of = (\<lambda>_. 0)(100 := 24, 8 := 100, 16 := 8, 24 := 16, 200 := 200)\<rparr>"

lemma sample_dlist: "dlist sample_heap 100 [8, 16, 24]" "dlist sample_heap 200 []"
  by (simp_all add: dlist_def ring.simps sample_heap_def)

text \<open>
  \<open>list_add\<close> puts a new entry first and \<open>list_add_tail\<close> puts it last; neither touches a
  link outside the list and the new entry.
\<close>

lemma list_insert_correct:
  assumes "dlist \<sigma> head xs" and "new \<notin> set (head # xs)"
  shows "dlist (list_add new head \<sigma>) head (new # xs) \<and>
    dlist (list_add_tail new head \<sigma>) head (xs @ [new]) \<and>
    same_links (- set (new # head # xs)) \<sigma> (list_add new head \<sigma>) \<and>
    same_links (- set (new # head # xs)) \<sigma> (list_add_tail new head \<sigma>)"
  using dlist_list_add [OF assms] dlist_list_add_tail [OF assms] list_add_frame [OF assms(1), of new]
  by simp

lemma list_insert_correct_witness:
  "dlist (list_add 40 100 sample_heap) 100 [40, 8, 16, 24] \<and>
   dlist (list_add_tail 40 100 sample_heap) 100 [8, 16, 24, 40]"
  using list_insert_correct [OF sample_dlist(1), of 40] by simp

lemma list_del_init_careful_eq: "list_del_init_careful x \<sigma> = list_del_init x \<sigma>"
  by (simp add: list_del_init_careful_def list_del_init_def INIT_LIST_HEAD_def Let_def set_next_def
      set_prev_def)

text \<open>
  C19. Removal: for an entry anywhere in the list, \<open>list_del\<close>, \<open>list_del_init\<close> and
  \<open>list_del_init_careful\<close> leave exactly the other entries in order; \<open>list_del\<close> poisons the
  entry's links, the two others make it an empty list of its own.
\<close>

theorem list_remove_correct:
  assumes "dlist \<sigma> head (as @ x # bs)"
  shows "dlist (list_del x \<sigma>) head (as @ bs) \<and>
    next_of (list_del x \<sigma>) x = LIST_POISON1 \<and> prev_of (list_del x \<sigma>) x = LIST_POISON2 \<and>
    dlist (list_del_init x \<sigma>) head (as @ bs) \<and> dlist (list_del_init x \<sigma>) x [] \<and>
    list_del_init_careful x \<sigma> = list_del_init x \<sigma> \<and>
    same_links (- set (head # as @ x # bs)) \<sigma> (list_del_init x \<sigma>)"
  using dlist_list_del [OF assms] dlist_list_del_init [OF assms] list_del_init_frame [OF assms]
  by (simp add: list_del_init_careful_eq)

theorem list_remove_correct_witness:
  "dlist (list_del_init 16 sample_heap) 100 [8, 24] \<and> dlist (list_del_init 16 sample_heap) 16 []"
  using list_remove_correct [of sample_heap 100 "[8]" 16 "[24]"] sample_dlist(1) by simp

text \<open>
  C20. \<open>list_swap\<close> exchanges two entries of a list, wherever they stand and also when they are
  neighbours, and keeps the order of all others.
\<close>

theorem list_swap_correct:
  assumes "dlist \<sigma> head (as @ x # bs @ y # cs)"
  shows "dlist (list_swap x y \<sigma>) head (as @ y # bs @ x # cs) \<and>
    dlist (list_swap y x \<sigma>) head (as @ y # bs @ x # cs)"
proof
  have "ring \<sigma> (x # bs @ y # cs @ head # as)"
    using assms dlist_ring_at [of \<sigma> head as x "bs @ y # cs"] by simp
  then have "ring (list_swap x y \<sigma>) (y # bs @ x # cs @ head # as)"
    by (rule ring_swap)
  then show "dlist (list_swap x y \<sigma>) head (as @ y # bs @ x # cs)"
    using dlist_ring_at [of "list_swap x y \<sigma>" head as y "bs @ x # cs"] by simp
  have "ring \<sigma> (y # (cs @ head # as) @ x # bs)"
    using assms dlist_ring_at [of \<sigma> head "as @ x # bs" y cs] by simp
  then have "ring (list_swap y x \<sigma>) (x # (cs @ head # as) @ y # bs)"
    by (rule ring_swap)
  then show "dlist (list_swap y x \<sigma>) head (as @ y # bs @ x # cs)"
    using dlist_ring_at [of "list_swap y x \<sigma>" head "as @ y # bs" x cs] by simp
qed

theorem list_swap_correct_witness:
  "dlist (list_swap 8 16 sample_heap) 100 [16, 8, 24] \<and> dlist (list_swap 24 8 sample_heap) 100 [24, 16, 8]"
  using list_swap_correct [of sample_heap 100 "[]" 8 "[]" 16 "[24]"]
    list_swap_correct [of sample_heap 100 "[]" 8 "[16]" 24 "[]"] sample_dlist(1) by simp

text \<open>
  \<open>list_bulk_move_tail\<close> moves the section from \<open>first\<close> to \<open>last\<close>, both included, to the
  end of its list, in order.
\<close>

theorem list_bulk_move_tail_correct:
  assumes "dlist \<sigma> head (as @ mid @ bs)" and "mid \<noteq> []"
  shows "dlist (list_bulk_move_tail head (hd mid) (last mid) \<sigma>) head (as @ bs @ mid)"
  using assms by (cases mid) (auto simp: dlist_def dest: ring_bulk [of \<sigma> head as _ _ bs, simplified])

theorem list_bulk_move_tail_correct_witness:
  "dlist (list_bulk_move_tail 100 8 16 sample_heap) 100 [24, 8, 16]"
  using list_bulk_move_tail_correct [of sample_heap 100 "[]" "[8, 16]" "[24]"] sample_dlist(1) by simp

text \<open>
  Cutting a list in two: \<open>list_cut_position\<close> moves the entries up to and including
  \<open>entry\<close> to the list \<open>list\<close>, \<open>list_cut_before\<close> those before \<open>entry\<close>, and
  \<open>list_cut_before\<close> with the head as \<open>entry\<close> all of them; the rest stays on the head.
\<close>

lemma list_cut_correct:
  assumes "dlist \<sigma> head (as @ entry # bs)" and "list \<notin> set (head # as @ entry # bs)"
  shows "dlist (list_cut_position list head entry \<sigma>) list (as @ [entry]) \<and>
    dlist (list_cut_position list head entry \<sigma>) head bs \<and>
    dlist (list_cut_before list head entry \<sigma>) list as \<and>
    dlist (list_cut_before list head entry \<sigma>) head (entry # bs) \<and>
    dlist (list_cut_before list head head \<sigma>) list (as @ entry # bs) \<and>
    dlist (list_cut_before list head head \<sigma>) head []"
  using dlist_cut_position [OF assms] dlist_cut_before [OF assms] dlist_cut_before_all [OF assms]
  by simp

lemma list_cut_correct_witness:
  "dlist (list_cut_position 200 100 16 sample_heap) 200 [8, 16] \<and>
   dlist (list_cut_before 200 100 16 sample_heap) 100 [16, 24]"
  using list_cut_correct [of sample_heap 100 "[8]" 16 "[24]" 200] sample_dlist(1) by simp

text \<open>
  C21. Joining two separate lists: the four splice operations put all entries of \<open>list\<close>, in
  order, before or after those of \<open>head\<close>, also when either list is empty; the \<open>_init\<close>
  variants leave \<open>list\<close> empty.
\<close>

theorem list_splice_correct:
  assumes "dlist \<sigma> list ys" and "dlist \<sigma> head xs" and "set (list # ys) \<inter> set (head # xs) = {}"
  shows "dlist (list_splice list head \<sigma>) head (ys @ xs) \<and>
    dlist (list_splice_tail list head \<sigma>) head (xs @ ys) \<and>
    dlist (list_splice_init list head \<sigma>) head (ys @ xs) \<and> dlist (list_splice_init list head \<sigma>) list [] \<and>
    dlist (list_splice_tail_init list head \<sigma>) head (xs @ ys) \<and>
    dlist (list_splice_tail_init list head \<sigma>) list []"
  using dlist_splice [OF assms] dlist_splice_init [OF assms] by simp

theorem list_splice_correct_witness:
  "dlist (list_splice_tail_init 100 200 sample_heap) 200 [8, 16, 24] \<and>
   dlist (list_splice_tail_init 100 200 sample_heap) 100 []"
  using list_splice_correct [OF sample_dlist] by simp

text \<open>
  C22. \<open>list_for_each\<close> and \<open>list_for_each_entry\<close> return and run the body exactly once for every
  entry, first to last, and \<open>list_for_each_prev\<close> last to first, for any body that leaves the
  links alone. \<open>list_for_each_safe\<close> tolerates the removal of the current entry: with \<open>list_del_init\<close>
  as its body it returns, empties the list and leaves every entry an empty list of its own.
\<close>

theorem list_for_each_visits:
  assumes "dlist \<sigma> head xs"
    and "\<And>p \<tau>. next_of (body p \<tau>) = next_of \<tau>" and "\<And>p \<tau>. prev_of (body p \<tau>) = prev_of \<tau>"
  shows "list_for_each body head \<sigma> = Some (fold body xs \<sigma>) \<and>
    list_for_each_prev body head \<sigma> = Some (fold body (rev xs) \<sigma>) \<and>
    list_for_each_entry body off head \<sigma> = Some (fold body (map (\<lambda>p. container_of p off) xs) \<sigma>) \<and>
    (\<exists>\<sigma>'. list_for_each_safe list_del_init head \<sigma> = Some \<sigma>' \<and> dlist \<sigma>' head [] \<and> (\<forall>x \<in> set xs. dlist \<sigma>' x []))"
  using safe_loop_drain [OF assms(1), of "{}"] assms(1) fwd_loop_fold [of body \<sigma> "prev_of \<sigma>" head xs head, OF assms(2)]
    bwd_loop_fold [of body "next_of \<sigma>" \<sigma> head xs head, OF assms(3)]
    entry_fwd_loop_nodes [of body \<sigma> "prev_of \<sigma>" head xs head off, OF assms(2)]
  by (simp add: list_for_each_def list_for_each_prev_def list_for_each_entry_def list_first_entry_def
      list_entry_def container_of_def dlist_def ring.simps list_for_each_safe_def Let_def)

text \<open>Extending the sample heap with a log of the visited nodes shows the order of the visits.\<close>

record logged_heap = list_heap +
  visited :: "addr list"

theorem list_for_each_visits_witness:
  "map_option visited (list_for_each (\<lambda>p \<tau>. \<tau>\<lparr>visited := visited \<tau> @ [p]\<rparr>) 100
     (list_heap.extend sample_heap (logged_heap.fields []))) = Some [8, 16, 24]"
proof -
  let ?\<sigma> = "list_heap.extend sample_heap (logged_heap.fields [])"
  have "dlist ?\<sigma> 100 [8, 16, 24]"
    by (simp add: dlist_def ring.simps sample_heap_def list_heap.extend_def logged_heap.fields_def)
  then have "list_for_each (\<lambda>p \<tau>. \<tau>\<lparr>visited := visited \<tau> @ [p]\<rparr>) 100 ?\<sigma> =
      Some (fold (\<lambda>p \<tau>. \<tau>\<lparr>visited := visited \<tau> @ [p]\<rparr>) [8, 16, 24] ?\<sigma>)"
    by (intro list_for_each_visits [THEN conjunct1]) simp_all
  then show ?thesis
    by (simp add: list_heap.extend_def logged_heap.fields_def)
qed

end
