(* ===== verification/Sched.thy ===== *)
theory Sched
  imports LinkedList
begin

text \<open>
  The scheduler of \<open>kernel/sched.c\<close> and \<open>include/sched.h\<close>: the task structures, the list of
  tasks ready to run, the stack switch written in assembly and the operations that create,
  switch and end tasks.

  The state extends the heap of list heads with the task structures (by the address of the
  structure, which is also the address of its first member \<open>next\<close>), the pointer \<open>current\<close>, the
  registers and the 32-bit cells of the stacks.  Link-time addresses are the record \<open>image\<close>.
  A failing \<open>BUG_ON\<close> prints and calls \<open>panic\<close>, which never returns: it is the value
  \<open>Inl (BUG condition line)\<close>.
\<close>

section \<open>Data\<close>

record cpu_regs =
  eax :: u32
  ecx :: u32
  edx :: u32
  ebx :: u32
  ebp :: u32
  esi :: u32
  edi :: u32
  esp :: addr
  eip :: addr

definition TASK_RUNNING :: u32 where "TASK_RUNNING = 0"
definition TASK_SLEEPING :: u32 where "TASK_SLEEPING = 1"
definition TASK_ZOMBIE :: u32 where "TASK_ZOMBIE = 2"

record task_struct =
  sp :: addr
  entry :: addr
  state :: u32
  ret :: u32

text \<open>The members before \<open>sp\<close> are \<open>next\<close> at offset 0 (8 bytes) and the array \<open>stack\<close> at offset 8.\<close>

definition NEXT_OFFSET :: u32 where "NEXT_OFFSET = 0"
definition STACK_OFFSET :: u32 where "STACK_OFFSET = 8"
definition PAGE_SIZE :: u32 where "PAGE_SIZE = 4096"
definition STACK_SIZE :: u32 where "STACK_SIZE = PAGE_SIZE"

record image =
  task_list :: addr
  init_task :: addr
  exit_point_addr :: addr
  schedule_ret :: addr

record kstate = list_heap +
  task :: "addr \<Rightarrow> task_struct"
  current :: addr
  cpu :: cpu_regs
  cells :: "addr \<Rightarrow> u32"

datatype panic = BUG (bug_cond: string) (bug_line: nat)

definition upd_task :: "addr \<Rightarrow> (task_struct \<Rightarrow> task_struct) \<Rightarrow> kstate \<Rightarrow> kstate" where
  "upd_task t f \<sigma> = \<sigma>\<lparr>task := (task \<sigma>)(t := f (task \<sigma> t))\<rparr>"

definition set_state :: "addr \<Rightarrow> u32 \<Rightarrow> kstate \<Rightarrow> kstate" where
  "set_state t v = upd_task t (\<lambda>r. r\<lparr>state := v\<rparr>)"

section \<open>Stack switch\<close>

definition pushl :: "(cpu_regs \<Rightarrow> u32) \<Rightarrow> kstate \<Rightarrow> kstate" where
  "pushl r \<sigma> =
     \<sigma>\<lparr>cpu := (cpu \<sigma>)\<lparr>esp := esp (cpu \<sigma>) - 4\<rparr>,
       cells := (cells \<sigma>)(esp (cpu \<sigma>) - 4 := r (cpu \<sigma>))\<rparr>"

definition popl :: "(u32 \<Rightarrow> cpu_regs \<Rightarrow> cpu_regs) \<Rightarrow> kstate \<Rightarrow> kstate" where
  "popl w \<sigma> =
     \<sigma>\<lparr>cpu := w (cells \<sigma> (esp (cpu \<sigma>))) ((cpu \<sigma>)\<lparr>esp := esp (cpu \<sigma>) + 4\<rparr>)\<rparr>"

definition switch_save :: "addr \<Rightarrow> kstate \<Rightarrow> kstate" where
  "switch_save old_task \<sigma> =
     (let \<sigma> = pushl eax \<sigma>;
          \<sigma> = pushl ecx \<sigma>;
          \<sigma> = pushl edx \<sigma>;
          \<sigma> = pushl ebx \<sigma>;
          \<sigma> = pushl ebp \<sigma>;
          \<sigma> = pushl esi \<sigma>;
          \<sigma> = pushl edi \<sigma> in
      upd_task old_task (\<lambda>r. r\<lparr>sp := esp (cpu \<sigma>)\<rparr>) \<sigma>)"

definition switch_restore :: "addr \<Rightarrow> kstate \<Rightarrow> kstate" where
  "switch_restore new_stack \<sigma> =
     (let \<sigma> = \<sigma>\<lparr>cpu := (cpu \<sigma>)\<lparr>esp := new_stack\<rparr>\<rparr>;
          \<sigma> = popl (\<lambda>v c. c\<lparr>edi := v\<rparr>) \<sigma>;
          \<sigma> = popl (\<lambda>v c. c\<lparr>esi := v\<rparr>) \<sigma>;
          \<sigma> = popl (\<lambda>v c. c\<lparr>ebp := v\<rparr>) \<sigma>;
          \<sigma> = popl (\<lambda>v c. c\<lparr>ebx := v\<rparr>) \<sigma>;
          \<sigma> = popl (\<lambda>v c. c\<lparr>edx := v\<rparr>) \<sigma>;
          \<sigma> = popl (\<lambda>v c. c\<lparr>ecx := v\<rparr>) \<sigma>;
          \<sigma> = popl (\<lambda>v c. c\<lparr>eax := v\<rparr>) \<sigma> in
      popl (\<lambda>v c. c\<lparr>eip := v\<rparr>) \<sigma>)"

definition switch_to :: "addr \<Rightarrow> addr \<Rightarrow> kstate \<Rightarrow> kstate" where
  "switch_to new_stack old_task \<sigma> =
     (let \<sigma> = switch_save old_task \<sigma> in
      switch_restore new_stack \<sigma>)"

section \<open>Scheduler operations\<close>

definition schedule :: "image \<Rightarrow> kstate \<Rightarrow> panic + kstate" where
  "schedule L \<sigma> =
     (let prev = current \<sigma>;
          nxt = list_first_entry_or_null (task_list L) NEXT_OFFSET \<sigma> in
      if nxt = NULL then Inr \<sigma>
      else if nxt = prev then Inl (BUG ''next == prev'' 55)
      else
        let r =
          (if state (task \<sigma> prev) = TASK_RUNNING then
             (let \<sigma> = set_state (current \<sigma>) TASK_SLEEPING \<sigma> in
              Inr (list_add_tail (current \<sigma> + NEXT_OFFSET) (task_list L) \<sigma>))
           else if state (task \<sigma> prev) = TASK_ZOMBIE then Inr \<sigma>
           else if state (task \<sigma> prev) = TASK_SLEEPING then Inl (BUG ''true'' 66)
           else Inl (BUG ''true'' 70)) in
        case r of Inl e \<Rightarrow> Inl e | Inr \<sigma> \<Rightarrow>
        (let r =
           (if state (task \<sigma> nxt) = TASK_RUNNING then Inl (BUG ''true'' 77)
            else if state (task \<sigma> nxt) = TASK_SLEEPING then
              (let \<sigma> = set_state nxt TASK_RUNNING \<sigma>;
                   \<sigma> = list_del_init (nxt + NEXT_OFFSET) \<sigma> in
               Inr (\<sigma>\<lparr>current := nxt\<rparr>))
            else if state (task \<sigma> nxt) = TASK_ZOMBIE then Inl (BUG ''true'' 85)
            else Inl (BUG ''true'' 89)) in
         case r of Inl e \<Rightarrow> Inl e | Inr \<sigma> \<Rightarrow>
           Inr (switch_to (sp (task \<sigma> nxt)) prev (pushl (\<lambda>_. schedule_ret L) \<sigma>))))"

definition exit_point :: "image \<Rightarrow> kstate \<Rightarrow> panic + kstate" where
  "exit_point L \<sigma> =
     (let r = eax (cpu \<sigma>);
          \<sigma> = upd_task (current \<sigma>) (\<lambda>t. t\<lparr>ret := r\<rparr>) \<sigma>;
          \<sigma> = set_state (current \<sigma>) TASK_ZOMBIE \<sigma> in
      schedule L \<sigma>)"

definition stack_store :: "addr \<Rightarrow> u32 \<Rightarrow> kstate \<Rightarrow> kstate" where
  "stack_store t v \<sigma> =
     (let a = sp (task \<sigma> t) - 4;
          \<sigma> = upd_task t (\<lambda>r. r\<lparr>sp := a\<rparr>) \<sigma> in
      \<sigma>\<lparr>cells := (cells \<sigma>)(a := v)\<rparr>)"

definition stack_init :: "image \<Rightarrow> addr \<Rightarrow> kstate \<Rightarrow> kstate" where
  "stack_init L t \<sigma> =
     (let \<sigma> = stack_store t (exit_point_addr L) \<sigma>;
          \<sigma> = stack_store t (entry (task \<sigma> t)) \<sigma>;
          \<sigma> = stack_store t 0 \<sigma>;
          \<sigma> = stack_store t 0 \<sigma>;
          \<sigma> = stack_store t 0 \<sigma>;
          \<sigma> = stack_store t 0 \<sigma>;
          \<sigma> = stack_store t 0 \<sigma>;
          \<sigma> = stack_store t 0 \<sigma> in
      stack_store t 0 \<sigma>)"

definition task_init :: "image \<Rightarrow> addr \<Rightarrow> addr \<Rightarrow> addr \<Rightarrow> u32 \<Rightarrow> kstate \<Rightarrow> kstate" where
  "task_init L t ent stack sz \<sigma> =
     (let \<sigma> = upd_task t (\<lambda>r. r\<lparr>entry := ent\<rparr>) \<sigma>;
          \<sigma> = upd_task t (\<lambda>r. r\<lparr>sp := stack + 4 * (sz div 4)\<rparr>) \<sigma>;
          \<sigma> = stack_init L t \<sigma>;
          \<sigma> = set_state t TASK_SLEEPING \<sigma> in
      list_add (t + NEXT_OFFSET) (task_list L) \<sigma>)"

definition task_run :: "image \<Rightarrow> addr \<Rightarrow> kstate \<Rightarrow> panic + kstate" where
  "task_run L t \<sigma> =
     (let \<sigma> = task_init L t (entry (task \<sigma> t)) (t + STACK_OFFSET) STACK_SIZE \<sigma> in
      schedule L \<sigma>)"

section \<open>Contexts\<close>

text \<open>
  The eight cells below a stack pointer hold, from the lowest address, the registers in the
  order in which \<open>switch_to\<close> pops them and the address at which it resumes.
\<close>

definition read_frame :: "(addr \<Rightarrow> u32) \<Rightarrow> addr \<Rightarrow> cpu_regs" where
  "read_frame m a =
     \<lparr>eax = m (a + 24), ecx = m (a + 20), edx = m (a + 16), ebx = m (a + 12), ebp = m (a + 8),
      esi = m (a + 4), edi = m a, esp = a + 32, eip = m (a + 28)\<rparr>"

definition frame_cells :: "addr \<Rightarrow> addr set" where
  "frame_cells a = {a, a + 4, a + 8, a + 12, a + 16, a + 20, a + 24, a + 28}"

definition saved_context :: "kstate \<Rightarrow> addr \<Rightarrow> cpu_regs" where
  "saved_context \<sigma> t = read_frame (cells \<sigma>) (sp (task \<sigma> t))"

definition return_context :: "image \<Rightarrow> kstate \<Rightarrow> cpu_regs" where
  "return_context L \<sigma> = (cpu \<sigma>)\<lparr>eip := schedule_ret L\<rparr>"

lemma read_frame_cong:
  "(\<And>x. x \<in> frame_cells a \<Longrightarrow> m x = m' x) \<Longrightarrow> read_frame m a = read_frame m' a"
  by (simp add: read_frame_def frame_cells_def)

lemma upd_task_fields [sched_simps]:
  "task (upd_task t f \<sigma>) = (task \<sigma>)(t := f (task \<sigma> t))"
  "cpu (upd_task t f \<sigma>) = cpu \<sigma>" "cells (upd_task t f \<sigma>) = cells \<sigma>"
  "current (upd_task t f \<sigma>) = current \<sigma>"
  "next_of (upd_task t f \<sigma>) = next_of \<sigma>" "prev_of (upd_task t f \<sigma>) = prev_of \<sigma>"
  by (simp_all add: upd_task_def)

lemma switch_save_eq:
  assumes b: "esp (cpu \<sigma>) = b + 32"
  shows "switch_save t (pushl (\<lambda>_. r) \<sigma>) =
    upd_task t (\<lambda>r. r\<lparr>sp := b\<rparr>)
     (\<sigma>\<lparr>cpu := (cpu \<sigma>)\<lparr>esp := b\<rparr>,
        cells := (cells \<sigma>)(b + 28 := r, b + 24 := eax (cpu \<sigma>), b + 20 := ecx (cpu \<sigma>),
          b + 16 := edx (cpu \<sigma>), b + 12 := ebx (cpu \<sigma>), b + 8 := ebp (cpu \<sigma>),
          b + 4 := esi (cpu \<sigma>), b := edi (cpu \<sigma>))\<rparr>)"
proof -
  have "pushl (\<lambda>_. r) \<sigma> = \<sigma>\<lparr>cpu := (cpu \<sigma>)\<lparr>esp := b + 28\<rparr>, cells := (cells \<sigma>)(b + 28 := r)\<rparr>"
    by (simp add: pushl_def b add.commute)
  then show ?thesis
    by (simp add: switch_save_def Let_def pushl_def add.commute)
qed

lemma switch_restore_fields:
  "cpu (switch_restore new \<sigma>) = read_frame (cells \<sigma>) new"
  "cells (switch_restore new \<sigma>) = cells \<sigma>" "task (switch_restore new \<sigma>) = task \<sigma>"
  "current (switch_restore new \<sigma>) = current \<sigma>"
  "next_of (switch_restore new \<sigma>) = next_of \<sigma>" "prev_of (switch_restore new \<sigma>) = prev_of \<sigma>"
  by (rule cpu_regs.equality; simp add: switch_restore_def popl_def read_frame_def add.commute)
    (simp_all add: switch_restore_def popl_def)

lemma switch_to_effect:
  fixes \<sigma> :: kstate
  assumes s': "\<sigma>' = switch_to new t (pushl (\<lambda>_. r) \<sigma>)" and b: "esp (cpu \<sigma>) = b + 32"
  shows "read_frame (cells \<sigma>') b = (cpu \<sigma>)\<lparr>eip := r\<rparr>"
    and "\<And>a. a \<notin> frame_cells b \<Longrightarrow> cells \<sigma>' a = cells \<sigma> a"
    and "cpu \<sigma>' = read_frame (cells \<sigma>') new"
    and "task \<sigma>' = (task \<sigma>)(t := (task \<sigma> t)\<lparr>sp := b\<rparr>)"
    and "next_of \<sigma>' = next_of \<sigma>" and "prev_of \<sigma>' = prev_of \<sigma>" and "current \<sigma>' = current \<sigma>"
  unfolding s' 
  by (simp_all add: switch_to_def switch_save_eq [OF b] switch_restore_fields sched_simps read_frame_def frame_cells_def b)


section \<open>The invariant of the ready list\<close>

definition sched_inv :: "image \<Rightarrow> kstate \<Rightarrow> addr list \<Rightarrow> bool" where
  "sched_inv L \<sigma> xs \<longleftrightarrow>
     node_list (task_list L) \<sigma> xs \<and> task_node (task_list L) (current \<sigma>) \<and> current \<sigma> \<notin> set xs \<and>
     state (task \<sigma> (current \<sigma>)) = TASK_RUNNING \<and> (\<forall>x \<in> set xs. state (task \<sigma> x) = TASK_SLEEPING)"

lemma kstate_more:
  fixes \<sigma> \<sigma>' :: kstate
  assumes "list_heap.more \<sigma>' = list_heap.more \<sigma>"
  shows "task \<sigma>' = task \<sigma>" "current \<sigma>' = current \<sigma>" "cpu \<sigma>' = cpu \<sigma>" "cells \<sigma>' = cells \<sigma>"
  using assms by (cases \<sigma>; cases \<sigma>'; simp)+

lemmas list_op_fields [sched_simps] =
  kstate_more [OF more_list_ops(4)] kstate_more [OF more_list_ops(5)] kstate_more [OF more_list_ops(6)]

lemma task_states_distinct [simp]:
  "TASK_RUNNING \<noteq> TASK_SLEEPING" "TASK_SLEEPING \<noteq> TASK_RUNNING" "TASK_RUNNING \<noteq> TASK_ZOMBIE"
  "TASK_ZOMBIE \<noteq> TASK_RUNNING" "TASK_SLEEPING \<noteq> TASK_ZOMBIE" "TASK_ZOMBIE \<noteq> TASK_SLEEPING"
  by (simp_all add: TASK_RUNNING_def TASK_SLEEPING_def TASK_ZOMBIE_def)

lemma node_list_cong:
  fixes \<sigma> \<sigma>' :: "'a list_heap_scheme"
  assumes "next_of \<sigma>' = next_of \<sigma>" "prev_of \<sigma>' = prev_of \<sigma>"
  shows "node_list h \<sigma>' xs \<longleftrightarrow> node_list h \<sigma> xs"
  using assms ring_frame [of "h # xs" \<sigma> \<sigma>'] by (simp add: node_list_def dlist_def same_links_def)

lemma set_state_fields [sched_simps]:
  "task (set_state t v \<sigma>) = (task \<sigma>)(t := (task \<sigma> t)\<lparr>state := v\<rparr>)"
  "cpu (set_state t v \<sigma>) = cpu \<sigma>" "cells (set_state t v \<sigma>) = cells \<sigma>"
  "current (set_state t v \<sigma>) = current \<sigma>"
  "next_of (set_state t v \<sigma>) = next_of \<sigma>" "prev_of (set_state t v \<sigma>) = prev_of \<sigma>"
  by (simp_all add: set_state_def sched_simps)

text \<open>The list operations depend on the links only, so a change of the other fields commutes.\<close>

lemma node_list_other_fields [simp]:
  "node_list h (set_state t v \<sigma>) xs \<longleftrightarrow> node_list h \<sigma> xs"
  "node_list h (upd_task t f \<sigma>) xs \<longleftrightarrow> node_list h \<sigma> xs"
  "node_list h (\<sigma>\<lparr>current := c\<rparr>) xs \<longleftrightarrow> node_list h \<sigma> xs"
  "node_list h (\<sigma>\<lparr>cpu := r\<rparr>) xs \<longleftrightarrow> node_list h \<sigma> xs"
  "node_list h (\<sigma>\<lparr>cells := m\<rparr>) xs \<longleftrightarrow> node_list h \<sigma> xs"
  by (rule node_list_cong; simp add: sched_simps)+

text \<open>The state just before the stack switch from \<open>current\<close> to the first task of the list.\<close>

definition requeued :: "image \<Rightarrow> addr \<Rightarrow> kstate \<Rightarrow> kstate" where
  "requeued L n \<sigma> =
     (list_del_init n (set_state n TASK_RUNNING
       (list_add_tail (current \<sigma>) (task_list L) (set_state (current \<sigma>) TASK_SLEEPING \<sigma>))))\<lparr>current := n\<rparr>"

definition dropped :: "addr \<Rightarrow> kstate \<Rightarrow> kstate" where
  "dropped n \<sigma> = (list_del_init n (set_state n TASK_RUNNING \<sigma>))\<lparr>current := n\<rparr>"

lemma schedule_no_task: "node_list (task_list L) \<sigma> [] \<Longrightarrow> schedule L \<sigma> = Inr \<sigma>"
  by (simp add: schedule_def NEXT_OFFSET_def lq.front_empty)

lemma node_list_front:
  assumes "node_list (task_list L) \<sigma> (n # ys)" "current \<sigma> \<notin> set (n # ys)"
  shows "list_first_entry_or_null (task_list L) 0 \<sigma> = n" "n \<noteq> NULL" "n \<noteq> current \<sigma>"
  using assms lq.front_first [OF assms(1)] lq.front_null_iff [OF assms(1)] by auto

lemma schedule_from_running:
  assumes "node_list (task_list L) \<sigma> (n # ys)" "current \<sigma> \<notin> set (n # ys)"
    and "state (task \<sigma> (current \<sigma>)) = TASK_RUNNING" "state (task \<sigma> n) = TASK_SLEEPING"
  shows "schedule L \<sigma> =
    Inr (switch_to (sp (task \<sigma> n)) (current \<sigma>) (pushl (\<lambda>_. schedule_ret L) (requeued L n \<sigma>)))"
  using node_list_front [OF assms(1,2)] assms(3,4)
  by (simp add: schedule_def NEXT_OFFSET_def requeued_def sched_simps Let_def)

lemma schedule_from_zombie:
  assumes "node_list (task_list L) \<sigma> (n # ys)" "current \<sigma> \<notin> set (n # ys)"
    and "state (task \<sigma> (current \<sigma>)) = TASK_ZOMBIE" "state (task \<sigma> n) = TASK_SLEEPING"
  shows "schedule L \<sigma> =
    Inr (switch_to (sp (task \<sigma> n)) (current \<sigma>) (pushl (\<lambda>_. schedule_ret L) (dropped n \<sigma>)))"
  using node_list_front [OF assms(1,2)] assms(3,4)
  by (simp add: schedule_def NEXT_OFFSET_def dropped_def sched_simps Let_def)

lemma requeued_fields [sched_simps]:
  "n \<noteq> current \<sigma> \<Longrightarrow> task (requeued L n \<sigma>) =
     (task \<sigma>)(current \<sigma> := (task \<sigma> (current \<sigma>))\<lparr>state := TASK_SLEEPING\<rparr>,
       n := (task \<sigma> n)\<lparr>state := TASK_RUNNING\<rparr>)"
  "current (requeued L n \<sigma>) = n" "cpu (requeued L n \<sigma>) = cpu \<sigma>" "cells (requeued L n \<sigma>) = cells \<sigma>"
  by (simp_all add: requeued_def sched_simps)

lemma dropped_fields [sched_simps]:
  "task (dropped n \<sigma>) = (task \<sigma>)(n := (task \<sigma> n)\<lparr>state := TASK_RUNNING\<rparr>)"
  "current (dropped n \<sigma>) = n" "cpu (dropped n \<sigma>) = cpu \<sigma>" "cells (dropped n \<sigma>) = cells \<sigma>"
  by (simp_all add: dropped_def sched_simps)

lemma requeued_list:
  assumes "sched_inv L \<sigma> (n # ys)"
  shows "node_list (task_list L) (requeued L n \<sigma>) (ys @ [current \<sigma>])"
proof -
  let ?\<sigma> = "set_state (current \<sigma>) TASK_SLEEPING \<sigma>"
  let ?add = "list_add_tail (current \<sigma>) (task_list L)"
  have "node_list (task_list L) (?add ?\<sigma>) (n # ys @ [current \<sigma>])"
    using assms lq.push_back [of "task_list L" ?\<sigma> "n # ys" "current \<sigma>"] by (simp add: sched_inv_def)
  then have "node_list (task_list L) (set_state n TASK_RUNNING (?add ?\<sigma>)) (n # ys @ [current \<sigma>])"
    by simp
  from lq.pop [OF this] show ?thesis
    by (simp add: requeued_def)
qed

lemma dropped_list:
  assumes "node_list (task_list L) \<sigma> (n # ys)"
  shows "node_list (task_list L) (dropped n \<sigma>) ys"
  using lq.pop [of "task_list L" "set_state n TASK_RUNNING \<sigma>" n ys] assms by (simp add: dropped_def)


lemma schedule_yield:
  assumes inv: "sched_inv L \<sigma> (n # ys)"
  shows "\<exists>\<sigma>'. schedule L \<sigma> = Inr \<sigma>' \<and> sched_inv L \<sigma>' (ys @ [current \<sigma>]) \<and> current \<sigma>' = n \<and>
    sp (task \<sigma>' (current \<sigma>)) = esp (cpu \<sigma>) - 32 \<and>
    (\<forall>x. x \<noteq> current \<sigma> \<longrightarrow> sp (task \<sigma>' x) = sp (task \<sigma> x)) \<and>
    read_frame (cells \<sigma>') (esp (cpu \<sigma>) - 32) = return_context L \<sigma> \<and>
    cpu \<sigma>' = read_frame (cells \<sigma>') (sp (task \<sigma> n)) \<and>
    (\<forall>a. a \<notin> frame_cells (esp (cpu \<sigma>) - 32) \<longrightarrow> cells \<sigma>' a = cells \<sigma> a)"
proof -
  define b where "b = esp (cpu \<sigma>) - 32"
  define \<sigma>' where "\<sigma>' = switch_to (sp (task \<sigma> n)) (current \<sigma>) (pushl (\<lambda>_. schedule_ret L) (requeued L n \<sigma>))"
  have n: "n \<noteq> current \<sigma>" "current \<sigma> \<notin> set ys" "n \<notin> set ys"
    using inv lq.queue_distinct [of "task_list L" \<sigma> "n # ys"] by (auto simp: sched_inv_def)
  have "esp (cpu (requeued L n \<sigma>)) = b + 32"
    by (simp add: requeued_fields b_def)
  note eff = switch_to_effect [OF \<sigma>'_def this]
  have sch: "schedule L \<sigma> = Inr \<sigma>'"
    unfolding \<sigma>'_def using inv by (intro schedule_from_running) (auto simp: sched_inv_def)
  have "node_list (task_list L) \<sigma>' (ys @ [current \<sigma>])"
    using requeued_list [OF inv] node_list_cong [OF eff(5,6)] by simp
  then have "sched_inv L \<sigma>' (ys @ [current \<sigma>])"
    using inv n lq.queue_nodes [of "task_list L" \<sigma> "n # ys" n]
    by (auto simp: sched_inv_def eff(4,7) requeued_fields)
  with sch show ?thesis
    using n eff(1,2,3) by (simp add: eff(4,7) requeued_fields b_def [symmetric] return_context_def)
qed

lemma exit_switch:
  assumes inv: "sched_inv L \<sigma> (n # ys)"
  shows "\<exists>\<sigma>'. exit_point L \<sigma> = Inr \<sigma>' \<and> sched_inv L \<sigma>' ys \<and> current \<sigma>' = n \<and>
    state (task \<sigma>' (current \<sigma>)) = TASK_ZOMBIE \<and> ret (task \<sigma>' (current \<sigma>)) = eax (cpu \<sigma>) \<and>
    (\<forall>x. x \<noteq> current \<sigma> \<longrightarrow> sp (task \<sigma>' x) = sp (task \<sigma> x)) \<and>
    cpu \<sigma>' = read_frame (cells \<sigma>') (sp (task \<sigma> n)) \<and>
    (\<forall>a. a \<notin> frame_cells (esp (cpu \<sigma>) - 32) \<longrightarrow> cells \<sigma>' a = cells \<sigma> a)"
proof -
  define \<tau> where "\<tau> = set_state (current \<sigma>) TASK_ZOMBIE (upd_task (current \<sigma>) (\<lambda>t. t\<lparr>ret := eax (cpu \<sigma>)\<rparr>) \<sigma>)"
  define b where "b = esp (cpu \<sigma>) - 32"
  define \<sigma>' where "\<sigma>' = switch_to (sp (task \<tau> n)) (current \<tau>) (pushl (\<lambda>_. schedule_ret L) (dropped n \<tau>))"
  have n: "n \<noteq> current \<sigma>" "current \<sigma> \<notin> set ys" "n \<notin> set ys"
    using inv lq.queue_distinct [of "task_list L" \<sigma> "n # ys"] by (auto simp: sched_inv_def)
  have tau: "current \<tau> = current \<sigma>" "cpu \<tau> = cpu \<sigma>" "cells \<tau> = cells \<sigma>"
    "task \<tau> = (task \<sigma>)(current \<sigma> := (task \<sigma> (current \<sigma>))\<lparr>ret := eax (cpu \<sigma>), state := TASK_ZOMBIE\<rparr>)"
    "node_list (task_list L) \<tau> (n # ys)"
    using inv by (simp_all add: \<tau>_def sched_simps sched_inv_def)
  have "esp (cpu (dropped n \<tau>)) = b + 32"
    by (simp add: dropped_fields tau b_def)
  note eff = switch_to_effect [OF \<sigma>'_def this]
  have "exit_point L \<sigma> = schedule L \<tau>"
    by (simp add: exit_point_def \<tau>_def sched_simps)
  also have "\<dots> = Inr \<sigma>'"
    unfolding \<sigma>'_def using inv n tau by (intro schedule_from_zombie) (auto simp: sched_inv_def)
  finally have sch: "exit_point L \<sigma> = Inr \<sigma>'" .
  have "node_list (task_list L) \<sigma>' ys"
    using dropped_list [OF tau(5)] node_list_cong [OF eff(5,6)] by simp
  then have "sched_inv L \<sigma>' ys"
    using inv n lq.queue_nodes [of "task_list L" \<sigma> "n # ys" n]
    by (auto simp: sched_inv_def eff(4,7) dropped_fields tau)
  with sch show ?thesis
    using n eff(2,3) by (simp add: eff(4,7) dropped_fields tau b_def [symmetric])
qed


section \<open>Starting a task\<close>

definition entry_context :: "addr \<Rightarrow> addr \<Rightarrow> cpu_regs" where
  "entry_context t ent =
     \<lparr>eax = 0, ecx = 0, edx = 0, ebx = 0, ebp = 0, esi = 0, edi = 0, esp = t + 4100, eip = ent\<rparr>"

definition start_cells :: "addr \<Rightarrow> addr set" where
  "start_cells t = insert (t + 4100) (frame_cells (t + 4068))"

text \<open>One store in the form all nine stores keep the state in.\<close>

lemma stack_store_step:
  "stack_store t v (\<sigma>\<lparr>task := (task \<sigma>)(t := r\<lparr>sp := b\<rparr>), cells := m\<rparr>) =
    \<sigma>\<lparr>task := (task \<sigma>)(t := r\<lparr>sp := b - 4\<rparr>), cells := m(b - 4 := v)\<rparr>"
  by (simp add: stack_store_def upd_task_def Let_def)

lemma stack_init_fields [sched_simps]:
  "next_of (stack_init L t \<sigma>) = next_of \<sigma>" "prev_of (stack_init L t \<sigma>) = prev_of \<sigma>"
  "current (stack_init L t \<sigma>) = current \<sigma>"
  by (simp_all add: stack_init_def stack_store_def sched_simps Let_def)

lemma node_list_stack_init [simp]: "node_list h (stack_init L t \<sigma>) xs \<longleftrightarrow> node_list h \<sigma> xs"
  by (rule node_list_cong; simp add: sched_simps)

lemma stack_init_eq:
  assumes "sp (task \<sigma> t) = a + 36"
  shows "stack_init L t \<sigma> =
    \<sigma>\<lparr>task := (task \<sigma>)(t := (task \<sigma> t)\<lparr>sp := a\<rparr>),
      cells := (cells \<sigma>)(a + 32 := exit_point_addr L, a + 28 := entry (task \<sigma> t), a + 24 := 0,
       a + 20 := 0, a + 16 := 0, a + 12 := 0, a + 8 := 0, a + 4 := 0, a := 0)\<rparr>"
proof -
  have "(task \<sigma> t)\<lparr>sp := a + 36\<rparr> = task \<sigma> t"
    using assms by (cases "task \<sigma> t") simp
  then have "\<sigma> = \<sigma>\<lparr>task := (task \<sigma>)(t := (task \<sigma> t)\<lparr>sp := a + 36\<rparr>), cells := cells \<sigma>\<rparr>" (is "\<sigma> = ?\<tau>")
    by simp
  moreover have "stack_init L t ?\<tau> = 
    \<sigma>\<lparr>task := (task \<sigma>)(t := (task \<sigma> t)\<lparr>sp := a\<rparr>),
      cells := (cells \<sigma>)(a + 32 := exit_point_addr L, a + 28 := entry (task \<sigma> t), a + 24 := 0,
       a + 20 := 0, a + 16 := 0, a + 12 := 0, a + 8 := 0, a + 4 := 0, a := 0)\<rparr>"
    by (simp only: stack_init_def stack_store_step Let_def) (simp add: add.commute)
  ultimately show ?thesis by metis
qed


lemma stack_words: "(4096 :: u32) div 4 = 1024"
  by code_simp

lemma start_offsets:
  fixes t :: addr
  shows "t + 4068 + 4 = t + 4072" "t + 4068 + 8 = t + 4076" "t + 4068 + 12 = t + 4080"
    "t + 4068 + 16 = t + 4084" "t + 4068 + 20 = t + 4088" "t + 4068 + 24 = t + 4092"
    "t + 4068 + 28 = t + 4096" "t + 4068 + 32 = t + 4100"
  by simp_all

lemma task_init_effect:
  fixes \<sigma> :: kstate
  assumes inv: "sched_inv L \<sigma> xs" and t: "task_node (task_list L) t" "t \<noteq> current \<sigma>" "t \<notin> set xs"
    and \<tau>: "\<tau> = task_init L t (entry (task \<sigma> t)) (t + STACK_OFFSET) STACK_SIZE \<sigma>"
  shows "sched_inv L \<tau> (t # xs)" "current \<tau> = current \<sigma>" "cpu \<tau> = cpu \<sigma>"
    "sp (task \<tau> t) = t + 4068" "\<And>x. x \<noteq> t \<Longrightarrow> task \<tau> x = task \<sigma> x"
    "read_frame (cells \<tau>) (t + 4068) = entry_context t (entry (task \<sigma> t))"
    "cells \<tau> (t + 4100) = exit_point_addr L"
    "\<And>a. a \<notin> start_cells t \<Longrightarrow> cells \<tau> a = cells \<sigma> a"
proof -
  define \<sigma>1 where "\<sigma>1 = upd_task t (\<lambda>r. r\<lparr>sp := t + 4104\<rparr>) (upd_task t (\<lambda>r. r\<lparr>entry := entry (task \<sigma> t)\<rparr>) \<sigma>)"
  define \<sigma>2 where "\<sigma>2 = set_state t TASK_SLEEPING (stack_init L t \<sigma>1)"
  have "sp (task \<sigma>1 t) = (t + 4068) + 36"
    by (simp add: \<sigma>1_def sched_simps)
  note si = stack_init_eq [OF this, of L]
  have tau: "\<tau> = list_add t (task_list L) \<sigma>2"
    unfolding \<tau> task_init_def \<sigma>1_def \<sigma>2_def NEXT_OFFSET_def STACK_OFFSET_def STACK_SIZE_def
      PAGE_SIZE_def stack_words Let_def
    by (simp add: add.commute)
  have "node_list (task_list L) \<sigma>2 xs"
    using inv node_list_cong [of \<sigma>2 \<sigma>] unfolding \<sigma>2_def si
    by (simp add: \<sigma>1_def sched_simps sched_inv_def)
  then have nl: "node_list (task_list L) \<tau> (t # xs)"
    unfolding tau using t by (intro lq.push_front)
  have f: "current \<tau> = current \<sigma>" "cpu \<tau> = cpu \<sigma>"
    "task \<tau> = (task \<sigma>)(t := (task \<sigma> t)\<lparr>sp := t + 4068, state := TASK_SLEEPING\<rparr>)"
    "cells \<tau> = (cells \<sigma>)(t + 4100 := exit_point_addr L, t + 4096 := entry (task \<sigma> t), t + 4092 := 0,
       t + 4088 := 0, t + 4084 := 0, t + 4080 := 0, t + 4076 := 0, t + 4072 := 0, t + 4068 := 0)"
    unfolding tau \<sigma>2_def si by (simp_all add: \<sigma>1_def sched_simps add.commute)
  show "sched_inv L \<tau> (t # xs)"
    using nl inv t by (auto simp: sched_inv_def f)
  show "current \<tau> = current \<sigma>" "cpu \<tau> = cpu \<sigma>" "sp (task \<tau> t) = t + 4068"
    "\<And>x. x \<noteq> t \<Longrightarrow> task \<tau> x = task \<sigma> x"
    by (simp_all add: f)
  show "read_frame (cells \<tau>) (t + 4068) = entry_context t (entry (task \<sigma> t))"
    "cells \<tau> (t + 4100) = exit_point_addr L"
    "\<And>a. a \<notin> start_cells t \<Longrightarrow> cells \<tau> a = cells \<sigma> a"
    unfolding f read_frame_def entry_context_def start_cells_def frame_cells_def start_offsets
    by simp_all
qed

section \<open>The system as a state machine\<close>

text \<open>
  \<open>R t\<close> is the set of stack cells that belong to task \<open>t\<close>.  The invariant says, beside the
  ready list and the task states, that the frame of every task on the list lies in its own
  cells and that the running task has room for one more frame.
\<close>

type_synonym stacks = "addr \<Rightarrow> addr set"

definition separate :: "stacks \<Rightarrow> bool" where
  "separate R \<longleftrightarrow> (\<forall>s t. s \<noteq> t \<longrightarrow> R s \<inter> R t = {})"

definition kinv :: "image \<Rightarrow> stacks \<Rightarrow> kstate \<Rightarrow> addr list \<Rightarrow> bool" where
  "kinv L R \<sigma> xs \<longleftrightarrow>
     sched_inv L \<sigma> xs \<and> init_task L \<in> set (current \<sigma> # xs) \<and>
     (\<forall>x \<in> set xs. frame_cells (sp (task \<sigma> x)) \<subseteq> R x) \<and>
     frame_cells (esp (cpu \<sigma>) - 32) \<subseteq> R (current \<sigma>)"

definition kinit :: "image \<Rightarrow> stacks \<Rightarrow> kstate \<Rightarrow> bool" where
  "kinit L R \<sigma> \<longleftrightarrow>
     next_of \<sigma> (task_list L) = task_list L \<and> prev_of \<sigma> (task_list L) = task_list L \<and>
     current \<sigma> = init_task L \<and> task_node (task_list L) (init_task L) \<and>
     state (task \<sigma> (init_task L)) = TASK_RUNNING \<and>
     frame_cells (esp (cpu \<sigma>) - 32) \<subseteq> R (init_task L)"

definition fresh_task :: "image \<Rightarrow> stacks \<Rightarrow> kstate \<Rightarrow> addr \<Rightarrow> bool" where
  "fresh_task L R \<sigma> t \<longleftrightarrow>
     task_node (task_list L) t \<and> t \<noteq> current \<sigma> \<and> start_cells t \<subseteq> R t \<and>
     (\<forall>xs. node_list (task_list L) \<sigma> xs \<longrightarrow> t \<notin> set xs)"

inductive kstep :: "image \<Rightarrow> stacks \<Rightarrow> kstate \<Rightarrow> kstate \<Rightarrow> bool" for L R where
  compute: "(\<And>a. a \<notin> R (current \<sigma>) \<Longrightarrow> m a = cells \<sigma> a) \<Longrightarrow>
     frame_cells (esp c - 32) \<subseteq> R (current \<sigma>) \<Longrightarrow> kstep L R \<sigma> (\<sigma>\<lparr>cpu := c, cells := m\<rparr>)"
| yield: "schedule L \<sigma> = Inr \<sigma>' \<Longrightarrow> kstep L R \<sigma> \<sigma>'"
| spawn: "fresh_task L R \<sigma> t \<Longrightarrow> task_run L t \<sigma> = Inr \<sigma>' \<Longrightarrow> kstep L R \<sigma> \<sigma>'"
| finish: "current \<sigma> \<noteq> init_task L \<Longrightarrow> exit_point L \<sigma> = Inr \<sigma>' \<Longrightarrow> kstep L R \<sigma> \<sigma>'"

inductive reachable :: "image \<Rightarrow> stacks \<Rightarrow> kstate \<Rightarrow> bool" for L R where
  boot: "kinit L R \<sigma> \<Longrightarrow> reachable L R \<sigma>"
| step: "reachable L R \<sigma> \<Longrightarrow> kstep L R \<sigma> \<sigma>' \<Longrightarrow> reachable L R \<sigma>'"

lemma node_list_unique: "node_list h \<sigma> xs \<Longrightarrow> node_list h \<sigma> ys \<Longrightarrow> xs = ys"
  by (auto simp: node_list_def intro: dlist_unique)


lemma kinit_kinv: "kinit L R \<sigma> \<Longrightarrow> kinv L R \<sigma> []"
  by (simp add: kinit_def kinv_def sched_inv_def node_list_def dlist_Nil)

lemma frame_unchanged:
  assumes "separate R" "frame_cells a \<subseteq> R x" "x \<noteq> y" "\<And>c. c \<notin> R y \<Longrightarrow> m' c = m c"
  shows "read_frame m' a = read_frame m a"
proof (rule read_frame_cong)
  fix c assume "c \<in> frame_cells a"
  with assms(1-3) have "c \<notin> R y"
    unfolding separate_def by blast
  then show "m' c = m c"
    by (rule assms(4))
qed

text \<open>One call of \<open>schedule\<close> from a state with a ready task: what it does to every context.\<close>

lemma yield_contexts:
  assumes R: "separate R" and inv: "kinv L R \<sigma> (n # ys)"
  shows "\<exists>\<sigma>'. schedule L \<sigma> = Inr \<sigma>' \<and> kinv L R \<sigma>' (ys @ [current \<sigma>]) \<and> current \<sigma>' = n \<and>
    cpu \<sigma>' = saved_context \<sigma> n \<and> saved_context \<sigma>' (current \<sigma>) = return_context L \<sigma> \<and>
    (\<forall>x \<in> set ys. saved_context \<sigma>' x = saved_context \<sigma> x) \<and>
    (\<forall>a. a \<notin> R (current \<sigma>) \<longrightarrow> cells \<sigma>' a = cells \<sigma> a)"
proof -
  from inv have si: "sched_inv L \<sigma> (n # ys)"
    by (simp add: kinv_def)
  then have n: "n \<noteq> current \<sigma>" "current \<sigma> \<notin> set ys"
    by (auto simp: sched_inv_def)
  obtain \<sigma>' where \<sigma>': "schedule L \<sigma> = Inr \<sigma>'" "sched_inv L \<sigma>' (ys @ [current \<sigma>])" "current \<sigma>' = n"
    and sp: "sp (task \<sigma>' (current \<sigma>)) = esp (cpu \<sigma>) - 32" "\<And>x. x \<noteq> current \<sigma> \<Longrightarrow> sp (task \<sigma>' x) = sp (task \<sigma> x)"
    and ctx: "read_frame (cells \<sigma>') (esp (cpu \<sigma>) - 32) = return_context L \<sigma>"
    and cpu: "cpu \<sigma>' = read_frame (cells \<sigma>') (sp (task \<sigma> n))"
    and cells: "\<And>a. a \<notin> frame_cells (esp (cpu \<sigma>) - 32) \<Longrightarrow> cells \<sigma>' a = cells \<sigma> a"
    using schedule_yield [OF si] by blast
  have out: "cells \<sigma>' a = cells \<sigma> a" if "a \<notin> R (current \<sigma>)" for a
  proof -
    have "a \<notin> frame_cells (esp (cpu \<sigma>) - 32)"
      using that inv unfolding kinv_def by blast
    then show ?thesis
      by (rule cells)
  qed
  have keep: "read_frame (cells \<sigma>') (sp (task \<sigma> x)) = saved_context \<sigma> x" if "x \<in> set (n # ys)" for x
    unfolding saved_context_def using R inv that n out
    by (intro frame_unchanged [of R _ x "current \<sigma>"]) (auto simp: kinv_def)
  have ysp: "\<forall>x \<in> set ys. sp (task \<sigma>' x) = sp (task \<sigma> x)"
    using sp n by metis
  have "esp (cpu \<sigma>') - 32 = sp (task \<sigma> n)"
    by (simp add: cpu read_frame_def)
  then have "kinv L R \<sigma>' (ys @ [current \<sigma>])"
    using inv \<sigma>'(2,3) sp(1) ysp by (auto simp: kinv_def)
  moreover have "\<forall>x \<in> set ys. saved_context \<sigma>' x = saved_context \<sigma> x"
    using keep ysp by (simp add: saved_context_def)
  ultimately show ?thesis
    using \<sigma>' cpu keep [of n] ctx sp out by (auto simp: saved_context_def)
qed

lemma finish_contexts:
  assumes R: "separate R" and inv: "kinv L R \<sigma> (n # ys)" and ni: "current \<sigma> \<noteq> init_task L"
  shows "\<exists>\<sigma>'. exit_point L \<sigma> = Inr \<sigma>' \<and> kinv L R \<sigma>' ys \<and> current \<sigma>' = n \<and>
    cpu \<sigma>' = saved_context \<sigma> n \<and> state (task \<sigma>' (current \<sigma>)) = TASK_ZOMBIE \<and>
    ret (task \<sigma>' (current \<sigma>)) = eax (cpu \<sigma>) \<and>
    (\<forall>x \<in> set ys. saved_context \<sigma>' x = saved_context \<sigma> x)"
proof -
  from inv have si: "sched_inv L \<sigma> (n # ys)"
    by (simp add: kinv_def)
  then have n: "n \<noteq> current \<sigma>" "current \<sigma> \<notin> set ys"
    by (auto simp: sched_inv_def)
  obtain \<sigma>' where \<sigma>': "exit_point L \<sigma> = Inr \<sigma>'" "sched_inv L \<sigma>' ys" "current \<sigma>' = n"
      "state (task \<sigma>' (current \<sigma>)) = TASK_ZOMBIE" "ret (task \<sigma>' (current \<sigma>)) = eax (cpu \<sigma>)"
    and sp: "\<And>x. x \<noteq> current \<sigma> \<Longrightarrow> sp (task \<sigma>' x) = sp (task \<sigma> x)"
    and cpu: "cpu \<sigma>' = read_frame (cells \<sigma>') (sp (task \<sigma> n))"
    and cells: "\<And>a. a \<notin> frame_cells (esp (cpu \<sigma>) - 32) \<Longrightarrow> cells \<sigma>' a = cells \<sigma> a"
    using exit_switch [OF si] by blast
  have out: "cells \<sigma>' a = cells \<sigma> a" if "a \<notin> R (current \<sigma>)" for a
  proof -
    have "a \<notin> frame_cells (esp (cpu \<sigma>) - 32)"
      using that inv unfolding kinv_def by blast
    then show ?thesis
      by (rule cells)
  qed
  have keep: "read_frame (cells \<sigma>') (sp (task \<sigma> x)) = saved_context \<sigma> x" if "x \<in> set (n # ys)" for x
    unfolding saved_context_def using R inv that n out
    by (intro frame_unchanged [of R _ x "current \<sigma>"]) (auto simp: kinv_def)
  have ysp: "\<forall>x \<in> set ys. sp (task \<sigma>' x) = sp (task \<sigma> x)"
    using sp n by metis
  have "esp (cpu \<sigma>') - 32 = sp (task \<sigma> n)"
    by (simp add: cpu read_frame_def)
  then have "kinv L R \<sigma>' ys"
    using inv \<sigma>'(2,3) ysp ni by (auto simp: kinv_def)
  moreover have "\<forall>x \<in> set ys. saved_context \<sigma>' x = saved_context \<sigma> x"
    using keep ysp by (simp add: saved_context_def)
  ultimately show ?thesis
    using \<sigma>' cpu keep [of n] by auto
qed

lemma spawn_contexts:
  assumes R: "separate R" and inv: "kinv L R \<sigma> xs" and t: "fresh_task L R \<sigma> t"
  shows "\<exists>\<sigma>'. task_run L t \<sigma> = Inr \<sigma>' \<and> kinv L R \<sigma>' (xs @ [current \<sigma>]) \<and> current \<sigma>' = t \<and>
    cpu \<sigma>' = entry_context t (entry (task \<sigma> t)) \<and> cells \<sigma>' (t + 4100) = exit_point_addr L \<and>
    saved_context \<sigma>' (current \<sigma>) = return_context L \<sigma> \<and>
    (\<forall>x \<in> set xs. saved_context \<sigma>' x = saved_context \<sigma> x)"
proof -
  define \<tau> where "\<tau> = task_init L t (entry (task \<sigma> t)) (t + STACK_OFFSET) STACK_SIZE \<sigma>"
  have tx: "task_node (task_list L) t" "t \<noteq> current \<sigma>" "t \<notin> set xs" "start_cells t \<subseteq> R t"
    using t inv by (auto simp: fresh_task_def kinv_def sched_inv_def)
  have si: "sched_inv L \<sigma> xs" using inv by (simp add: kinv_def)
  note eff = task_init_effect [OF si tx(1,2,3) \<tau>_def]
  have xsp: "\<forall>x \<in> set xs. sp (task \<tau> x) = sp (task \<sigma> x)"
    using eff(5) tx(3) by metis
  have kt: "kinv L R \<tau> (t # xs)"
    using inv eff(1-4) tx xsp by (auto simp: kinv_def start_cells_def)
  have same: "saved_context \<tau> x = saved_context \<sigma> x" if "x \<in> set xs" for x
  proof -
    have "x \<noteq> t" using that tx by auto
    moreover have "frame_cells (sp (task \<sigma> x)) \<subseteq> R x" using inv that by (auto simp: kinv_def)
    ultimately show ?thesis
      unfolding saved_context_def eff(5) [OF \<open>x \<noteq> t\<close>] using R eff(8) tx(4)
      by (intro frame_unchanged [of R _ x t]) auto
  qed
  obtain \<sigma>' where \<sigma>': "schedule L \<tau> = Inr \<sigma>'" "kinv L R \<sigma>' (xs @ [current \<tau>])" "current \<sigma>' = t"
    "cpu \<sigma>' = saved_context \<tau> t" "saved_context \<sigma>' (current \<tau>) = return_context L \<tau>"
    "\<forall>x \<in> set xs. saved_context \<sigma>' x = saved_context \<tau> x"
    "\<forall>a. a \<notin> R (current \<tau>) \<longrightarrow> cells \<sigma>' a = cells \<tau> a"
    using yield_contexts [OF R kt] by blast
  have "task_run L t \<sigma> = Inr \<sigma>'"
    using \<sigma>'(1) by (simp add: task_run_def \<tau>_def)
  moreover have "t + 4100 \<notin> R (current \<sigma>)"
    using R tx by (auto simp: separate_def start_cells_def)
  ultimately show ?thesis
    using \<sigma>' eff(2,3,4,6,7) same by (auto simp: saved_context_def return_context_def)
qed

lemma compute_contexts:
  assumes R: "separate R" and inv: "kinv L R \<sigma> xs"
    and m: "\<And>a. a \<notin> R (current \<sigma>) \<Longrightarrow> m a = cells \<sigma> a" and c: "frame_cells (esp c - 32) \<subseteq> R (current \<sigma>)"
  shows "kinv L R (\<sigma>\<lparr>cpu := c, cells := m\<rparr>) xs"
    "x \<in> set xs \<Longrightarrow> saved_context (\<sigma>\<lparr>cpu := c, cells := m\<rparr>) x = saved_context \<sigma> x"
proof -
  show "kinv L R (\<sigma>\<lparr>cpu := c, cells := m\<rparr>) xs"
    using inv c by (simp add: kinv_def sched_inv_def)
  assume "x \<in> set xs"
  then show "saved_context (\<sigma>\<lparr>cpu := c, cells := m\<rparr>) x = saved_context \<sigma> x"
    using inv m R frame_unchanged [of R "sp (task \<sigma> x)" x "current \<sigma>" m "cells \<sigma>"]
    by (auto simp: saved_context_def kinv_def sched_inv_def)
qed


section \<open>Reachable states\<close>

text \<open>What one step of the system does to the ready list and to every context.\<close>

lemma kstep_effect:
  assumes R: "separate R" and inv: "kinv L R \<sigma> xs" and st: "kstep L R \<sigma> \<sigma>'"
  shows "\<exists>ys. kinv L R \<sigma>' ys \<and> (\<forall>x \<in> set xs \<inter> set ys. saved_context \<sigma>' x = saved_context \<sigma> x) \<and>
    (current \<sigma>' \<in> set xs \<longrightarrow> cpu \<sigma>' = saved_context \<sigma> (current \<sigma>')) \<and>
    (current \<sigma> \<in> set ys \<longrightarrow> saved_context \<sigma>' (current \<sigma>) = return_context L \<sigma>)"
proof -
  have cur: "current \<sigma> \<notin> set xs" and nl: "node_list (task_list L) \<sigma> xs"
    using inv by (auto simp: kinv_def sched_inv_def)
  from st show ?thesis
  proof (cases rule: kstep.cases)
    case (compute m c)
    show ?thesis
      unfolding compute(1) using compute_contexts [OF R inv compute(2,3)] cur by auto
  next
    case yield
    show ?thesis
    proof (cases xs)
      case Nil
      with yield nl have "\<sigma>' = \<sigma>" by (simp add: schedule_no_task)
      with inv Nil show ?thesis by auto
    next
      case (Cons n ys)
      with yield_contexts [OF R, of L \<sigma> n ys] inv yield show ?thesis
        using cur by auto
    qed
  next
    case (spawn t)
    have "t \<notin> set xs" using spawn(1) nl by (auto simp: fresh_task_def)
    with spawn_contexts [OF R inv spawn(1)] spawn(2) cur show ?thesis by auto
  next
    case finish
    then obtain n ys where xs: "xs = n # ys"
      using inv by (cases xs) (auto simp: kinv_def)
    with finish_contexts [OF R _ finish(1), of n ys] inv finish(2) cur show ?thesis
      by (intro exI [of _ ys]) auto
  qed
qed

lemma reachable_kinv:
  assumes "separate R" "reachable L R \<sigma>"
  shows "\<exists>xs. kinv L R \<sigma> xs"
  using assms(2)
proof (induction rule: reachable.induct)
  case (boot \<sigma>)
  then show ?case by (blast intro: kinit_kinv)
next
  case (step \<sigma> \<sigma>')
  then show ?case using kstep_effect [OF assms(1)] by blast
qed

lemma kinv_node_list: "kinv L R \<sigma> xs \<Longrightarrow> node_list (task_list L) \<sigma> xs"
  by (simp add: kinv_def sched_inv_def)

fun yields :: "nat \<Rightarrow> image \<Rightarrow> kstate \<Rightarrow> panic + kstate" where
  "yields 0 L \<sigma> = Inr \<sigma>"
| "yields (Suc k) L \<sigma> = (case schedule L \<sigma> of Inl e \<Rightarrow> Inl e | Inr \<sigma>' \<Rightarrow> yields k L \<sigma>')"

lemma schedule_rotates:
  assumes "sched_inv L \<sigma> xs"
  shows "\<exists>\<sigma>' ys. schedule L \<sigma> = Inr \<sigma>' \<and> sched_inv L \<sigma>' ys \<and> current \<sigma>' # ys = rotate1 (current \<sigma> # xs)"
proof (cases xs)
  case Nil
  then show ?thesis using assms by (auto simp: schedule_no_task sched_inv_def)
next
  case (Cons n ys)
  then show ?thesis using schedule_yield [of L \<sigma> n ys] assms by auto
qed

lemma yields_rotate:
  "sched_inv L \<sigma> xs \<Longrightarrow>
   \<exists>\<sigma>' ys. yields k L \<sigma> = Inr \<sigma>' \<and> sched_inv L \<sigma>' ys \<and> current \<sigma>' # ys = rotate k (current \<sigma> # xs)"
proof (induction k arbitrary: \<sigma> xs)
  case (Suc k)
  obtain \<sigma>1 zs where 1: "schedule L \<sigma> = Inr \<sigma>1" "sched_inv L \<sigma>1 zs" "current \<sigma>1 # zs = rotate1 (current \<sigma> # xs)"
    using schedule_rotates [OF Suc.prems] by blast
  obtain \<sigma>' ys where "yields k L \<sigma>1 = Inr \<sigma>'" "sched_inv L \<sigma>' ys" "current \<sigma>' # ys = rotate k (current \<sigma>1 # zs)"
    using Suc.IH [OF 1(2)] by blast
  with 1 show ?case
    by (auto simp: rotate1_rotate_swap simp del: rotate1.simps)
qed auto


section \<open>Properties\<close>

text \<open>
  A concrete system for the witnesses: the list head at 1000, \<open>init_task\<close> at 2000 running on a
  boot stack below 5032, and one more task structure at 65536.
\<close>

definition demo_image :: image where
  "demo_image = \<lparr>task_list = 1000, init_task = 2000, exit_point_addr = 3000, schedule_ret = 3100\<rparr>"

definition demo_regs :: cpu_regs where
  "demo_regs = \<lparr>eax = 1, ecx = 2, edx = 3, ebx = 4, ebp = 5, esi = 6, edi = 7, esp = 5032, eip = 3200\<rparr>"

definition demo_state :: kstate where
  "demo_state =
     \<lparr>next_of = (\<lambda>_. 0)(1000 := 1000), prev_of = (\<lambda>_. 0)(1000 := 1000),
      task = (\<lambda>_. \<lparr>sp = 0, entry = 3300, state = 0, ret = 0\<rparr>), current = 2000,
      cpu = demo_regs, cells = (\<lambda>_. 0)\<rparr>"

definition demo_stacks :: stacks where
  "demo_stacks t = (if t = 2000 then frame_cells 5000 else if t = 65536 then start_cells 65536 else {})"

lemma demo_separate: "separate demo_stacks"
  by (simp add: separate_def demo_stacks_def frame_cells_def start_cells_def)

lemma demo_kinit: "kinit demo_image demo_stacks demo_state"
  by (simp add: kinit_def demo_image_def demo_state_def demo_stacks_def demo_regs_def TASK_RUNNING_def
      task_node_def NULL_def)

lemma demo_reachable: "reachable demo_image demo_stacks demo_state"
  by (rule reachable.boot [OF demo_kinit])

lemma demo_ready: "node_list 1000 demo_state []"
  using kinv_node_list [OF kinit_kinv [OF demo_kinit]] by (simp add: demo_image_def)

lemma demo_fresh: "fresh_task demo_image demo_stacks demo_state 65536"
proof -
  have "65536 \<notin> set xs" if "node_list 1000 demo_state xs" for xs
    using node_list_unique [OF demo_ready that] by auto
  then show ?thesis
    by (simp add: fresh_task_def demo_image_def demo_stacks_def task_node_def NULL_def)
      (simp add: demo_state_def)
qed

lemma demo_started:
  "\<exists>\<sigma>. reachable demo_image demo_stacks \<sigma> \<and> task_run demo_image 65536 demo_state = Inr \<sigma> \<and>
    current \<sigma> = 65536 \<and> node_list 1000 \<sigma> [2000]"
proof -
  obtain \<sigma> where "task_run demo_image 65536 demo_state = Inr \<sigma>" "current \<sigma> = 65536"
    "kinv demo_image demo_stacks \<sigma> ([] @ [current demo_state])"
    using spawn_contexts [OF demo_separate kinit_kinv [OF demo_kinit] demo_fresh] by blast
  then show ?thesis
    using reachable.step [OF demo_reachable kstep.spawn [OF demo_fresh]] kinv_node_list [of demo_image demo_stacks \<sigma>]
    by (auto simp: demo_state_def demo_image_def)
qed

text \<open>
  C3. No \<open>BUG_ON\<close> of the scheduler can fire: in every reachable state \<open>schedule\<close> returns,
  starting a task that is not already known returns with that task running, and a task other
  than \<open>init_task\<close> that ends hands the processor to another one and stays a zombie.
\<close>

theorem scheduler_never_panics:
  assumes "separate R" and "reachable L R \<sigma>"
  shows "(\<exists>\<sigma>'. schedule L \<sigma> = Inr \<sigma>') \<and>
    (\<forall>t. fresh_task L R \<sigma> t \<longrightarrow> (\<exists>\<sigma>'. task_run L t \<sigma> = Inr \<sigma>' \<and> current \<sigma>' = t)) \<and>
    (current \<sigma> \<noteq> init_task L \<longrightarrow>
      (\<exists>\<sigma>'. exit_point L \<sigma> = Inr \<sigma>' \<and> current \<sigma>' \<noteq> current \<sigma> \<and>
        state (task \<sigma>' (current \<sigma>)) = TASK_ZOMBIE \<and> ret (task \<sigma>' (current \<sigma>)) = eax (cpu \<sigma>)))"
proof -
  obtain xs where inv: "kinv L R \<sigma> xs"
    using reachable_kinv [OF assms] by blast
  have "\<exists>\<sigma>'. schedule L \<sigma> = Inr \<sigma>'"
    using schedule_rotates [of L \<sigma> xs] inv by (auto simp: kinv_def)
  moreover have "\<exists>\<sigma>'. task_run L t \<sigma> = Inr \<sigma>' \<and> current \<sigma>' = t" if "fresh_task L R \<sigma> t" for t
    using spawn_contexts [OF assms(1) inv that] by blast
  moreover have "\<exists>\<sigma>'. exit_point L \<sigma> = Inr \<sigma>' \<and> current \<sigma>' \<noteq> current \<sigma> \<and>
      state (task \<sigma>' (current \<sigma>)) = TASK_ZOMBIE \<and> ret (task \<sigma>' (current \<sigma>)) = eax (cpu \<sigma>)"
    if ni: "current \<sigma> \<noteq> init_task L"
  proof -
    obtain n ys where xs: "xs = n # ys"
      using inv ni by (cases xs) (auto simp: kinv_def)
    then have "n \<noteq> current \<sigma>"
      using inv by (auto simp: kinv_def sched_inv_def)
    with finish_contexts [OF assms(1) inv [unfolded xs] ni] show ?thesis
      by auto
  qed
  ultimately show ?thesis by blast
qed

theorem scheduler_never_panics_witness:
  "(\<exists>\<sigma>. schedule demo_image demo_state = Inr \<sigma>) \<and>
   (\<exists>\<sigma>. task_run demo_image 65536 demo_state = Inr \<sigma> \<and> current \<sigma> = 65536)"
  using scheduler_never_panics [OF demo_separate demo_reachable] demo_fresh by blast

text \<open>
  C2. Context isolation: whatever the running task computes on its own stack, and whichever
  task is scheduled, started or ended, the saved registers of every waiting task stay as they
  were; a task that gets the processor back continues with exactly its saved registers, stack
  pointer and return address; a task that loses it has exactly its own registers saved.
\<close>

theorem contexts_preserved:
  assumes "separate R" and "reachable L R \<sigma>" and "kstep L R \<sigma> \<sigma>'"
    and "node_list (task_list L) \<sigma> xs" and "node_list (task_list L) \<sigma>' ys"
  shows "(\<forall>x \<in> set xs \<inter> set ys. saved_context \<sigma>' x = saved_context \<sigma> x) \<and>
    (current \<sigma>' \<in> set xs \<longrightarrow> cpu \<sigma>' = saved_context \<sigma> (current \<sigma>')) \<and>
    (current \<sigma> \<in> set ys \<longrightarrow> saved_context \<sigma>' (current \<sigma>) = return_context L \<sigma>)"
proof -
  obtain xs' where x: "kinv L R \<sigma> xs'"
    using reachable_kinv [OF assms(1,2)] by blast
  obtain ys' where y: "kinv L R \<sigma>' ys'"
      "\<forall>x \<in> set xs' \<inter> set ys'. saved_context \<sigma>' x = saved_context \<sigma> x"
      "current \<sigma>' \<in> set xs' \<longrightarrow> cpu \<sigma>' = saved_context \<sigma> (current \<sigma>')"
      "current \<sigma> \<in> set ys' \<longrightarrow> saved_context \<sigma>' (current \<sigma>) = return_context L \<sigma>"
    using kstep_effect [OF assms(1) x assms(3)] by blast
  have "xs' = xs" "ys' = ys"
    using kinv_node_list x y(1) assms(4,5) node_list_unique by blast+
  with y show ?thesis by blast
qed

theorem contexts_preserved_witness:
  "\<exists>\<sigma>. task_run demo_image 65536 demo_state = Inr \<sigma> \<and>
    saved_context \<sigma> 2000 = demo_regs\<lparr>eip := 3100\<rparr>"
proof -
  obtain \<sigma> where s: "task_run demo_image 65536 demo_state = Inr \<sigma>" "node_list 1000 \<sigma> [2000]"
    using demo_started by blast
  have "current demo_state = 2000" "task_list demo_image = 1000"
    by (simp_all add: demo_state_def demo_image_def)
  with contexts_preserved [OF demo_separate demo_reachable kstep.spawn [OF demo_fresh s(1)], of "[]" "[2000]"]
    s(2) demo_ready
  have "saved_context \<sigma> 2000 = return_context demo_image demo_state"
    by simp
  with s(1) show ?thesis
    by (simp add: return_context_def demo_state_def demo_image_def)
qed

text \<open>
  C6. Round robin: \<open>k\<close> calls of \<open>schedule\<close> rotate the running task and the ready list by
  \<open>k\<close> places, so the task at position \<open>i\<close> of the list runs after exactly \<open>i + 1\<close> calls and
  the order is back after as many calls as there are tasks.
\<close>

theorem round_robin:
  assumes "sched_inv L \<sigma> xs"
  shows "\<exists>\<sigma>' ys. yields k L \<sigma> = Inr \<sigma>' \<and> sched_inv L \<sigma>' ys \<and>
    current \<sigma>' # ys = rotate k (current \<sigma> # xs) \<and>
    (\<forall>i. k = Suc i \<and> i < length xs \<longrightarrow> current \<sigma>' = xs ! i) \<and>
    (k = Suc (length xs) \<longrightarrow> current \<sigma>' = current \<sigma> \<and> ys = xs)"
proof -
  obtain \<sigma>' ys where *: "yields k L \<sigma> = Inr \<sigma>'" "sched_inv L \<sigma>' ys" "current \<sigma>' # ys = rotate k (current \<sigma> # xs)"
    using yields_rotate [OF assms] by blast
  have "current \<sigma>' = xs ! i" if "k = Suc i" "i < length xs" for i
    using *(3) that nth_rotate [of 0 "current \<sigma> # xs" k] by (metis (no_types) add_0_right length_Cons
      length_greater_0_conv list.distinct(1) mod_less nth_Cons_0 nth_Cons_Suc Suc_less_eq plus_nat.add_0)
  moreover have "current \<sigma>' = current \<sigma> \<and> ys = xs" if "k = Suc (length xs)"
    using *(3) that rotate_id [of k "current \<sigma> # xs"] by simp
  ultimately show ?thesis
    using * by blast
qed

theorem round_robin_witness:
  "\<exists>\<sigma> \<sigma>'. task_run demo_image 65536 demo_state = Inr \<sigma> \<and> yields 1 demo_image \<sigma> = Inr \<sigma>' \<and> current \<sigma>' = 2000"
proof -
  obtain \<sigma> where s: "reachable demo_image demo_stacks \<sigma>" "task_run demo_image 65536 demo_state = Inr \<sigma>"
      "node_list 1000 \<sigma> [2000]"
    using demo_started by blast
  obtain xs where "kinv demo_image demo_stacks \<sigma> xs"
    using reachable_kinv [OF demo_separate s(1)] by blast
  moreover from this have "xs = [2000]"
    using s(3) node_list_unique [of 1000 \<sigma> xs "[2000]"] kinv_node_list [of demo_image demo_stacks \<sigma> xs]
    by (simp add: demo_image_def)
  ultimately have "sched_inv demo_image \<sigma> [2000]"
    by (simp add: kinv_def)
  from round_robin [OF this, of 1] s(2) show ?thesis
    by auto
qed

text \<open>
  C8. A task started by \<open>task_run\<close> begins at its entry point with all general registers zero,
  on its own stack, with the address of \<open>exit_point\<close> on top of it, so that returning from the
  entry function runs \<open>exit_point\<close>; the starting task goes to the end of the ready list.
\<close>

theorem task_run_starts_task:
  assumes "separate R" and "kinv L R \<sigma> xs" and "fresh_task L R \<sigma> t"
  shows "\<exists>\<sigma>'. task_run L t \<sigma> = Inr \<sigma>' \<and> current \<sigma>' = t \<and> node_list (task_list L) \<sigma>' (xs @ [current \<sigma>]) \<and>
    cpu \<sigma>' = entry_context t (entry (task \<sigma> t)) \<and>
    cells \<sigma>' (esp (cpu \<sigma>')) = exit_point_addr L \<and>
    saved_context \<sigma>' (current \<sigma>) = return_context L \<sigma>"
proof -
  obtain \<sigma>' where "task_run L t \<sigma> = Inr \<sigma>'" "kinv L R \<sigma>' (xs @ [current \<sigma>])" "current \<sigma>' = t"
    "cpu \<sigma>' = entry_context t (entry (task \<sigma> t))" "cells \<sigma>' (t + 4100) = exit_point_addr L"
    "saved_context \<sigma>' (current \<sigma>) = return_context L \<sigma>"
    using spawn_contexts [OF assms] by blast
  then show ?thesis
    using kinv_node_list [of L R \<sigma>' "xs @ [current \<sigma>]"] by (simp add: entry_context_def)
qed

theorem task_run_starts_task_witness:
  "\<exists>\<sigma>. task_run demo_image 65536 demo_state = Inr \<sigma> \<and> cpu \<sigma> = entry_context 65536 3300 \<and>
    cells \<sigma> 69636 = 3000"
  using task_run_starts_task [OF demo_separate kinit_kinv [OF demo_kinit] demo_fresh]
  by (auto simp: demo_state_def demo_image_def entry_context_def)

lemma task_run_current_panics:
  assumes "sched_inv L \<sigma> xs"
  shows "task_run L (current \<sigma>) \<sigma> = Inl (BUG ''next == prev'' 55)"
proof -
  define \<tau> where "\<tau> = task_init L (current \<sigma>) (entry (task \<sigma> (current \<sigma>))) (current \<sigma> + STACK_OFFSET) STACK_SIZE \<sigma>"
  have "node_list (task_list L) \<tau> (current \<sigma> # xs)"
    using assms by (simp add: \<tau>_def task_init_def NEXT_OFFSET_def sched_inv_def lq.push_front Let_def)
  moreover have "current \<tau> = current \<sigma>" "current \<sigma> \<noteq> NULL"
    using assms by (simp_all add: \<tau>_def task_init_def sched_simps Let_def sched_inv_def task_node_def)
  ultimately show ?thesis
    by (simp add: task_run_def \<tau>_def [symmetric] schedule_def NEXT_OFFSET_def lq.front_first)
qed

lemma exit_of_last_task_returns:
  assumes "node_list (task_list L) \<sigma> []"
  shows "\<exists>\<sigma>'. exit_point L \<sigma> = Inr \<sigma>' \<and> current \<sigma>' = current \<sigma> \<and>
    state (task \<sigma>' (current \<sigma>')) = TASK_ZOMBIE \<and> cpu \<sigma>' = cpu \<sigma> \<and> cells \<sigma>' = cells \<sigma>"
  using assms schedule_no_task [of L "set_state (current \<sigma>) TASK_ZOMBIE (upd_task (current \<sigma>) (\<lambda>t. t\<lparr>ret := eax (cpu \<sigma>)\<rparr>) \<sigma>)"]
  by (simp add: exit_point_def sched_simps)

text \<open>
  C39. Two uses the scheduler is not made for. Starting the running task again is caught: the task
  becomes the first of the ready list and \<open>schedule\<close> stops the kernel at the check \<open>BUG_ON(next == prev)\<close>.
  Ending the last task is not: with an empty ready list \<open>exit_point\<close> comes back to its caller with
  the zombie still current, although no return address was ever pushed for it.
\<close>

theorem scheduler_misuse:
  assumes "sched_inv L \<sigma> xs"
  shows "task_run L (current \<sigma>) \<sigma> = Inl (BUG ''next == prev'' 55) \<and>
    (xs = [] \<longrightarrow> (\<exists>\<sigma>'. exit_point L \<sigma> = Inr \<sigma>' \<and> current \<sigma>' = current \<sigma> \<and>
      state (task \<sigma>' (current \<sigma>')) = TASK_ZOMBIE \<and> cpu \<sigma>' = cpu \<sigma> \<and> cells \<sigma>' = cells \<sigma>))"
  using task_run_current_panics [OF assms] exit_of_last_task_returns [of L \<sigma>] assms by (auto simp: sched_inv_def)

theorem scheduler_misuse_witness:
  "task_run demo_image 2000 demo_state = Inl (BUG ''next == prev'' 55) \<and>
   (\<exists>\<sigma>. exit_point demo_image demo_state = Inr \<sigma> \<and> current \<sigma> = 2000 \<and> state (task \<sigma> 2000) = TASK_ZOMBIE)"
  using scheduler_misuse [of demo_image demo_state "[]"] kinit_kinv [OF demo_kinit]
  by (simp add: kinv_def) (auto simp: demo_state_def)

end
