(* ===== verification/Memory.thy ===== *)
theory Memory
  imports Prelude
begin

text \<open>
  The byte memory the string and formatting code works on: a total map from 32-bit addresses to
  bytes (the kernel runs with one flat, unprotected address space), multi-byte values in
  little-endian order, and the ways the properties describe a stretch of memory: \<open>bytes_at\<close> for a
  list of bytes, \<open>cstr\<close> for a NUL-terminated string, \<open>region\<close> for a set of addresses.
\<close>

section \<open>Loads and stores\<close>

type_synonym mem = "addr \<Rightarrow> u8"

definition load16 :: "mem \<Rightarrow> addr \<Rightarrow> u16" where
  "load16 m p = ucast (m p) OR push_bit 8 (ucast (m (p + 1)))"

definition load32 :: "mem \<Rightarrow> addr \<Rightarrow> u32" where
  "load32 m p = ucast (m p) OR push_bit 8 (ucast (m (p + 1))) OR push_bit 16 (ucast (m (p + 2))) OR
     push_bit 24 (ucast (m (p + 3)))"

definition load64 :: "mem \<Rightarrow> addr \<Rightarrow> u64" where
  "load64 m p = ucast (load32 m p) OR push_bit 32 (ucast (load32 m (p + 4)))"

definition store16 :: "addr \<Rightarrow> u16 \<Rightarrow> mem \<Rightarrow> mem" where
  "store16 p v m = m(p := ucast v, p + 1 := ucast (drop_bit 8 v))"

definition store32 :: "addr \<Rightarrow> u32 \<Rightarrow> mem \<Rightarrow> mem" where
  "store32 p v m = m(p := ucast v, p + 1 := ucast (drop_bit 8 v), p + 2 := ucast (drop_bit 16 v),
     p + 3 := ucast (drop_bit 24 v))"

definition store64 :: "addr \<Rightarrow> u64 \<Rightarrow> mem \<Rightarrow> mem" where
  "store64 p v m = store32 (p + 4) (ucast (drop_bit 32 v)) (store32 p (ucast v) m)"

lemma small_offsets:
  "(p :: addr) + 1 \<noteq> p" "p + 2 \<noteq> p" "p + 3 \<noteq> p" "p + 2 \<noteq> p + 1" "p + 3 \<noteq> p + 1" "p + 3 \<noteq> p + 2"
  by simp_all

lemma load16_store16 [mem_simps]: "load16 (store16 p v m) p = v"
  by (rule bit_word_eqI) (auto simp: load16_def store16_def bit_simps)

lemma load32_store32 [mem_simps]: "load32 (store32 p v m) p = v"
proof (rule bit_word_eqI)
  fix n assume "n < LENGTH(32)"
  then consider "n < 8" | "8 \<le> n" "n < 16" | "16 \<le> n" "n < 24" | "24 \<le> n" "n < 32" by fastforce
  then show "bit (load32 (store32 p v m) p) n = bit v n"
    by cases (auto simp: load32_def store32_def bit_simps)
qed

section \<open>Regions\<close>

definition region :: "addr \<Rightarrow> nat \<Rightarrow> addr set" where
  "region p n = (\<lambda>i. p + of_nat i) ` {..<n}"

lemma region_0 [simp]: "region p 0 = {}"
  by (simp add: region_def)

lemma region_Suc: "region p (Suc n) = insert p (region (p + 1) n)"
proof -
  have "{..<Suc n} = insert 0 (Suc ` {..<n})" by (auto simp: lessThan_Suc_eq_insert_0)
  then show ?thesis by (simp add: region_def image_image add.assoc)
qed

lemma region_numeral: "numeral k < n \<Longrightarrow> p + numeral k \<in> region p n"
  unfolding region_def by (rule image_eqI [of _ _ "numeral k"]) simp_all

lemma region_mono: "n \<le> k \<Longrightarrow> region p n \<subseteq> region p k"
  by (auto simp: region_def)

lemma region_add: "region p (n + k) = region p n \<union> region (p + of_nat n) k"
  by (induction n arbitrary: p) (simp_all add: region_Suc add.assoc)

lemma start_notin_region:
  assumes "n < 2 ^ 32"
  shows "p \<notin> region (p + 1) n"
proof
  assume "p \<in> region (p + 1) n"
  then obtain i where "i < n" "p = p + 1 + of_nat i" by (auto simp: region_def)
  then have "(of_nat (Suc i) :: addr) = 0" by (metis add.assoc add_cancel_right_right of_nat_Suc)
  then have "2 ^ 32 dvd Suc i" unfolding word_of_nat_eq_0_iff by simp
  then have "2 ^ 32 \<le> Suc i" by (rule dvd_imp_le) simp
  then show False using \<open>i < n\<close> assms by linarith
qed

lemma region_nowrap:
  assumes "unat p + n \<le> 2 ^ 32"
  shows "a \<in> region p n \<longleftrightarrow> unat p \<le> unat a \<and> unat a < unat p + n"
proof
  assume "a \<in> region p n"
  then obtain i where i: "i < n" "a = p + of_nat i" by (auto simp: region_def)
  have "unat (of_nat i :: addr) = i" using i(1) assms by (simp add: unat_of_nat)
  then have "unat a = unat p + i" using i assms by (simp add: unat_word_ariths)
  then show "unat p \<le> unat a \<and> unat a < unat p + n" using i(1) by simp
next
  assume a: "unat p \<le> unat a \<and> unat a < unat p + n"
  have "a = p + of_nat (unat a - unat p)" using a by (simp add: of_nat_diff)
  then show "a \<in> region p n" using a unfolding region_def by (intro image_eqI [of _ _ "unat a - unat p"]) auto
qed

lemma region_disjoint: "unat p + n \<le> unat q \<Longrightarrow> unat q + k \<le> 2 ^ 32 \<Longrightarrow> region p n \<inter> region q k = {}"
  by (auto simp: region_nowrap)

section \<open>Byte sequences and strings\<close>

fun bytes_at :: "mem \<Rightarrow> addr \<Rightarrow> u8 list \<Rightarrow> bool" where
  "bytes_at m p [] \<longleftrightarrow> True"
| "bytes_at m p (b # bs) \<longleftrightarrow> m p = b \<and> bytes_at m (p + 1) bs"

fun cstr :: "mem \<Rightarrow> addr \<Rightarrow> u8 list \<Rightarrow> bool" where
  "cstr m p [] \<longleftrightarrow> m p = 0"
| "cstr m p (b # bs) \<longleftrightarrow> b \<noteq> 0 \<and> m p = b \<and> cstr m (p + 1) bs"

definition same_on :: "addr set \<Rightarrow> mem \<Rightarrow> mem \<Rightarrow> bool" where
  "same_on A m m' \<longleftrightarrow> (\<forall>a \<in> A. m' a = m a)"

lemma same_on_refl [simp]: "same_on A m m"
  by (simp add: same_on_def)

lemma same_on_upd [mem_simps]: "p \<notin> A \<Longrightarrow> same_on A m (m'(p := v)) \<longleftrightarrow> same_on A m m'"
  by (auto simp: same_on_def)

lemma same_on_trans: "same_on A m m' \<Longrightarrow> same_on A m' m'' \<Longrightarrow> same_on A m m''"
  by (simp add: same_on_def)

lemma same_on_subset: "same_on A m m' \<Longrightarrow> B \<subseteq> A \<Longrightarrow> same_on B m m'"
  by (auto simp: same_on_def)

lemma bytes_at_same: "same_on (region p (length bs)) m m' \<Longrightarrow> bytes_at m' p bs = bytes_at m p bs"
  by (induction bs arbitrary: p) (auto simp: region_Suc same_on_def)

lemma cstr_same: "same_on (region p (Suc (length s))) m m' \<Longrightarrow> cstr m' p s = cstr m p s"
  by (induction s arbitrary: p) (auto simp: region_Suc same_on_def)

lemma bytes_at_append: "bytes_at m p (bs @ cs) \<longleftrightarrow> bytes_at m p bs \<and> bytes_at m (p + of_nat (length bs)) cs"
  by (induction bs arbitrary: p) (auto simp: add.assoc)

lemma cstr_bytes_at: "cstr m p s \<longleftrightarrow> bytes_at m p (s @ [0]) \<and> 0 \<notin> set s"
  by (induction s arbitrary: p) auto

lemma cstr_append: "cstr m p (s @ t) \<longleftrightarrow> bytes_at m p s \<and> 0 \<notin> set s \<and> cstr m (p + of_nat (length s)) t"
  by (induction s arbitrary: p) (auto simp: add.assoc)

lemma cstr_unique: "cstr m p s \<Longrightarrow> cstr m p t \<Longrightarrow> s = t"
  by (induction s arbitrary: p t) (case_tac t; auto)+

lemma bytes_at_nth: "bytes_at m p bs \<longleftrightarrow> (\<forall>i < length bs. m (p + of_nat i) = bs ! i)"
proof (induction bs arbitrary: p)
  case (Cons b bs)
  have "(\<forall>i < length (b # bs). m (p + of_nat i) = (b # bs) ! i) \<longleftrightarrow>
      m p = b \<and> (\<forall>i < length bs. m (p + 1 + of_nat i) = bs ! i)"
    by (auto simp: less_Suc_eq_0_disj add.assoc)
  then show ?case using Cons by simp
qed simp

section \<open>Writing a sequence of bytes\<close>

fun put_bytes :: "addr \<Rightarrow> u8 list \<Rightarrow> mem \<Rightarrow> mem" where
  "put_bytes p [] m = m"
| "put_bytes p (b # bs) m = put_bytes (p + 1) bs (m(p := b))"

lemma put_bytes_frame: "a \<notin> region p (length bs) \<Longrightarrow> put_bytes p bs m a = m a"
  by (induction bs arbitrary: p m) (auto simp: region_Suc)

lemma put_bytes_append: "put_bytes p (bs @ cs) m = put_bytes (p + of_nat (length bs)) cs (put_bytes p bs m)"
  by (induction bs arbitrary: p m) (simp_all add: add.assoc)

lemma bytes_at_put_bytes:
  assumes "length bs \<le> 2 ^ 32"
  shows "bytes_at (put_bytes p bs m) p bs"
  using assms
proof (induction bs arbitrary: p m)
  case (Cons b bs)
  have "p \<notin> region (p + 1) (length bs)" using Cons.prems by (intro start_notin_region) simp
  then show ?case using Cons by (simp add: put_bytes_frame)
qed simp

lemma same_on_put_bytes: "A \<inter> region p (length bs) = {} \<Longrightarrow> same_on A m (put_bytes p bs m)"
  unfolding same_on_def by (blast intro: put_bytes_frame)

lemma cstr_put_bytes: "length s < 2 ^ 32 \<Longrightarrow> 0 \<notin> set s \<Longrightarrow> cstr (put_bytes p (s @ [0]) m) p s"
  unfolding cstr_bytes_at using bytes_at_put_bytes [of "s @ [0]" p m] by simp

lemma put_bytes_id: "bytes_at m p bs \<Longrightarrow> put_bytes p bs m = m"
  by (induction bs arbitrary: p) (auto simp del: fun_upd_apply)

lemma cstr_extend:
  assumes "cstr m d s" "0 \<notin> set u" "length s + length u < 2 ^ 32"
  shows "cstr (put_bytes (d + of_nat (length s)) (u @ [0]) m) d (s @ u)"
proof -
  have "bytes_at m d s" "0 \<notin> set s" using assms(1) by (auto simp: cstr_bytes_at bytes_at_append)
  then have "put_bytes d ((s @ u) @ [0]) m = put_bytes (d + of_nat (length s)) (u @ [0]) m" "0 \<notin> set (s @ u)"
    using assms(2) by (simp_all add: put_bytes_append [of d s "u @ [0]"] put_bytes_id del: put_bytes_append)
  then show ?thesis using cstr_put_bytes [of "s @ u" d m] assms(3) by simp
qed

lemma store32_put_bytes:
  "store32 p v m = put_bytes p [ucast v, ucast (drop_bit 8 v), ucast (drop_bit 16 v), ucast (drop_bit 24 v)] m"
  by (simp add: store32_def add.assoc)

lemma store32_same: "A \<inter> region p 4 = {} \<Longrightarrow> same_on A m (store32 p v m)"
  unfolding store32_put_bytes by (rule same_on_put_bytes) (simp add: eval_nat_numeral)

end
