(* ===== verification/Ctype.thy ===== *)
theory Ctype
  imports Prelude
begin

text \<open>
  Character classes: the table of \<open>lib/ctype.c\<close> and the macros and inline functions of
  \<open>include/ctype.h\<close>.  A macro argument is converted to \<open>unsigned char\<close>, so every function
  here takes the byte.
\<close>

section \<open>The table\<close>

definition CT_U :: u8 where "CT_U = 0x01"
definition CT_L :: u8 where "CT_L = 0x02"
definition CT_D :: u8 where "CT_D = 0x04"
definition CT_C :: u8 where "CT_C = 0x08"
definition CT_P :: u8 where "CT_P = 0x10"
definition CT_S :: u8 where "CT_S = 0x20"
definition CT_X :: u8 where "CT_X = 0x40"
definition CT_SP :: u8 where "CT_SP = 0x80"

definition ctype_table :: "u8 list" where
  "ctype_table = [
     CT_C, CT_C, CT_C, CT_C, CT_C, CT_C, CT_C, CT_C,
     CT_C, CT_C OR CT_S, CT_C OR CT_S, CT_C OR CT_S, CT_C OR CT_S, CT_C OR CT_S, CT_C, CT_C,
     CT_C, CT_C, CT_C, CT_C, CT_C, CT_C, CT_C, CT_C,
     CT_C, CT_C, CT_C, CT_C, CT_C, CT_C, CT_C, CT_C,
     CT_S OR CT_SP, CT_P, CT_P, CT_P, CT_P, CT_P, CT_P, CT_P,
     CT_P, CT_P, CT_P, CT_P, CT_P, CT_P, CT_P, CT_P,
     CT_D, CT_D, CT_D, CT_D, CT_D, CT_D, CT_D, CT_D,
     CT_D, CT_D, CT_P, CT_P, CT_P, CT_P, CT_P, CT_P,
     CT_P, CT_U OR CT_X, CT_U OR CT_X, CT_U OR CT_X, CT_U OR CT_X, CT_U OR CT_X, CT_U OR CT_X, CT_U,
     CT_U, CT_U, CT_U, CT_U, CT_U, CT_U, CT_U, CT_U,
     CT_U, CT_U, CT_U, CT_U, CT_U, CT_U, CT_U, CT_U,
     CT_U, CT_U, CT_U, CT_P, CT_P, CT_P, CT_P, CT_P,
     CT_P, CT_L OR CT_X, CT_L OR CT_X, CT_L OR CT_X, CT_L OR CT_X, CT_L OR CT_X, CT_L OR CT_X, CT_L,
     CT_L, CT_L, CT_L, CT_L, CT_L, CT_L, CT_L, CT_L,
     CT_L, CT_L, CT_L, CT_L, CT_L, CT_L, CT_L, CT_L,
     CT_L, CT_L, CT_L, CT_P, CT_P, CT_P, CT_P, CT_C,
     0, 0, 0, 0, 0, 0, 0, 0,
     0, 0, 0, 0, 0, 0, 0, 0,
     0, 0, 0, 0, 0, 0, 0, 0,
     0, 0, 0, 0, 0, 0, 0, 0,
     CT_S OR CT_SP, CT_P, CT_P, CT_P, CT_P, CT_P, CT_P, CT_P,
     CT_P, CT_P, CT_P, CT_P, CT_P, CT_P, CT_P, CT_P,
     CT_P, CT_P, CT_P, CT_P, CT_P, CT_P, CT_P, CT_P,
     CT_P, CT_P, CT_P, CT_P, CT_P, CT_P, CT_P, CT_P,
     CT_U, CT_U, CT_U, CT_U, CT_U, CT_U, CT_U, CT_U,
     CT_U, CT_U, CT_U, CT_U, CT_U, CT_U, CT_U, CT_U,
     CT_U, CT_U, CT_U, CT_U, CT_U, CT_U, CT_U, CT_P,
     CT_U, CT_U, CT_U, CT_U, CT_U, CT_U, CT_U, CT_L,
     CT_L, CT_L, CT_L, CT_L, CT_L, CT_L, CT_L, CT_L,
     CT_L, CT_L, CT_L, CT_L, CT_L, CT_L, CT_L, CT_L,
     CT_L, CT_L, CT_L, CT_L, CT_L, CT_L, CT_L, CT_P,
     CT_L, CT_L, CT_L, CT_L, CT_L, CT_L, CT_L, CT_L]"

definition ismask :: "u8 \<Rightarrow> u8" where
  "ismask x = ctype_table ! unat x"

section \<open>Classification\<close>

definition isalnum :: "u8 \<Rightarrow> bool" where
  "isalnum c \<longleftrightarrow> ismask c AND (CT_U OR CT_L OR CT_D) \<noteq> 0"

definition isalpha :: "u8 \<Rightarrow> bool" where
  "isalpha c \<longleftrightarrow> ismask c AND (CT_U OR CT_L) \<noteq> 0"

definition iscntrl :: "u8 \<Rightarrow> bool" where
  "iscntrl c \<longleftrightarrow> ismask c AND (CT_C) \<noteq> 0"

definition isdigit :: "u8 \<Rightarrow> bool" where
  "isdigit c \<longleftrightarrow> ismask c AND (CT_D) \<noteq> 0"

definition isgraph :: "u8 \<Rightarrow> bool" where
  "isgraph c \<longleftrightarrow> ismask c AND (CT_P OR CT_U OR CT_L OR CT_D) \<noteq> 0"

definition islower :: "u8 \<Rightarrow> bool" where
  "islower c \<longleftrightarrow> ismask c AND (CT_L) \<noteq> 0"

definition isprint :: "u8 \<Rightarrow> bool" where
  "isprint c \<longleftrightarrow> ismask c AND (CT_P OR CT_U OR CT_L OR CT_D OR CT_SP) \<noteq> 0"

definition ispunct :: "u8 \<Rightarrow> bool" where
  "ispunct c \<longleftrightarrow> ismask c AND (CT_P) \<noteq> 0"

definition isspace :: "u8 \<Rightarrow> bool" where
  "isspace c \<longleftrightarrow> ismask c AND (CT_S) \<noteq> 0"

definition isupper :: "u8 \<Rightarrow> bool" where
  "isupper c \<longleftrightarrow> ismask c AND (CT_U) \<noteq> 0"

definition isxdigit :: "u8 \<Rightarrow> bool" where
  "isxdigit c \<longleftrightarrow> ismask c AND (CT_D OR CT_X) \<noteq> 0"

definition isascii :: "u8 \<Rightarrow> bool" where
  "isascii c \<longleftrightarrow> c \<le> 0x7f"

definition toascii :: "u8 \<Rightarrow> u8" where
  "toascii c = c AND 0x7f"

definition tolower :: "u8 \<Rightarrow> u8" where
  "tolower c = (if isupper c then c - (65 - 97) else c)"

definition toupper :: "u8 \<Rightarrow> u8" where
  "toupper c = (if islower c then c - (97 - 65) else c)"

section \<open>Ranges\<close>

text \<open>
  The table read through one mask is a sequence of runs; the position of a byte in the runs
  gives the ranges of the class.
\<close>

lemma u8_bound: "unat (c :: u8) < 256"
  using unsigned_less [of c, where ?'a = nat] by simp

lemma mask_runs:
  assumes "map (\<lambda>m. m AND k \<noteq> 0) ctype_table = rs"
  shows "ismask c AND k \<noteq> 0 \<longleftrightarrow> rs ! unat c"
proof -
  have "length ctype_table = 256"
    by (simp add: ctype_table_def)
  then have "unat c < length ctype_table"
    using u8_bound [of c] by simp
  then show ?thesis
    unfolding assms [symmetric] ismask_def by simp
qed

lemma digit_runs: "map (\<lambda>m. m AND CT_D \<noteq> 0) ctype_table = replicate 48 False @ replicate 10 True @ replicate 198 False"
  by code_simp

lemma xdigit_runs: "map (\<lambda>m. m AND (CT_D OR CT_X) \<noteq> 0) ctype_table =
    replicate 48 False @ replicate 10 True @ replicate 7 False @ replicate 6 True @ replicate 26 False @
    replicate 6 True @ replicate 153 False"
  by code_simp

lemma upper_runs: "map (\<lambda>m. m AND CT_U \<noteq> 0) ctype_table =
    replicate 65 False @ replicate 26 True @ replicate 101 False @ replicate 23 True @ replicate 1 False @
    replicate 7 True @ replicate 33 False"
  by code_simp

lemma lower_runs: "map (\<lambda>m. m AND CT_L \<noteq> 0) ctype_table =
    replicate 97 False @ replicate 26 True @ replicate 100 False @ replicate 24 True @ replicate 1 False @
    replicate 8 True"
  by code_simp

lemma space_runs: "map (\<lambda>m. m AND CT_S \<noteq> 0) ctype_table =
    replicate 9 False @ replicate 5 True @ replicate 18 False @ replicate 1 True @ replicate 127 False @
    replicate 1 True @ replicate 95 False"
  by code_simp

lemma isdigit_nat: "isdigit c \<longleftrightarrow> unat c \<in> {48..57}"
  unfolding isdigit_def mask_runs [OF digit_runs] using u8_bound [of c] by (auto simp: nth_append nth_Cons' split: if_splits)

lemma isxdigit_nat: "isxdigit c \<longleftrightarrow> unat c \<in> {48..57} \<union> {65..70} \<union> {97..102}"
  unfolding isxdigit_def mask_runs [OF xdigit_runs] using u8_bound [of c] by (auto simp: nth_append nth_Cons' split: if_splits)

lemma isupper_nat: "isupper c \<longleftrightarrow> unat c \<in> {65..90} \<union> {192..214} \<union> {216..222}"
  unfolding isupper_def mask_runs [OF upper_runs] using u8_bound [of c] by (auto simp: nth_append nth_Cons' split: if_splits)

lemma islower_nat: "islower c \<longleftrightarrow> unat c \<in> {97..122} \<union> {223..246} \<union> {248..255}"
  unfolding islower_def mask_runs [OF lower_runs] using u8_bound [of c] by (auto simp: nth_append nth_Cons' split: if_splits)

lemma isspace_nat: "isspace c \<longleftrightarrow> unat c \<in> {9..13} \<union> {32, 160}"
  unfolding isspace_def mask_runs [OF space_runs] using u8_bound [of c] by (auto simp: nth_append nth_Cons' split: if_splits)


section \<open>Case conversion\<close>

lemma unat_add32: "unat c < 224 \<Longrightarrow> unat (c + 32 :: u8) = unat c + 32"
  by (subst unat_add_lem [THEN iffD1]) simp_all

lemma unat_sub32: "32 \<le> unat c \<Longrightarrow> unat (c - 32 :: u8) = unat c - 32"
  by (subst unat_sub) (simp_all add: word_le_nat_alt)

lemma unat_tolower: "unat (tolower c) = (if isupper c then unat c + 32 else unat c)"
  using unat_add32 [of c] by (auto simp: tolower_def isupper_nat)

lemma unat_toupper: "unat (toupper c) = (if islower c then unat c - 32 else unat c)"
  using unat_sub32 [of c] by (auto simp: toupper_def islower_nat)

section \<open>Hexadecimal digits as an interface\<close>

text \<open>
  What the number parsers rely on: which bytes are digits, and the value the expression
  \<open>isdigit(c) ? c - '0' : toupper(c) - 'A' + 10\<close> gives them.
\<close>

locale hex_digits =
  fixes dig :: "u8 \<Rightarrow> bool" and xdig :: "u8 \<Rightarrow> bool" and up :: "u8 \<Rightarrow> u8"
  assumes dig: "dig c \<longleftrightarrow> unat c \<in> {48..57}"
    and xdig: "xdig c \<longleftrightarrow> unat c \<in> {48..57} \<union> {65..70} \<union> {97..102}"
    and up: "unat c \<in> {65..70} \<union> {97..102} \<Longrightarrow>
      unat (up c) = (if unat c \<in> {97..102} then unat c - 32 else unat c)"
begin

lemma value_bound: "xdig c \<Longrightarrow> (if dig c then unat c - 48 else unat (up c) - 55) < 16"
  by (auto simp: dig xdig up)

lemma digit_xdigit: "dig c \<Longrightarrow> xdig c"
  by (simp add: dig xdig)

lemma zero_not_xdigit: "\<not> xdig 0"
  by (simp add: xdig)

end

interpretation hx: hex_digits isdigit isxdigit toupper
  by unfold_locales (auto simp: isdigit_nat isxdigit_nat unat_toupper islower_nat)

section \<open>Properties\<close>

text \<open>
  C23. The classification macros describe, for every one of the 256 bytes, the ASCII and
  Latin-1 ranges: digits, hexadecimal digits, upper and lower case letters and white space.
\<close>

theorem ctype_ranges:
  "(isdigit c \<longleftrightarrow> unat c \<in> {48..57}) \<and>
   (isxdigit c \<longleftrightarrow> unat c \<in> {48..57} \<union> {65..70} \<union> {97..102}) \<and>
   (isupper c \<longleftrightarrow> unat c \<in> {65..90} \<union> {192..214} \<union> {216..222}) \<and>
   (islower c \<longleftrightarrow> unat c \<in> {97..122} \<union> {223..246} \<union> {248..255}) \<and>
   (isspace c \<longleftrightarrow> unat c \<in> {9..13} \<union> {32, 160})"
  by (simp add: isdigit_nat isxdigit_nat isupper_nat islower_nat isspace_nat)

text \<open>
  C24. Case conversion: \<open>toupper\<close> undoes \<open>tolower\<close> on every upper case letter, and
  \<open>tolower\<close> undoes \<open>toupper\<close> on every lower case letter but the two Latin-1 letters without an
  upper case partner in the table, 0xdf and 0xff, which \<open>toupper\<close> turns into a punctuation mark
  and into the lower case letter 0xdf.
\<close>

theorem case_conversion:
  "(isupper c \<longrightarrow> islower (tolower c) \<and> toupper (tolower c) = c) \<and>
   (islower c \<and> unat c \<notin> {223, 255} \<longrightarrow> isupper (toupper c) \<and> tolower (toupper c) = c) \<and>
   toupper 0xdf = 0xbf \<and> ispunct 0xbf \<and> toupper 0xff = 0xdf \<and> islower 0xdf"
proof -
  have "islower (tolower c) \<and> toupper (tolower c) = c" if "isupper c"
    using that u8_bound [of c]
    by (auto simp: islower_nat isupper_nat unat_tolower unat_toupper word_unat_eq_iff)
  moreover have "isupper (toupper c) \<and> tolower (toupper c) = c" if "islower c" "unat c \<notin> {223, 255}"
    using that u8_bound [of c]
    by (auto simp: islower_nat isupper_nat unat_tolower unat_toupper word_unat_eq_iff)
  moreover have "ispunct 0xbf" by code_simp
  moreover have "toupper 0xdf = 0xbf" "toupper 0xff = 0xdf" "islower 0xdf" by (simp_all add: toupper_def islower_nat)
  ultimately show ?thesis by blast
qed

theorem case_conversion_witness:
  "islower (tolower 65) \<and> toupper (tolower 65) = 65 \<and> isupper (toupper 97) \<and> tolower (toupper 97) = 97"
  using case_conversion [of 65] case_conversion [of 97] by (simp add: isupper_nat islower_nat)

end
