(* ===== verification/CString.thy ===== *)
theory CString
  imports Memory Ctype
begin

text \<open>
  The string library (\<open>include/string.h\<close>, \<open>lib/string.c\<close>) on the byte memory. A loop that runs
  to the terminating NUL is a \<open>partial_function\<close> with \<open>None\<close> for not returning; a loop with a
  count is recursion on the number of rounds left. \<open>char\<close> is signed on this target, which the
  comparisons show. A pointer result is an address, and a function that changes memory returns
  the new memory as well.

  The lemmas show that every function returns on terminated strings and what it returns: the copying functions build the
  concatenated or truncated string and touch nothing else, the searching functions find the
  first or last occurrence, the comparing functions decide equality and order.
\<close>

section \<open>Memory blocks\<close>

fun set_loop :: "addr \<Rightarrow> u8 \<Rightarrow> nat \<Rightarrow> mem \<Rightarrow> mem" where
  "set_loop p c 0 m = m"
| "set_loop p c (Suc n) m = set_loop (p + 1) c n (m(p := c))"

fun setw_loop :: "addr \<Rightarrow> u16 \<Rightarrow> nat \<Rightarrow> mem \<Rightarrow> mem" where
  "setw_loop p c 0 m = m"
| "setw_loop p c (Suc n) m = setw_loop (p + 2) c n (store16 p c m)"

fun setl_loop :: "addr \<Rightarrow> u32 \<Rightarrow> nat \<Rightarrow> mem \<Rightarrow> mem" where
  "setl_loop p c 0 m = m"
| "setl_loop p c (Suc n) m = setl_loop (p + 4) c n (store32 p c m)"

definition memsetl :: "addr \<Rightarrow> u32 \<Rightarrow> u32 \<Rightarrow> mem \<Rightarrow> addr \<times> mem" where
  "memsetl s c count m = (s, setl_loop s c (unat count) m)"

definition memsetw :: "addr \<Rightarrow> u16 \<Rightarrow> u32 \<Rightarrow> mem \<Rightarrow> addr \<times> mem" where
  "memsetw s c count m = (s, setw_loop s c (unat count) m)"

definition memset :: "addr \<Rightarrow> u32 \<Rightarrow> u32 \<Rightarrow> mem \<Rightarrow> addr \<times> mem" where
  "memset s c count m = (s, set_loop s (ucast c) (unat count) m)"

definition bzero :: "addr \<Rightarrow> u32 \<Rightarrow> mem \<Rightarrow> mem" where
  "bzero s count m = set_loop s 0 (unat count) m"

fun copy_loop :: "addr \<Rightarrow> addr \<Rightarrow> nat \<Rightarrow> mem \<Rightarrow> mem" where
  "copy_loop d s 0 m = m"
| "copy_loop d s (Suc n) m = copy_loop (d + 1) (s + 1) n (m(d := m s))"

definition memcpy :: "addr \<Rightarrow> addr \<Rightarrow> u32 \<Rightarrow> mem \<Rightarrow> addr \<times> mem" where
  "memcpy to from n m = (to, copy_loop to from (unat n) m)"

fun cmp_loop :: "addr \<Rightarrow> addr \<Rightarrow> nat \<Rightarrow> mem \<Rightarrow> int" where
  "cmp_loop p q 0 m = 0"
| "cmp_loop p q (Suc n) m =
     (let res = uint (m p) - uint (m q) in if res \<noteq> 0 then res else cmp_loop (p + 1) (q + 1) n m)"

definition memcmp :: "addr \<Rightarrow> addr \<Rightarrow> u32 \<Rightarrow> mem \<Rightarrow> int" where
  "memcmp p q count m = cmp_loop p q (unat count) m"

fun memchr_loop :: "addr \<Rightarrow> u8 \<Rightarrow> nat \<Rightarrow> mem \<Rightarrow> addr" where
  "memchr_loop p c 0 m = NULL"
| "memchr_loop p c (Suc n) m = (if c = m p then (p + 1) - 1 else memchr_loop (p + 1) c n m)"

definition memchr :: "addr \<Rightarrow> u32 \<Rightarrow> u32 \<Rightarrow> mem \<Rightarrow> addr" where
  "memchr s c n m = memchr_loop s (ucast c) (unat n) m"

section \<open>Strings\<close>

partial_function (option) strchr_loop :: "u8 \<Rightarrow> mem \<Rightarrow> addr \<Rightarrow> addr option" where
  "strchr_loop c m s = (if m s \<noteq> c then if m s = 0 then Some NULL else strchr_loop c m (s + 1) else Some s)"

definition strchr :: "addr \<Rightarrow> u32 \<Rightarrow> mem \<Rightarrow> addr option" where
  "strchr s c m = strchr_loop (ucast c) m s"

partial_function (option) strend_loop :: "mem \<Rightarrow> addr \<Rightarrow> addr option" where
  "strend_loop m s = (if m s \<noteq> 0 then strend_loop m (s + 1) else Some s)"

definition strlen :: "addr \<Rightarrow> mem \<Rightarrow> u32 option" where
  "strlen str m = (if str = 0 then Some 0 else map_option (\<lambda>s. s - str) (strend_loop m str))"

partial_function (option) strrchr_loop :: "u8 \<Rightarrow> mem \<Rightarrow> addr \<Rightarrow> addr \<Rightarrow> addr option" where
  "strrchr_loop c m s p =
     (if m p = c then Some p else if p - 1 \<ge> s then strrchr_loop c m s (p - 1) else Some NULL)"

definition strrchr :: "addr \<Rightarrow> u32 \<Rightarrow> mem \<Rightarrow> addr option" where
  "strrchr s c m = (case strlen s m of None \<Rightarrow> None | Some n \<Rightarrow> strrchr_loop (ucast c) m s (s + n))"

partial_function (option) strcpy_loop :: "addr \<Rightarrow> addr \<Rightarrow> mem \<Rightarrow> mem option" where
  "strcpy_loop d s m =
     (let v = m s; m' = m(d := v) in if v \<noteq> 0 then strcpy_loop (d + 1) (s + 1) m' else Some m')"

definition strcpy :: "addr \<Rightarrow> addr \<Rightarrow> mem \<Rightarrow> (addr \<times> mem) option" where
  "strcpy dest org m = map_option (Pair dest) (strcpy_loop dest org m)"

fun strncpy_loop :: "addr \<Rightarrow> addr \<Rightarrow> nat \<Rightarrow> mem \<Rightarrow> mem" where
  "strncpy_loop d s 0 m = m"
| "strncpy_loop d s (Suc n) m =
     (let v = m s; m' = m(d := v) in
      if v = 0 then set_loop (d + 1) 0 n m' else strncpy_loop (d + 1) (s + 1) n m')"

definition strncpy :: "addr \<Rightarrow> addr \<Rightarrow> u32 \<Rightarrow> mem \<Rightarrow> addr \<times> mem" where
  "strncpy dest org n m = (dest, strncpy_loop dest org (unat n) m)"

fun strnlen_loop :: "mem \<Rightarrow> addr \<Rightarrow> nat \<Rightarrow> addr" where
  "strnlen_loop m sc 0 = sc"
| "strnlen_loop m sc (Suc n) = (if m sc \<noteq> 0 then strnlen_loop m (sc + 1) n else sc)"

definition strnlen :: "addr \<Rightarrow> u32 \<Rightarrow> mem \<Rightarrow> u32" where
  "strnlen s count m = (if s = 0 then 0 else strnlen_loop m s (unat count) - s)"

definition strcat :: "addr \<Rightarrow> addr \<Rightarrow> mem \<Rightarrow> (addr \<times> mem) option" where
  "strcat s app m =
     (case strend_loop m s of None \<Rightarrow> None | Some e \<Rightarrow> map_option (Pair s) (strcpy_loop e app m))"

fun strncat_loop :: "addr \<Rightarrow> addr \<Rightarrow> nat \<Rightarrow> mem \<Rightarrow> mem" where
  "strncat_loop d s 0 m = m"
| "strncat_loop d s (Suc n) m =
     (let v = m s; m' = m(d := v) in
      if v \<noteq> 0 then (if n = 0 then m'(d + 1 := 0) else strncat_loop (d + 1) (s + 1) n m') else m')"

definition strncat :: "addr \<Rightarrow> addr \<Rightarrow> u32 \<Rightarrow> mem \<Rightarrow> (addr \<times> mem) option" where
  "strncat dest src count m =
     (if count \<noteq> 0
      then (case strend_loop m dest of None \<Rightarrow> None | Some e \<Rightarrow> Some (dest, strncat_loop e src (unat count) m))
      else Some (dest, m))"

partial_function (option) strcmp_loop :: "mem \<Rightarrow> addr \<Rightarrow> addr \<Rightarrow> int option" where
  "strcmp_loop m s1 s2 =
     (if m s2 \<noteq> 0 \<and> m s2 = m s1 then strcmp_loop m (s1 + 1) (s2 + 1) else Some (sint (m s1) - sint (m s2)))"

definition strcmp :: "addr \<Rightarrow> addr \<Rightarrow> mem \<Rightarrow> int option" where
  "strcmp s1 s2 m = strcmp_loop m s1 s2"

fun strncmp_loop :: "mem \<Rightarrow> addr \<Rightarrow> addr \<Rightarrow> nat \<Rightarrow> int" where
  "strncmp_loop m s1 s2 0 = 0"
| "strncmp_loop m s1 s2 (Suc n) =
     (if m s1 \<noteq> m s2 then uint (m s1) - uint (m s2)
      else if m s1 = 0 then 0 else strncmp_loop m (s1 + 1) (s2 + 1) n)"

definition strncmp :: "addr \<Rightarrow> addr \<Rightarrow> u32 \<Rightarrow> mem \<Rightarrow> int" where
  "strncmp s1 s2 n m = (if n = 0 then 0 else strncmp_loop m s1 s2 (unat n))"

partial_function (option) strcasecmp_loop :: "mem \<Rightarrow> addr \<Rightarrow> addr \<Rightarrow> int option" where
  "strcasecmp_loop m s1 s2 =
     (if tolower (m s1) = tolower (m s2)
      then if m s1 = 0 then Some 0 else strcasecmp_loop m (s1 + 1) (s2 + 1)
      else Some (uint (tolower (m s1)) - uint (tolower (m s2))))"

definition strcasecmp :: "addr \<Rightarrow> addr \<Rightarrow> mem \<Rightarrow> int option" where
  "strcasecmp s1 s2 m = strcasecmp_loop m s1 s2"

fun strncasecmp_loop :: "mem \<Rightarrow> addr \<Rightarrow> addr \<Rightarrow> nat \<Rightarrow> int" where
  "strncasecmp_loop m s1 s2 0 = 0"
| "strncasecmp_loop m s1 s2 (Suc n) =
     (if tolower (m s1) \<noteq> tolower (m s2) then uint (tolower (m s1)) - uint (tolower (m s2))
      else if m s1 = 0 then 0 else strncasecmp_loop m (s1 + 1) (s2 + 1) n)"

definition strncasecmp :: "addr \<Rightarrow> addr \<Rightarrow> u32 \<Rightarrow> mem \<Rightarrow> int" where
  "strncasecmp s1 s2 n m = (if n \<noteq> 0 then strncasecmp_loop m s1 s2 (unat n) else 0)"

partial_function (option) strstr_loop :: "u8 \<Rightarrow> addr \<Rightarrow> u32 \<Rightarrow> mem \<Rightarrow> addr \<Rightarrow> addr option" where
  "strstr_loop c fnd len m s =
     (let sc = m s; s' = s + 1 in
      if sc = 0 then Some NULL
      else if sc \<noteq> c then strstr_loop c fnd len m s'
      else if strncmp s' fnd len m \<noteq> 0 then strstr_loop c fnd len m s'
      else Some (s' - 1))"

definition strstr :: "addr \<Rightarrow> addr \<Rightarrow> mem \<Rightarrow> addr option" where
  "strstr s fnd m =
     (let c = m fnd; fnd = fnd + 1 in
      if c \<noteq> 0 then (case strlen fnd m of None \<Rightarrow> None | Some len \<Rightarrow> strstr_loop c fnd len m s)
      else Some s)"

partial_function (option) member_loop :: "u8 \<Rightarrow> mem \<Rightarrow> addr \<Rightarrow> bool option" where
  "member_loop c m ct = (if m ct \<noteq> 0 then if c = m ct then Some True else member_loop c m (ct + 1) else Some False)"

partial_function (option) strpbrk_loop :: "addr \<Rightarrow> mem \<Rightarrow> addr \<Rightarrow> addr option" where
  "strpbrk_loop ct m cs =
     (if m cs \<noteq> 0
      then Option.bind (member_loop (m cs) m ct) (\<lambda>found. if found then Some cs else strpbrk_loop ct m (cs + 1))
      else Some NULL)"

definition strpbrk :: "addr \<Rightarrow> addr \<Rightarrow> mem \<Rightarrow> addr option" where
  "strpbrk cs ct m = strpbrk_loop ct m cs"

definition strsep :: "addr \<Rightarrow> addr \<Rightarrow> mem \<Rightarrow> (addr \<times> mem) option" where
  "strsep s ct m =
     (let sbegin = load32 m s in
      if sbegin = NULL then Some (NULL, m)
      else Option.bind (strpbrk sbegin ct m) (\<lambda>e.
        if e \<noteq> NULL then Some (sbegin, store32 s (e + 1) (m(e := 0))) else Some (sbegin, store32 s e m)))"

section \<open>Copying\<close>

lemma set_loop_eq: "set_loop p c n m = put_bytes p (replicate n c) m"
  by (induction n arbitrary: p m) simp_all

lemma copy_loop_eq:
  assumes "bytes_at m q bs" "region d (length bs) \<inter> region q (length bs) = {}"
  shows "copy_loop d q (length bs) m = put_bytes d bs m"
  using assms
proof (induction bs arbitrary: d q m)
  case (Cons b bs)
  have "same_on (region (q + 1) (length bs)) m (m(d := b))"
    using Cons.prems(2) by (auto simp: region_Suc same_on_def)
  then have "bytes_at (m(d := b)) (q + 1) bs" using Cons.prems(1) by (simp add: bytes_at_same)
  moreover have "region (d + 1) (length bs) \<inter> region (q + 1) (length bs) = {}" using Cons.prems(2) by (auto simp: region_Suc)
  ultimately show ?case using Cons.prems(1) Cons.IH [of "m(d := b)" "q + 1" "d + 1"] by (simp del: fun_upd_apply)
qed simp

lemma cstr_step:
  assumes "cstr m q (b # s)" "d \<notin> region q (Suc (length (b # s)))"
  shows "cstr (m(d := v)) (q + 1) s" "m q = b" "b \<noteq> 0"
proof -
  have "same_on (region (q + 1) (Suc (length s))) m (m(d := v))"
    using assms(2) by (auto simp: region_Suc same_on_def)
  then show "cstr (m(d := v)) (q + 1) s" using assms(1) by (simp add: cstr_same)
qed (use assms(1) in simp_all)

lemma strcpy_loop_eq:
  assumes "cstr m q s" "region d (Suc (length s)) \<inter> region q (Suc (length s)) = {}"
  shows "strcpy_loop d q m = Some (put_bytes d (s @ [0]) m)"
  using assms
proof (induction s arbitrary: d q m)
  case Nil
  then show ?case by (simp add: strcpy_loop.simps del: fun_upd_apply)
next
  case (Cons b s)
  have d: "d \<notin> region q (Suc (length (b # s)))" using Cons.prems(2) by (auto simp: region_Suc)
  note st = cstr_step [OF Cons.prems(1) d]
  have "region (d + 1) (Suc (length s)) \<inter> region (q + 1) (Suc (length s)) = {}"
    using Cons.prems(2) by (auto simp: region_Suc)
  then have "strcpy_loop (d + 1) (q + 1) (m(d := b)) = Some (put_bytes (d + 1) (s @ [0]) (m(d := b)))"
    using Cons.IH [OF st(1)] by blast
  then show ?case using st(2,3) by (subst strcpy_loop.simps) (simp del: fun_upd_apply)
qed

lemma strncpy_loop_eq:
  assumes "cstr m q s" "region d n \<inter> region q (Suc (length s)) = {}"
  shows "strncpy_loop d q n m = put_bytes d (take n s @ replicate (n - length s) 0) m"
  using assms
proof (induction s arbitrary: d q m n)
  case Nil
  then show ?case by (cases n) (simp_all add: set_loop_eq del: fun_upd_apply)
next
  case (Cons b s)
  show ?case
  proof (cases n)
    case (Suc k)
    have d: "d \<notin> region q (Suc (length (b # s)))" using Cons.prems(2) by (auto simp: region_Suc Suc)
    note st = cstr_step [OF Cons.prems(1) d]
    have "region (d + 1) k \<inter> region (q + 1) (Suc (length s)) = {}"
      using Cons.prems(2) by (auto simp: region_Suc Suc)
    then show ?thesis using Cons.IH [OF st(1)] st(2,3) by (simp add: Suc Let_def del: fun_upd_apply)
  qed simp
qed

lemma strncat_loop_eq:
  assumes "cstr m q s" "region d (Suc (min n (length s))) \<inter> region q (Suc (length s)) = {}" "0 < n"
  shows "strncat_loop d q n m = put_bytes d (take n s @ [0]) m"
  using assms
proof (induction s arbitrary: d q m n)
  case Nil
  then show ?case by (cases n) (simp_all add: Let_def del: fun_upd_apply)
next
  case (Cons b s)
  obtain k where n: "n = Suc k" using Cons.prems(3) by (cases n) auto
  have d: "d \<notin> region q (Suc (length (b # s)))" using Cons.prems(2) by (auto simp: region_Suc)
  note st = cstr_step [OF Cons.prems(1) d]
  have "region (d + 1) (Suc (min k (length s))) \<inter> region (q + 1) (Suc (length s)) = {}"
    using Cons.prems(2) by (auto simp: region_Suc n)
  then show ?case using Cons.IH [OF st(1), of "d + 1" k] st(2,3)
    by (cases "k = 0") (simp_all add: n Let_def del: fun_upd_apply)
qed

lemma strend_loop_eq: "cstr m p s \<Longrightarrow> strend_loop m p = Some (p + of_nat (length s))"
proof (induction s arbitrary: p)
  case Nil
  then show ?case by (simp add: strend_loop.simps)
next
  case (Cons b s)
  then show ?case by (subst strend_loop.simps) (simp add: add.assoc)
qed

lemma strlen_eq: "cstr m p s \<Longrightarrow> p \<noteq> 0 \<Longrightarrow> strlen p m = Some (of_nat (length s))"
  by (simp add: strlen_def strend_loop_eq)

lemma strnlen_loop_eq: "cstr m p s \<Longrightarrow> strnlen_loop m p n = p + of_nat (min n (length s))"
proof (induction s arbitrary: p n)
  case (Cons b s)
  then show ?case by (cases n) (simp_all add: add.assoc)
qed (case_tac n; simp)

section \<open>Searching\<close>

lemma strchr_loop_eq:
  "cstr m p s \<Longrightarrow> strchr_loop c m p =
     Some (if c \<in> set (s @ [0]) then p + of_nat (length (takeWhile (\<lambda>x. x \<noteq> c) (s @ [0]))) else NULL)"
proof (induction s arbitrary: p)
  case Nil
  then show ?case by (simp add: strchr_loop.simps)
next
  case (Cons b s)
  then show ?case by (subst strchr_loop.simps) (auto simp: add.assoc)
qed

lemma member_loop_eq: "cstr m p s \<Longrightarrow> member_loop c m p = Some (c \<in> set s)"
proof (induction s arbitrary: p)
  case Nil
  then show ?case by (simp add: member_loop.simps)
next
  case (Cons b s)
  then show ?case by (subst member_loop.simps) auto
qed

lemma strpbrk_loop_eq:
  assumes "cstr m ct ds" "cstr m p s"
  shows "strpbrk_loop ct m p =
    Some (if set s \<inter> set ds = {} then NULL else p + of_nat (length (takeWhile (\<lambda>x. x \<notin> set ds) s)))"
  using assms(2)
proof (induction s arbitrary: p)
  case Nil
  then show ?case by (simp add: strpbrk_loop.simps)
next
  case (Cons b s)
  then show ?case by (subst strpbrk_loop.simps) (auto simp: member_loop_eq [OF assms(1)] add.assoc)
qed

definition last_found :: "u8 \<Rightarrow> u8 list \<Rightarrow> addr \<Rightarrow> nat \<Rightarrow> addr \<Rightarrow> bool" where
  "last_found c bs p i r \<longleftrightarrow>
     (\<exists>j \<le> i. r = p + of_nat j \<and> bs ! j = c \<and> (\<forall>k. j < k \<and> k \<le> i \<longrightarrow> bs ! k \<noteq> c)) \<or>
     (r = NULL \<and> (\<forall>k \<le> i. bs ! k \<noteq> c))"

lemma last_found_Suc: "last_found c bs p i r \<Longrightarrow> bs ! Suc i \<noteq> c \<Longrightarrow> last_found c bs p (Suc i) r"
  unfolding last_found_def by (metis le_Suc_eq)

lemma strrchr_loop_ok:
  assumes "bytes_at m p bs" "unat p + length bs \<le> 2 ^ 32" "p \<noteq> 0" "i < length bs"
  shows "\<exists>r. strrchr_loop c m p (p + of_nat i) = Some r \<and> last_found c bs p i r"
  using assms(4)
proof (induction i)
  case 0
  have "m p = bs ! 0" using assms(1) 0 unfolding bytes_at_nth by force
  moreover have "\<not> p \<le> p - 1" using assms(3) unat_gt_0 [of p] by (simp add: word_le_nat_alt unat_minus_one)
  ultimately show ?case by (subst strrchr_loop.simps) (auto simp: last_found_def)
next
  case (Suc i)
  have v: "m (p + of_nat (Suc i)) = bs ! Suc i" using assms(1) Suc.prems by (simp add: bytes_at_nth del: of_nat_Suc)
  have "p + of_nat i \<in> region p (length bs)" using Suc.prems by (auto simp: region_def)
  then have "p \<le> p + of_nat i" unfolding region_nowrap [OF assms(2)] by (simp add: word_le_nat_alt)
  then have step: "strrchr_loop c m p (p + of_nat (Suc i)) =
      (if bs ! Suc i = c then Some (p + of_nat (Suc i)) else strrchr_loop c m p (p + of_nat i))"
    using v by (subst strrchr_loop.simps) simp
  show ?case
  proof (cases "bs ! Suc i = c")
    case True
    then have "last_found c bs p (Suc i) (p + of_nat (Suc i))" by (auto simp: last_found_def)
    then show ?thesis using step True by simp
  next
    case False
    then show ?thesis using Suc step last_found_Suc by auto
  qed
qed

section \<open>Comparing\<close>

fun str_diff :: "(u8 \<Rightarrow> int) \<Rightarrow> u8 list \<Rightarrow> u8 list \<Rightarrow> int" where
  "str_diff f [] [] = 0"
| "str_diff f [] (b # t) = f 0 - f b"
| "str_diff f (a # s) [] = f a - f 0"
| "str_diff f (a # s) (b # t) = (if a = b then str_diff f s t else f a - f b)"

lemma str_diff_0: "inj f \<Longrightarrow> 0 \<notin> set s \<Longrightarrow> 0 \<notin> set t \<Longrightarrow> str_diff f s t = 0 \<longleftrightarrow> s = t"
  by (induction f s t rule: str_diff.induct) (auto simp: inj_eq)

lemma str_diff_neg:
  "inj f \<Longrightarrow> 0 \<notin> set s \<Longrightarrow> 0 \<notin> set t \<Longrightarrow>
    str_diff f s t < 0 \<longleftrightarrow> ord_class.lexordp (map f (s @ [0])) (map f (t @ [0]))"
proof (induction f s t rule: str_diff.induct)
  case (4 f a s b t)
  then show ?case using inj_eq [of f a b] by auto
next
  case (2 f b t)
  then show ?case using inj_eq [of f 0 b] by auto
next
  case (3 f a s)
  then show ?case using inj_eq [of f a 0] by auto
qed simp

lemma inj_uint: "inj (uint :: u8 \<Rightarrow> int)"
  by (simp add: inj_def word_uint_eq_iff)

lemma inj_sint: "inj (sint :: u8 \<Rightarrow> int)"
  by (rule injI) (rule signed_word_eqI)

lemma cstr_no_nul: "cstr m p s \<Longrightarrow> 0 \<notin> set s"
  by (simp add: cstr_bytes_at)

lemma strcmp_loop_eq: "cstr m p s \<Longrightarrow> cstr m q t \<Longrightarrow> strcmp_loop m p q = Some (str_diff sint s t)"
proof (induction "sint :: u8 \<Rightarrow> int" s t arbitrary: p q rule: str_diff.induct)
  case (4 a s b t)
  then show ?case by (subst strcmp_loop.simps) auto
qed (subst strcmp_loop.simps; auto)+

lemma strncmp_loop_eq:
  "cstr m p s \<Longrightarrow> cstr m q t \<Longrightarrow> strncmp_loop m p q n = str_diff uint (take n s) (take n t)"
proof (induction "uint :: u8 \<Rightarrow> int" s t arbitrary: p q n rule: str_diff.induct)
  case 1
  then show ?case by (cases n) auto
next
  case 2
  then show ?case by (cases n) auto
next
  case 3
  then show ?case by (cases n) auto
next
  case 4
  then show ?case by (cases n) auto
qed

lemma tolower_0: "tolower b = 0 \<longleftrightarrow> b = 0" "tolower 0 = 0"
proof -
  have "unat (tolower b) = 0 \<longleftrightarrow> unat b = 0" by (simp add: unat_tolower isupper_nat)
  then show "tolower b = 0 \<longleftrightarrow> b = 0" by (simp add: unat_eq_0)
  then show "tolower 0 = 0" by (simp add: tolower_def isupper_nat)
qed

lemma strcasecmp_loop_eq:
  "cstr m p s \<Longrightarrow> cstr m q t \<Longrightarrow> strcasecmp_loop m p q = Some (str_diff uint (map tolower s) (map tolower t))"
proof (induction s t arbitrary: p q rule: list_induct2')
  case (4 a s b t)
  then show ?case by (subst strcasecmp_loop.simps) auto
qed (subst strcasecmp_loop.simps; auto simp: tolower_0)+

lemma strncasecmp_loop_eq:
  "cstr m p s \<Longrightarrow> cstr m q t \<Longrightarrow>
    strncasecmp_loop m p q n = str_diff uint (map tolower (take n s)) (map tolower (take n t))"
proof (induction s t arbitrary: p q n rule: list_induct2')
  case 1
  then show ?case by (cases n) auto
next
  case 2
  then show ?case by (cases n) (auto simp: tolower_0)
next
  case 3
  then show ?case by (cases n) (auto simp: tolower_0)
next
  case 4
  then show ?case by (cases n) auto
qed

section \<open>Substrings and tokens\<close>

lemma strncmp_prefix:
  assumes "cstr m p s" "cstr m q t" "length t < 2 ^ 32"
  shows "strncmp p q (of_nat (length t)) m = 0 \<longleftrightarrow> take (length t) s = t"
proof -
  have n: "unat (of_nat (length t) :: u32) = length t" using assms(3) by (simp add: unat_of_nat)
  have "(of_nat (length t) :: u32) = 0 \<longleftrightarrow> t = []" using n by (metis length_0_conv unat_eq_zero)
  moreover have "0 \<notin> set (take (length t) s)" "0 \<notin> set t"
    using cstr_no_nul [OF assms(1)] cstr_no_nul [OF assms(2)] by (auto dest: in_set_takeD)
  ultimately show ?thesis
    using str_diff_0 [OF inj_uint, of "take (length t) s" t]
    by (auto simp: strncmp_def n strncmp_loop_eq [OF assms(1,2)])
qed

lemma strstr_loop_ok:
  assumes "cstr m f t" "length t < 2 ^ 32" "cstr m p s"
  shows "\<exists>r. strstr_loop c f (of_nat (length t)) m p = Some r \<and>
    ((\<exists>i < length s. r = p + of_nat i \<and> take (Suc (length t)) (drop i s) = c # t \<and>
       (\<forall>j < i. take (Suc (length t)) (drop j s) \<noteq> c # t)) \<or>
     (r = NULL \<and> (\<forall>j. take (Suc (length t)) (drop j s) \<noteq> c # t)))"
  using assms(3)
proof (induction s arbitrary: p)
  case Nil
  then show ?case by (simp add: strstr_loop.simps)
next
  case (Cons b s)
  have s: "cstr m (p + 1) s" "m p = b" "b \<noteq> 0" using Cons.prems by auto
  have step: "strstr_loop c f (of_nat (length t)) m p =
      (if take (Suc (length t)) (b # s) = c # t then Some p else strstr_loop c f (of_nat (length t)) m (p + 1))"
    using s strncmp_prefix [OF s(1) assms(1,2)] by (subst strstr_loop.simps) (auto simp: Let_def)
  show ?case
  proof (cases "take (Suc (length t)) (b # s) = c # t")
    case True
    then show ?thesis using step by (intro exI [of _ p]) auto
  next
    case False
    from Cons.IH [OF s(1)] obtain r where r: "strstr_loop c f (of_nat (length t)) m (p + 1) = Some r"
      and d: "(\<exists>i < length s. r = p + 1 + of_nat i \<and> take (Suc (length t)) (drop i s) = c # t \<and>
         (\<forall>j < i. take (Suc (length t)) (drop j s) \<noteq> c # t)) \<or>
       (r = NULL \<and> (\<forall>j. take (Suc (length t)) (drop j s) \<noteq> c # t))" by blast
    have shift: "(\<forall>j < Suc i. take (Suc (length t)) (drop j (b # s)) \<noteq> c # t) \<longleftrightarrow>
        (\<forall>j < i. take (Suc (length t)) (drop j s) \<noteq> c # t)" for i
      using False by (auto simp: less_Suc_eq_0_disj)
    from d show ?thesis
    proof
      assume "\<exists>i < length s. r = p + 1 + of_nat i \<and> take (Suc (length t)) (drop i s) = c # t \<and>
         (\<forall>j < i. take (Suc (length t)) (drop j s) \<noteq> c # t)"
      then obtain i where i: "i < length s" "r = p + 1 + of_nat i" "take (Suc (length t)) (drop i s) = c # t"
        "\<forall>j < i. take (Suc (length t)) (drop j s) \<noteq> c # t" by blast
      then have "Suc i < length (b # s)" "r = p + of_nat (Suc i)" "take (Suc (length t)) (drop (Suc i) (b # s)) = c # t"
        "\<forall>j < Suc i. take (Suc (length t)) (drop j (b # s)) \<noteq> c # t" using shift by (simp_all add: add.assoc)
      then show ?thesis using step False r by auto
    next
      assume n: "r = NULL \<and> (\<forall>j. take (Suc (length t)) (drop j s) \<noteq> c # t)"
      have "take (Suc (length t)) (drop j (b # s)) \<noteq> c # t" for j using n False by (cases j) auto
      then show ?thesis using step False r n by auto
    qed
  qed
qed

lemma store32_frame: "a \<notin> region p 4 \<Longrightarrow> store32 p v m a = m a"
  by (simp add: store32_def region_Suc numeral_eq_Suc add.assoc)

lemma cstr_cut:
  assumes "cstr m b (tok @ d # rest)" "unat b + length (tok @ d # rest) < 2 ^ 32"
  shows "cstr (m(b + of_nat (length tok) := 0)) b tok"
    "cstr (m(b + of_nat (length tok) := 0)) (b + of_nat (length tok) + 1) rest"
proof -
  let ?e = "b + of_nat (length tok)"
  have nw: "unat b + Suc (length tok + Suc (length rest)) \<le> 2 ^ 32" using assms(2) by simp
  have e: "?e \<notin> region b (length tok)" "?e \<notin> region (?e + 1) (Suc (length rest))"
  proof -
    have "unat (of_nat (length tok) :: addr) = length tok" using nw by (simp add: unat_of_nat)
    then have u: "unat ?e = unat b + length tok" using nw by (simp add: unat_word_ariths)
    have "unat b + length tok \<le> 2 ^ 32" using nw by linarith
    then show "?e \<notin> region b (length tok)" by (simp add: region_nowrap u)
    show "?e \<notin> region (?e + 1) (Suc (length rest))" using nw by (intro start_notin_region) simp
  qed
  have old: "bytes_at m b tok" "0 \<notin> set tok" "cstr m (?e + 1) rest" using assms(1) by (auto simp: cstr_append)
  have "same_on (region b (length tok)) m (m(?e := 0))" using e(1) by (simp add: same_on_upd)
  then have "bytes_at (m(?e := 0)) b tok" using old(1) by (simp add: bytes_at_same)
  then show "cstr (m(?e := 0)) b tok" using old(2) by (simp add: cstr_bytes_at bytes_at_append)
  have "same_on (region (?e + 1) (Suc (length rest))) m (m(?e := 0))" using e(2) by (simp add: same_on_upd)
  then show "cstr (m(?e := 0)) (?e + 1) rest" using old(3) by (simp add: cstr_same)
qed

lemma takeWhile_split:
  "set tok \<inter> D = {} \<Longrightarrow> d \<in> D \<Longrightarrow> takeWhile (\<lambda>x. x \<notin> D) (tok @ d # rest) = tok"
  by (subst takeWhile_append2) auto

section \<open>Properties\<close>

text \<open>
  C31. Copying: \<open>strcpy\<close> makes the destination an equal string, \<open>strncpy\<close> writes exactly \<open>n\<close> bytes,
  the first \<open>n\<close> characters padded with NULs, \<open>strcat\<close> and \<open>strncat\<close> leave the concatenation with
  the source or with its first \<open>n\<close> characters, always terminated. All return the
  destination, terminate, and change no byte outside the part they write.
\<close>

theorem string_copying:
  assumes "cstr m q t" "length t < 2 ^ 32"
  shows "(region d (Suc (length t)) \<inter> region q (Suc (length t)) = {} \<longrightarrow>
      (\<exists>m'. strcpy d q m = Some (d, m') \<and> cstr m' d t \<and> (\<forall>a. a \<notin> region d (Suc (length t)) \<longrightarrow> m' a = m a))) \<and>
    (region d (unat n) \<inter> region q (Suc (length t)) = {} \<longrightarrow>
      (\<exists>m'. strncpy d q n m = (d, m') \<and> bytes_at m' d (take (unat n) t @ replicate (unat n - length t) 0) \<and>
        (\<forall>a. a \<notin> region d (unat n) \<longrightarrow> m' a = m a))) \<and>
    (cstr m d s \<and> region d (Suc (length s + length t)) \<inter> region q (Suc (length t)) = {} \<and> length s + length t < 2 ^ 32 \<longrightarrow>
      (\<exists>m'. strcat d q m = Some (d, m') \<and> cstr m' d (s @ t) \<and>
        (\<forall>a. a \<notin> region (d + of_nat (length s)) (Suc (length t)) \<longrightarrow> m' a = m a)) \<and>
      (\<exists>m'. strncat d q n m = Some (d, m') \<and> cstr m' d (s @ take (unat n) t) \<and>
        (\<forall>a. a \<notin> region (d + of_nat (length s)) (Suc (min (unat n) (length t))) \<longrightarrow> m' a = m a)))"
proof (intro conjI impI)
  assume "region d (Suc (length t)) \<inter> region q (Suc (length t)) = {}"
  then show "\<exists>m'. strcpy d q m = Some (d, m') \<and> cstr m' d t \<and> (\<forall>a. a \<notin> region d (Suc (length t)) \<longrightarrow> m' a = m a)"
    using assms cstr_no_nul [OF assms(1)] put_bytes_frame [of _ d "t @ [0]" m]
    by (simp add: strcpy_def strcpy_loop_eq cstr_put_bytes)
next
  assume *: "region d (unat n) \<inter> region q (Suc (length t)) = {}"
  let ?bs = "take (unat n) t @ replicate (unat n - length t) 0"
  have "length ?bs = unat n" "length ?bs \<le> 2 ^ 32" using unsigned_less [of n, where ?'a = nat] by (simp_all add: min_def)
  then show "\<exists>m'. strncpy d q n m = (d, m') \<and> bytes_at m' d ?bs \<and> (\<forall>a. a \<notin> region d (unat n) \<longrightarrow> m' a = m a)"
    using bytes_at_put_bytes [of ?bs d m] put_bytes_frame [of _ d ?bs m]
    by (simp add: strncpy_def strncpy_loop_eq [OF assms(1) *])
next
  assume *: "cstr m d s \<and> region d (Suc (length s + length t)) \<inter> region q (Suc (length t)) = {} \<and> length s + length t < 2 ^ 32"
  let ?e = "d + of_nat (length s)"
  have app: "cstr (put_bytes ?e (u @ [0]) m) d (s @ u)" if "set u \<subseteq> set t" "length u \<le> length t" for u
    using that * cstr_no_nul [OF assms(1)] by (intro cstr_extend) auto
  have dis: "region ?e (Suc (length t)) \<inter> region q (Suc (length t)) = {}"
    using * region_add [of d "length s" "Suc (length t)"] by auto
  show "\<exists>m'. strcat d q m = Some (d, m') \<and> cstr m' d (s @ t) \<and> (\<forall>a. a \<notin> region ?e (Suc (length t)) \<longrightarrow> m' a = m a)"
    using strend_loop_eq [of m d s] * strcpy_loop_eq [OF assms(1) dis] app [of t] put_bytes_frame [of _ ?e "t @ [0]" m]
    by (simp add: strcat_def)
  show "\<exists>m'. strncat d q n m = Some (d, m') \<and> cstr m' d (s @ take (unat n) t) \<and>
      (\<forall>a. a \<notin> region ?e (Suc (min (unat n) (length t))) \<longrightarrow> m' a = m a)"
  proof (cases "n = 0")
    case True
    then show ?thesis using * by (simp add: strncat_def)
  next
    case False
    let ?u = "take (unat n) t"
    have "region ?e (Suc (min (unat n) (length t))) \<inter> region q (Suc (length t)) = {}"
      using dis region_mono [of "Suc (min (unat n) (length t))" "Suc (length t)" ?e] by auto
    then have "strncat_loop ?e q (unat n) m = put_bytes ?e (?u @ [0]) m"
      using False unat_gt_0 [of n] by (intro strncat_loop_eq [OF assms(1)]) auto
    then show ?thesis
      using False strend_loop_eq [of m d s] * app [of ?u] put_bytes_frame [of _ ?e "?u @ [0]" m] set_take_subset [of "unat n" t]
      by (simp add: strncat_def min.commute)
  qed
qed


definition demo_mem :: mem where
  "demo_mem = put_bytes 0x3000 [44, 0] (put_bytes 0x2000 [0x80, 0] (put_bytes 0x1000 [97, 44, 98, 0] (\<lambda>_. 0)))"

lemma demo_strings: "cstr demo_mem 0x1000 [97, 44, 98]" "cstr demo_mem 0x2000 [0x80]" "cstr demo_mem 0x3000 [44]"
  by (simp_all add: demo_mem_def)

theorem string_copying_witness:
  "\<exists>m'. strcat 0x1000 0x2000 demo_mem = Some (0x1000, m') \<and> cstr m' 0x1000 [97, 44, 98, 0x80]"
proof -
  have "region 0x1000 (Suc (length [97 :: u8, 44, 98] + length [0x80 :: u8])) \<inter> region 0x2000 (Suc (length [0x80 :: u8])) = {}"
    by (rule region_disjoint) simp_all
  then show ?thesis
    using string_copying [OF demo_strings(2), of "0x1000" 0 "[97, 44, 98]"] demo_strings(1) by auto
qed

text \<open>
  C32. Searching: on a terminated string every search returns; \<open>strlen\<close> and \<open>strnlen\<close> give the
  (bounded) length, \<open>strchr\<close> the first and \<open>strrchr\<close> the last occurrence of a character, the terminating
  NUL included, \<open>strpbrk\<close> the first character of a set, and \<open>strstr\<close> the first occurrence
  of a substring; \<open>NULL\<close> stands for none.
\<close>

theorem string_searching:
  assumes "cstr m p s" "p \<noteq> 0" "unat p + length s < 2 ^ 32" "cstr m q t" "unat q + length t < 2 ^ 32"
  shows "strlen p m = Some (of_nat (length s)) \<and>
    strnlen p n m = of_nat (min (unat n) (length s)) \<and>
    strchr p c m = Some (if ucast c \<in> set (s @ [0]) then p + of_nat (length (takeWhile (\<lambda>x. x \<noteq> ucast c) (s @ [0]))) else NULL) \<and>
    (\<exists>r. strrchr p c m = Some r \<and> last_found (ucast c) (s @ [0]) p (length s) r) \<and>
    strpbrk p q m = Some (if set s \<inter> set t = {} then NULL else p + of_nat (length (takeWhile (\<lambda>x. x \<notin> set t) s))) \<and>
    (\<exists>r. strstr p q m = Some r \<and>
      ((\<exists>i. r = p + of_nat i \<and> take (length t) (drop i s) = t \<and> (\<forall>j < i. take (length t) (drop j s) \<noteq> t)) \<or>
       (r = NULL \<and> (\<forall>j. take (length t) (drop j s) \<noteq> t))))"
proof (intro conjI)
  show "strlen p m = Some (of_nat (length s))" using assms(1,2) by (rule strlen_eq)
  show "strnlen p n m = of_nat (min (unat n) (length s))" using assms(2) strnlen_loop_eq [OF assms(1)] by (simp add: strnlen_def)
  show "strchr p c m = Some (if ucast c \<in> set (s @ [0]) then p + of_nat (length (takeWhile (\<lambda>x. x \<noteq> ucast c) (s @ [0]))) else NULL)"
    unfolding strchr_def using assms(1) by (rule strchr_loop_eq)
  show "strpbrk p q m = Some (if set s \<inter> set t = {} then NULL else p + of_nat (length (takeWhile (\<lambda>x. x \<notin> set t) s)))"
    unfolding strpbrk_def using assms(4,1) by (rule strpbrk_loop_eq)
  have "bytes_at m p (s @ [0])" using assms(1) by (simp add: cstr_bytes_at)
  then have "\<exists>r. strrchr_loop (ucast c) m p (p + of_nat (length s)) = Some r \<and> last_found (ucast c) (s @ [0]) p (length s) r"
    using assms(2,3) by (intro strrchr_loop_ok) simp_all
  then show "\<exists>r. strrchr p c m = Some r \<and> last_found (ucast c) (s @ [0]) p (length s) r"
    using strlen_eq [OF assms(1,2)] by (simp add: strrchr_def)
  show "\<exists>r. strstr p q m = Some r \<and>
      ((\<exists>i. r = p + of_nat i \<and> take (length t) (drop i s) = t \<and> (\<forall>j < i. take (length t) (drop j s) \<noteq> t)) \<or>
       (r = NULL \<and> (\<forall>j. take (length t) (drop j s) \<noteq> t)))"
  proof (cases t)
    case Nil
    then show ?thesis using assms(4) by (intro exI [of _ p]) (auto simp: strstr_def intro: exI [of _ 0])
  next
    case (Cons a u)
    have "unat q + 1 < 2 ^ 32" using assms(5) by (simp add: Cons)
    then have "unat (q + 1) = unat q + 1" by (simp add: unat_word_ariths)
    then have "q + 1 \<noteq> 0" by (metis add_is_0 unat_0 zero_neq_one)
    moreover have u: "cstr m (q + 1) u" "m q = a" "a \<noteq> 0" "length u < 2 ^ 32" using assms(4,5) by (auto simp: Cons)
    ultimately show ?thesis
      using strstr_loop_ok [OF u(1) u(4) assms(1), of a] by (auto simp: strstr_def strlen_eq Cons)
  qed
qed

theorem string_searching_witness:
  "strlen 0x1000 demo_mem = Some 3 \<and> strchr 0x1000 44 demo_mem = Some 0x1001"
  using string_searching [OF demo_strings(1) _ _ demo_strings(3), of 0 44] by simp

text \<open>
  C33. Comparing: \<open>strcmp\<close>, \<open>strncmp\<close>, \<open>strcasecmp\<close> and \<open>strncasecmp\<close> return 0 exactly on equal
  strings (up to \<open>n\<close> characters, up to case), and the sign of \<open>strcmp\<close> and \<open>strncmp\<close> is the
  lexicographic order, of signed characters for \<open>strcmp\<close> and of unsigned ones for \<open>strncmp\<close>: on
  characters from 0x80 on the two disagree.
\<close>

theorem string_comparing:
  assumes "cstr m p s" "cstr m q t"
  shows "(\<exists>r. strcmp p q m = Some r \<and> (r = 0 \<longleftrightarrow> s = t) \<and>
      (r < 0 \<longleftrightarrow> ord_class.lexordp (map sint (s @ [0])) (map sint (t @ [0])))) \<and>
    (strncmp p q n m = 0 \<longleftrightarrow> take (unat n) s = take (unat n) t) \<and>
    (strncmp p q n m < 0 \<longleftrightarrow>
      ord_class.lexordp (map uint (take (unat n) s @ [0])) (map uint (take (unat n) t @ [0]))) \<and>
    (\<exists>r. strcasecmp p q m = Some r \<and> (r = 0 \<longleftrightarrow> map tolower s = map tolower t)) \<and>
    (strncasecmp p q n m = 0 \<longleftrightarrow> map tolower (take (unat n) s) = map tolower (take (unat n) t)) \<and>
    (s = [0x80] \<and> t = [1] \<and> n \<noteq> 0 \<longrightarrow> strcmp p q m = Some (-129) \<and> strncmp p q n m = 127)"
proof -
  note nn = cstr_no_nul [OF assms(1)] cstr_no_nul [OF assms(2)]
  have tk: "0 \<notin> set (take k s)" "0 \<notin> set (take k t)" for k using nn by (auto dest: in_set_takeD)
  have lo: "0 \<notin> set (map tolower (take k s))" "0 \<notin> set (map tolower (take k t))"
    "0 \<notin> set (map tolower s)" "0 \<notin> set (map tolower t)" for k
    using nn tk [of k] by (auto simp: tolower_0 dest!: sym [of 0])
  have n: "strncmp p q n m = str_diff uint (take (unat n) s) (take (unat n) t)"
    "strncasecmp p q n m = str_diff uint (map tolower (take (unat n) s)) (map tolower (take (unat n) t))"
    using strncmp_loop_eq [OF assms, of "unat n"] strncasecmp_loop_eq [OF assms, of "unat n"]
    by (simp_all add: strncmp_def strncasecmp_def)
  have "strcmp p q m = Some (str_diff sint s t)"
    "strcasecmp p q m = Some (str_diff uint (map tolower s) (map tolower t))"
    unfolding strcmp_def strcasecmp_def using strcmp_loop_eq [OF assms] strcasecmp_loop_eq [OF assms] by simp_all
  then show ?thesis
    using str_diff_0 [OF inj_sint nn] str_diff_neg [OF inj_sint nn] str_diff_0 [OF inj_uint tk] str_diff_neg [OF inj_uint tk]
      str_diff_0 [OF inj_uint lo(3,4)] str_diff_0 [OF inj_uint lo(1,2)] unat_gt_0 [of n]
    by (cases "unat n") (simp_all add: n, simp_all add: strncmp_def strncasecmp_def)
qed


definition demo_mem2 :: mem where
  "demo_mem2 = put_bytes 0x2000 [1, 0] (put_bytes 0x1000 [0x80, 0] (\<lambda>_. 0))"

theorem string_comparing_witness:
  "strcmp 0x1000 0x2000 demo_mem2 = Some (-129) \<and> strncmp 0x1000 0x2000 1 demo_mem2 = 127"
proof -
  have "cstr demo_mem2 0x1000 [0x80]" "cstr demo_mem2 0x2000 [1]" by (simp_all add: demo_mem2_def)
  then show ?thesis using string_comparing [of demo_mem2 "0x1000" "[0x80]" "0x2000" "[1]" 1] by simp
qed

text \<open>
  Tokens: \<open>strsep\<close> returns the start of the string, cut at the first delimiter, and advances
  the caller's pointer to the rest; without a delimiter the whole string is the last token and
  the pointer becomes \<open>NULL\<close>, on which the next call returns \<open>NULL\<close> and changes nothing.
\<close>

theorem strsep_tokens:
  assumes "load32 m sp = b" "b \<noteq> 0" "cstr m b s" "unat b + length s < 2 ^ 32" "cstr m ct ds"
    "region sp 4 \<inter> region b (Suc (length s)) = {}"
  shows "(s = tok @ d # rest \<and> set tok \<inter> set ds = {} \<and> d \<in> set ds \<longrightarrow>
      (\<exists>m'. strsep sp ct m = Some (b, m') \<and> cstr m' b tok \<and> load32 m' sp = b + of_nat (length tok) + 1 \<and>
         cstr m' (load32 m' sp) rest)) \<and>
    (set s \<inter> set ds = {} \<longrightarrow>
      (\<exists>m'. strsep sp ct m = Some (b, m') \<and> cstr m' b s \<and> load32 m' sp = NULL \<and> strsep sp ct m' = Some (NULL, m')))"
proof (intro conjI impI)
  have out: "same_on (region b (Suc (length s))) u (store32 sp v u)" for u v
    unfolding same_on_def using assms(6) store32_frame by blast
  have brk: "strpbrk b ct m = Some (if set s \<inter> set ds = {} then NULL else b + of_nat (length (takeWhile (\<lambda>x. x \<notin> set ds) s)))"
    unfolding strpbrk_def using assms(5,3) by (rule strpbrk_loop_eq)
  show "\<exists>m'. strsep sp ct m = Some (b, m') \<and> cstr m' b tok \<and> load32 m' sp = b + of_nat (length tok) + 1 \<and> cstr m' (load32 m' sp) rest"
    if split: "s = tok @ d # rest \<and> set tok \<inter> set ds = {} \<and> d \<in> set ds"
  proof -
    let ?e = "b + of_nat (length tok)"
    let ?m = "store32 sp (?e + 1) (m(?e := 0))"
    have in_s: "?e \<in> region b (Suc (length s))" using split by (auto simp: region_def)
    then have "unat b \<le> unat ?e" using assms(4) by (simp add: region_nowrap)
    then have "?e \<noteq> NULL" using assms(2) by (auto simp: NULL_def unat_eq_0)
    then have call: "strsep sp ct m = Some (b, ?m)"
      using brk split assms(1,2) takeWhile_split [of tok "set ds" d rest] by (auto simp: strsep_def NULL_def)
    have sub: "region b (Suc (length tok)) \<subseteq> region b (Suc (length s))" using split by (intro region_mono) simp
    have "region b (Suc (length s)) = region b (Suc (length tok)) \<union> region (?e + 1) (Suc (length rest))"
      using region_add [of b "Suc (length tok)" "Suc (length rest)"] split by (simp add: ac_simps)
    then have s2: "same_on (region (?e + 1) (Suc (length rest))) (m(?e := 0)) ?m"
      using out [of "m(?e := 0)" "?e + 1"] by (auto intro: same_on_subset)
    have s1: "same_on (region b (Suc (length tok))) (m(?e := 0)) ?m" using out sub by (rule same_on_subset)
    have cut: "cstr (m(?e := 0)) b tok" "cstr (m(?e := 0)) (?e + 1) rest"
      using cstr_cut [of m b tok d rest] split assms(3,4) by auto
    show ?thesis
      using call cut cstr_same [OF s1] cstr_same [OF s2] by (simp add: load32_store32)
  qed
  show "\<exists>m'. strsep sp ct m = Some (b, m') \<and> cstr m' b s \<and> load32 m' sp = NULL \<and> strsep sp ct m' = Some (NULL, m')"
    if "set s \<inter> set ds = {}"
    using that brk assms(1-3) cstr_same [OF out [of m NULL]]
    by (auto simp: strsep_def NULL_def load32_store32)
qed

theorem strsep_tokens_witness:
  "\<exists>m'. strsep 0x4000 0x3000 (store32 0x4000 0x1000 demo_mem) = Some (0x1000, m') \<and> cstr m' 0x1000 [97] \<and>
     cstr m' (load32 m' 0x4000) [98]"
proof -
  let ?m = "store32 0x4000 0x1000 demo_mem"
  have "cstr ?m 0x1000 [97, 44, 98]" "cstr ?m 0x3000 [44]" by (simp_all add: demo_mem_def store32_def)
  moreover have "region 0x4000 4 \<inter> region 0x1000 (Suc (length [97 :: u8, 44, 98])) = {}"
    using region_disjoint [of "0x1000" "Suc (length [97 :: u8, 44, 98])" "0x4000" 4] by auto
  ultimately show ?thesis
    using strsep_tokens [OF load32_store32, of "0x1000" "0x4000" demo_mem "[97, 44, 98]" "0x3000" "[44]" "[97]" 44 "[98]"] by auto
qed

lemma cmp_loop_eq:
  "bytes_at m p bs \<Longrightarrow> bytes_at m q cs \<Longrightarrow> length bs = length cs \<Longrightarrow> cmp_loop p q (length bs) m = 0 \<longleftrightarrow> bs = cs"
proof (induction bs arbitrary: p q cs)
  case (Cons b bs)
  then show ?case by (cases cs) (auto simp: Let_def word_uint_eq_iff)
qed simp

lemma memchr_loop_eq:
  "bytes_at m p bs \<Longrightarrow> memchr_loop p c (length bs) m =
     (if c \<in> set bs then p + of_nat (length (takeWhile (\<lambda>x. x \<noteq> c) bs)) else NULL)"
  by (induction bs arbitrary: p) (auto simp: add.assoc)

text \<open>
  C34. Memory blocks: \<open>memset\<close> and \<open>bzero\<close> fill exactly \<open>count\<close> bytes, \<open>memcpy\<close> copies a block
  that does not overlap its destination, and no other byte changes; \<open>memcmp\<close> is 0 exactly
  on equal blocks, and \<open>memchr\<close> finds the first occurrence.
\<close>

theorem memory_blocks:
  assumes "bytes_at m q bs" "length bs = unat n" "bytes_at m p cs" "length cs = unat n"
  shows "(\<exists>m'. memset d c n m = (d, m') \<and> bytes_at m' d (replicate (unat n) (ucast c)) \<and> (\<forall>a. a \<notin> region d (unat n) \<longrightarrow> m' a = m a)) \<and>
    bytes_at (bzero d n m) d (replicate (unat n) 0) \<and> (\<forall>a. a \<notin> region d (unat n) \<longrightarrow> bzero d n m a = m a) \<and>
    (region d (unat n) \<inter> region q (unat n) = {} \<longrightarrow>
      (\<exists>m'. memcpy d q n m = (d, m') \<and> bytes_at m' d bs \<and> (\<forall>a. a \<notin> region d (unat n) \<longrightarrow> m' a = m a))) \<and>
    (memcmp q p n m = 0 \<longleftrightarrow> bs = cs) \<and>
    memchr q c n m = (if ucast c \<in> set bs then q + of_nat (length (takeWhile (\<lambda>x. x \<noteq> ucast c) bs)) else NULL)"
proof -
  have le: "unat n \<le> 2 ^ 32" using unsigned_less [of n, where ?'a = nat] by simp
  have put: "bytes_at (put_bytes d xs m) d xs" "\<forall>a. a \<notin> region d (unat n) \<longrightarrow> put_bytes d xs m a = m a"
    if "length xs = unat n" for xs
    using that le bytes_at_put_bytes [of xs d m] put_bytes_frame [of _ d xs m] by auto
  have "memcpy d q n m = (d, put_bytes d bs m)" if "region d (unat n) \<inter> region q (unat n) = {}"
    using copy_loop_eq [OF assms(1), of d] that assms(2) by (simp add: memcpy_def)
  then show ?thesis
    using put [of bs] put [of "replicate (unat n) (ucast c)"] put [of "replicate (unat n) 0"] assms(2)
      cmp_loop_eq [OF assms(1,3)] memchr_loop_eq [OF assms(1), of "ucast c"] assms(4)
    by (simp add: memset_def bzero_def set_loop_eq memcmp_def memchr_def)
qed

theorem memory_blocks_witness:
  "\<exists>m'. memcpy 0x5000 0x1000 3 demo_mem = (0x5000, m') \<and> bytes_at m' 0x5000 [97, 44, 98]"
proof -
  have "bytes_at demo_mem 0x1000 [97, 44, 98]" by (simp add: demo_mem_def)
  moreover have "region 0x5000 (unat (3 :: u32)) \<inter> region 0x1000 (unat (3 :: u32)) = {}"
    using region_disjoint [of "0x1000" "unat (3 :: u32)" "0x5000" "unat (3 :: u32)"] by auto
  ultimately show ?thesis
    using memory_blocks [of demo_mem "0x1000" "[97, 44, 98]" 3 "0x1000" "[97, 44, 98]" "0x5000" 0] by auto
qed

end
