(* ===== verification/NumConv.thy ===== *)
theory NumConv
  imports CString
begin

text \<open>
  Numbers and text (first half of \<open>lib/vsprintf.c\<close>): the 64-bit division \<open>do_div\<close>, the parsers
  \<open>simple_strtoul\<close>, \<open>simple_strtol\<close>, \<open>simple_strtoull\<close>, \<open>simple_strtoll\<close> and \<open>skip_atoi\<close>, and
  the printer \<open>number\<close>. A result \<open>None\<close> stands for code that does not return or has no defined
  result: a division fault, or the overflow of a signed sum in \<open>skip_atoi\<close>. The field widths of
  \<open>number\<close> are unbounded integers; they stay in the range of \<open>int\<close> unless a precision comes
  within a few units of \<open>2^31\<close>; negating the least \<open>long long\<close> wraps, as on the target.

  Output goes through \<open>emit\<close>: every character is stored if the cursor has not passed the end of
  the buffer, and the cursor advances in any case. The lemmas relate each routine to a
  description on lists: the digits of a natural number, the value of a digit list, and the text
  \<open>number_text\<close>.
\<close>

section \<open>Division\<close>

text \<open>\<open>divl\<close> divides the 64-bit \<open>upper:low\<close>; it faults when the quotient needs more than 32 bits.\<close>

definition divl :: "u32 \<Rightarrow> u32 \<Rightarrow> u32 \<Rightarrow> (u32 \<times> u32) option" where
  "divl b upper low =
     (let d = unat upper * 2 ^ 32 + unat low in
      if b = 0 \<or> 2 ^ 32 \<le> d div unat b then None else Some (of_nat (d div unat b), of_nat (d mod unat b)))"

definition do_div :: "u64 \<Rightarrow> u32 \<Rightarrow> (u64 \<times> u32) option" where
  "do_div n b =
     (let low = ucast n; high = ucast (drop_bit 32 n);
          upper = (if high \<noteq> 0 then high mod b else high);
          high' = (if high \<noteq> 0 then high div b else high)
      in if b = 0 then None
         else map_option (\<lambda>(q, r). (push_bit 32 (ucast high') OR ucast q, r)) (divl b upper low))"

section \<open>Parsers\<close>

definition strtoul_value :: "u8 \<Rightarrow> u32" where
  "strtoul_value c = (if isdigit c then ucast c - 48 else ucast (toupper c) - 65 + 10)"

definition strtoull_value :: "u8 \<Rightarrow> u64" where
  "strtoull_value c =
     (if isdigit c then ucast c - 48 else ucast (if islower c then toupper c else c) - 65 + 10)"

text \<open>The common prologue: base 0 stands for octal after \<open>0\<close>, hexadecimal after \<open>0x\<close>, else decimal.\<close>

definition detect_base :: "mem \<Rightarrow> addr \<Rightarrow> u32 \<Rightarrow> addr \<times> u32" where
  "detect_base m cp b =
     (if b = 0 then
        (if m cp = 48 then
           (let cp = cp + 1 in
            if m cp = 120 \<and> isxdigit (m (cp + 1)) then (cp + 1, 16) else (cp, 8))
         else (cp, 10))
      else (cp, b))"

partial_function (option) strto_loop :: "(u8 \<Rightarrow> 'a :: len word) \<Rightarrow> u32 \<Rightarrow> mem \<Rightarrow> addr \<Rightarrow> 'a word \<Rightarrow> ('a word \<times> addr) option" where
  "strto_loop val b m cp result =
     (if isxdigit (m cp) \<and> val (m cp) < ucast b
      then strto_loop val b m (cp + 1) (result * ucast b + val (m cp))
      else Some (result, cp))"

definition set_endp :: "addr \<Rightarrow> addr \<Rightarrow> mem \<Rightarrow> mem" where
  "set_endp endp cp m = (if endp \<noteq> NULL then store32 endp cp m else m)"

definition simple_strtoul :: "addr \<Rightarrow> addr \<Rightarrow> u32 \<Rightarrow> mem \<Rightarrow> (u32 \<times> mem) option" where
  "simple_strtoul cp endp b m =
     (let (cp, b) = detect_base m cp b in
      map_option (\<lambda>(r, cp). (r, set_endp endp cp m)) (strto_loop strtoul_value b m cp 0))"

definition simple_strtol :: "addr \<Rightarrow> addr \<Rightarrow> u32 \<Rightarrow> mem \<Rightarrow> (u32 \<times> mem) option" where
  "simple_strtol cp endp b m =
     (if m cp = 45 then map_option (\<lambda>(r, m). (- r, m)) (simple_strtoul (cp + 1) endp b m)
      else simple_strtoul cp endp b m)"

definition simple_strtoull :: "addr \<Rightarrow> addr \<Rightarrow> u32 \<Rightarrow> mem \<Rightarrow> (u64 \<times> mem) option" where
  "simple_strtoull cp endp b m =
     (let (cp, b) = detect_base m cp b in
      map_option (\<lambda>(r, cp). (r, set_endp endp cp m)) (strto_loop strtoull_value b m cp 0))"

definition simple_strtoll :: "addr \<Rightarrow> addr \<Rightarrow> u32 \<Rightarrow> mem \<Rightarrow> (u64 \<times> mem) option" where
  "simple_strtoll cp endp b m =
     (if m cp = 45 then map_option (\<lambda>(r, m). (- r, m)) (simple_strtoull (cp + 1) endp b m)
      else simple_strtoull cp endp b m)"

definition INT_MAX :: int where "INT_MAX = 2147483647"

partial_function (option) skip_atoi_loop :: "mem \<Rightarrow> addr \<Rightarrow> int \<Rightarrow> (int \<times> addr) option" where
  "skip_atoi_loop m s i =
     (if isdigit (m s)
      then if i * 10 + uint (m s) \<le> INT_MAX then skip_atoi_loop m (s + 1) (i * 10 + uint (m s) - 48) else None
      else Some (i, s))"

definition skip_atoi :: "mem \<Rightarrow> addr \<Rightarrow> (int \<times> addr) option" where
  "skip_atoi m s = skip_atoi_loop m s 0"

section \<open>Printing a number\<close>

definition ZEROPAD :: u32 where "ZEROPAD = 1"
definition SIGN :: u32 where "SIGN = 2"
definition PLUS :: u32 where "PLUS = 4"
definition SPACE :: u32 where "SPACE = 8"
definition LEFT :: u32 where "LEFT = 16"
definition SPECIAL :: u32 where "SPECIAL = 32"
definition LARGE :: u32 where "LARGE = 64"

text \<open>\<open>small_digits\<close> and \<open>large_digits\<close>: the ten figures, then the letters.\<close>

definition small_digits :: "u8 list" where
  "small_digits = [48, 49, 50, 51, 52, 53, 54, 55, 56, 57, 97, 98, 99, 100, 101, 102, 103, 104, 105, 106, 107, 108, 109,
     110, 111, 112, 113, 114, 115, 116, 117, 118, 119, 120, 121, 122]"

definition large_digits :: "u8 list" where
  "large_digits = [48, 49, 50, 51, 52, 53, 54, 55, 56, 57, 65, 66, 67, 68, 69, 70, 71, 72, 73, 74, 75, 76, 77,
     78, 79, 80, 81, 82, 83, 84, 85, 86, 87, 88, 89, 90]"

type_synonym out = "addr \<times> mem"

definition emit :: "addr \<Rightarrow> u8 \<Rightarrow> out \<Rightarrow> out" where
  "emit e c st = (fst st + 1, if fst st \<le> e then (snd st)(fst st := c) else snd st)"

text \<open>The loop \<open>while (num != 0) tmp[i++] = digits[do_div(num, base)]\<close>; \<open>tmp\<close> is the list of the \<open>i\<close> characters.\<close>

partial_function (option) digits_loop :: "u8 list \<Rightarrow> u32 \<Rightarrow> u64 \<Rightarrow> u8 list \<Rightarrow> u8 list option" where
  "digits_loop digits b num tmp =
     (if num \<noteq> 0
      then Option.bind (do_div num b) (\<lambda>(q, r). digits_loop digits b q (tmp @ [digits ! unat r]))
      else Some tmp)"

text \<open>The loops \<open>while (size-- > 0)\<close>, \<open>while (i < precision--)\<close> and \<open>while (i-- > 0)\<close>.\<close>

function pad_loop :: "addr \<Rightarrow> u8 \<Rightarrow> int \<Rightarrow> out \<Rightarrow> int \<times> out" where
  "pad_loop e c sz st = (if sz > 0 then pad_loop e c (sz - 1) (emit e c st) else (sz - 1, st))"
  by auto
termination by (relation "measure (\<lambda>(e, c, sz, st). nat sz)") auto

function prec_loop :: "addr \<Rightarrow> int \<Rightarrow> int \<Rightarrow> out \<Rightarrow> out" where
  "prec_loop e i precision st = (if i < precision then prec_loop e i (precision - 1) (emit e 48 st) else st)"
  by auto
termination by (relation "measure (\<lambda>(e, i, precision, st). nat (precision - i))") auto

fun tmp_loop :: "addr \<Rightarrow> u8 list \<Rightarrow> nat \<Rightarrow> out \<Rightarrow> out" where
  "tmp_loop e tmp 0 st = st"
| "tmp_loop e tmp (Suc i) st = tmp_loop e tmp i (emit e (tmp ! i) st)"

definition number_sign :: "u64 \<Rightarrow> int \<Rightarrow> u32 \<Rightarrow> u8 \<times> u64 \<times> int" where
  "number_sign num sz ty =
     (if ty AND SIGN \<noteq> 0 then
        (if num <s 0 then (45, - num, sz - 1)
         else if ty AND PLUS \<noteq> 0 then (43, num, sz - 1)
         else if ty AND SPACE \<noteq> 0 then (32, num, sz - 1)
         else (0, num, sz))
      else (0, num, sz))"

definition number_special :: "addr \<Rightarrow> u8 list \<Rightarrow> int \<Rightarrow> u32 \<Rightarrow> out \<Rightarrow> out" where
  "number_special e digits b ty st =
     (if ty AND SPECIAL \<noteq> 0 then
        (if b = 8 then emit e 48 st
         else if b = 16 then emit e (digits ! 33) (emit e 48 st)
         else st)
      else st)"

text \<open>The part of \<open>number\<close> from \<open>if (i > precision)\<close> on: \<open>tmp\<close> holds the digits, least significant first.\<close>

definition number_out :: "addr \<Rightarrow> u8 list \<Rightarrow> int \<Rightarrow> u32 \<Rightarrow> u8 \<Rightarrow> u8 \<Rightarrow> u8 list \<Rightarrow> int \<Rightarrow> int \<Rightarrow> out \<Rightarrow> out" where
  "number_out e digits b ty c sign tmp sz precision st =
     (let i = int (length tmp);
          precision = (if i > precision then i else precision);
          sz = sz - precision;
          (sz, st) = (if ty AND (ZEROPAD + LEFT) = 0 then pad_loop e 32 sz st else (sz, st));
          st = (if sign \<noteq> 0 then emit e sign st else st);
          st = number_special e digits b ty st;
          (sz, st) = (if ty AND LEFT = 0 then pad_loop e c sz st else (sz, st));
          st = prec_loop e i precision st;
          st = tmp_loop e tmp (length tmp) st;
          (sz, st) = pad_loop e 32 sz st
      in st)"

definition number :: "addr \<Rightarrow> addr \<Rightarrow> u64 \<Rightarrow> int \<Rightarrow> int \<Rightarrow> int \<Rightarrow> u32 \<Rightarrow> mem \<Rightarrow> (addr \<times> mem) option" where
  "number buf e num b sz precision ty m =
     (let digits = (if ty AND LARGE \<noteq> 0 then large_digits else small_digits);
          ty = (if ty AND LEFT \<noteq> 0 then ty AND NOT ZEROPAD else ty)
      in if b < 2 \<or> b > 36 then Some (NULL, m)
      else
       (let c = (if ty AND ZEROPAD \<noteq> 0 then 48 else 32);
            (sign, num, sz) = number_sign num sz ty;
            sz = (if ty AND SPECIAL \<noteq> 0 then if b = 16 then sz - 2 else if b = 8 then sz - 1 else sz else sz)
        in Option.bind (if num = 0 then Some [48] else digits_loop digits (word_of_int b) num []) (\<lambda>tmp.
          Some (number_out e digits b ty c sign tmp sz precision (buf, m)))))"

declare pad_loop.simps [simp del] prec_loop.simps [simp del]

section \<open>Emitting lists\<close>

definition emits :: "addr \<Rightarrow> u8 list \<Rightarrow> out \<Rightarrow> out" where
  "emits e cs st = fold (emit e) cs st"

lemma emits_simps [simp]:
  "emits e [] st = st" "emits e (c # cs) st = emits e cs (emit e c st)" "emits e (cs @ ds) st = emits e ds (emits e cs st)"
  by (simp_all add: emits_def)

text \<open>What emitting leaves in memory: the part of the text up to the end of the buffer.\<close>

lemma emits_eq:
  "unat buf + length cs \<le> 2 ^ 32 \<Longrightarrow>
    emits e cs (buf, m) = (buf + of_nat (length cs), put_bytes buf (take (Suc (unat e) - unat buf) cs) m)"
proof (induction cs arbitrary: buf m)
  case (Cons c cs)
  show ?case
  proof (cases "cs = []")
    case True
    then show ?thesis by (auto simp: emit_def word_le_nat_alt take_Cons' )
  next
    case False
    then have "unat buf + 1 < 2 ^ 32" using Cons.prems by (cases cs) auto
    then have u: "unat (buf + 1) = Suc (unat buf)" by (simp add: unat_word_ariths)
    have "Suc (unat e) - unat buf = Suc (Suc (unat e) - unat (buf + 1))" if "unat buf \<le> unat e" using that u by simp
    moreover have "Suc (unat e) - unat buf = 0" if "\<not> unat buf \<le> unat e" using that by simp
    ultimately show ?thesis
      using Cons.IH [of "buf + 1"] Cons.prems u
      by (cases "buf \<le> e") (simp_all add: emit_def word_le_nat_alt add.assoc del: fun_upd_apply)
  qed
qed simp

lemma pad_loop_eq: "pad_loop e c sz st = ((if sz > 0 then - 1 else sz - 1), emits e (replicate (nat sz) c) st)"
proof (induction e c sz st rule: pad_loop.induct)
  case (1 e c sz st)
  have "nat sz = Suc (nat (sz - 1))" if "0 < sz" using that by simp
  then show ?case using 1 by (subst pad_loop.simps) auto
qed

lemma prec_loop_eq: "prec_loop e i p st = emits e (replicate (nat (p - i)) 48) st"
proof (induction e i p st rule: prec_loop.induct)
  case (1 e i p st)
  have "nat (p - i) = Suc (nat (p - 1 - i))" if "i < p" using that by simp
  then show ?case using 1 by (subst prec_loop.simps) auto
qed

lemma tmp_loop_eq: "n \<le> length tmp \<Longrightarrow> tmp_loop e tmp n st = emits e (rev (take n tmp)) st"
  by (induction n arbitrary: st) (simp_all add: take_Suc_conv_app_nth)

section \<open>Division is division\<close>

lemma or_low_high: "push_bit 32 (ucast (h :: u32)) OR ucast (l :: u32) = (of_nat (unat h * 2 ^ 32 + unat l) :: u64)"
proof -
  have "push_bit 32 (ucast h) OR ucast l = push_bit 32 (ucast h) + (ucast l :: u64)"
    by (rule disjunctive_add [symmetric]) (auto simp: bit_simps dest: bit_imp_le_length)
  also have "\<dots> = of_nat (unat h * 2 ^ 32 + unat l)"
    by (simp add: push_bit_eq_mult mult.commute)
  finally show ?thesis .
qed

lemma split_low_high:
  "unat (n :: u64) = unat (ucast (drop_bit 32 n) :: u32) * 2 ^ 32 + unat (ucast n :: u32)"
proof -
  have "unat n < 2 ^ 64" using unsigned_less [of n, where ?'a = nat] by simp
  then have "unat n div 2 ^ 32 < 2 ^ 32" by (simp add: less_mult_imp_div_less)
  then have "unat (ucast (drop_bit 32 n) :: u32) = unat n div 2 ^ 32"
    by (simp add: unsigned_ucast_eq unsigned_drop_bit_eq take_bit_eq_mod drop_bit_eq_div unat_div)
  moreover have "unat (ucast n :: u32) = unat n mod 2 ^ 32"
    by (simp add: unsigned_ucast_eq take_bit_eq_mod)
  ultimately show ?thesis by (simp add: div_mult_mod_eq)
qed

lemma two_digit_less: "u < b \<Longrightarrow> l < k \<Longrightarrow> u * k + l < b * (k :: nat)"
  using mult_le_mono1 [of "Suc u" b k] by simp

lemma long_division: "(h :: nat) * k + l = (h div b * k) * b + (h mod b * k + l)"
proof -
  have "h * k = (h div b * b + h mod b) * k" by simp
  then show ?thesis by (simp only: algebra_simps)
qed

lemma ucast_of_nat_32: "n < 2 ^ 32 \<Longrightarrow> (ucast (of_nat n :: u32) :: u64) = of_nat n"
  by (simp add: word_unat_eq_iff unsigned_ucast_eq unat_of_nat take_bit_eq_mod)

lemma do_div_eq:
  assumes "b \<noteq> 0"
  shows "do_div n b = Some (of_nat (unat n div unat b), of_nat (unat n mod unat b))"
proof -
  let ?low = "ucast n :: u32" and ?high = "ucast (drop_bit 32 n) :: u32"
  let ?b = "unat b" and ?d = "unat (?high mod b) * 2 ^ 32 + unat ?low"
  have b: "0 < ?b" using assms by (simp add: unat_gt_0)
  have "unat (?high mod b) < ?b" using b by (simp add: unat_mod)
  moreover have "unat ?low < 2 ^ 32" using unsigned_less [of ?low, where ?'a = nat] by simp
  ultimately have "?d < ?b * 2 ^ 32"
    by (rule two_digit_less)
  then have q: "?d div ?b < 2 ^ 32" using b by (simp add: div_less_iff_less_mult mult.commute)
  have n: "unat n = (unat (?high div b) * 2 ^ 32) * ?b + ?d"
    unfolding unat_div unat_mod split_low_high [of n] by (rule long_division)
  have "unat n div ?b = unat (?high div b) * 2 ^ 32 + ?d div ?b" "unat n mod ?b = ?d mod ?b"
    unfolding n using b by simp_all
  moreover have "unat (of_nat (?d div ?b) :: u32) = ?d div ?b" using q by (simp add: unat_of_nat)
  moreover have "do_div n b = map_option (\<lambda>(q, r). (push_bit 32 (ucast (?high div b)) OR ucast q, r)) (divl b (?high mod b) ?low)"
    using assms by (simp add: do_div_def Let_def)
  ultimately show ?thesis
    using assms q ucast_of_nat_32 [OF q] by (simp add: divl_def Let_def or_low_high)
qed

section \<open>Digits\<close>

text \<open>The digits of a number, least significant first, and the value of a digit sequence.\<close>

function nat_digits :: "nat \<Rightarrow> nat \<Rightarrow> nat list" where
  "nat_digits b n = (if n = 0 \<or> b < 2 then [] else n mod b # nat_digits b (n div b))"
  by auto
termination by (relation "measure snd") auto

declare nat_digits.simps [simp del]

definition digits_value :: "nat \<Rightarrow> nat list \<Rightarrow> nat" where
  "digits_value b ds = foldr (\<lambda>d r. d + b * r) ds 0"

lemma digits_value_nat_digits: "2 \<le> b \<Longrightarrow> digits_value b (nat_digits b n) = n"
proof (induction b n rule: nat_digits.induct)
  case (1 b n)
  then show ?case by (subst nat_digits.simps) (auto simp: digits_value_def)
qed

lemma nat_digits_bound: "2 \<le> b \<Longrightarrow> \<forall>d \<in> set (nat_digits b n). d < b"
proof (induction b n rule: nat_digits.induct)
  case (1 b n)
  then show ?case by (subst nat_digits.simps) auto
qed

lemma nat_digits_length: "n < 2 ^ k \<Longrightarrow> length (nat_digits b n) \<le> k"
proof (induction b n arbitrary: k rule: nat_digits.induct)
  case (1 b n)
  show ?case
  proof (cases "n = 0 \<or> b < 2")
    case True
    then show ?thesis by (subst nat_digits.simps) auto
  next
    case False
    then obtain j where k: "k = Suc j" using 1(2) by (cases k) auto
    have "n div b \<le> n div 2" using False by (intro div_le_mono2) auto
    also have "n div 2 < 2 ^ j" using 1(2) by (simp add: k less_mult_imp_div_less mult.commute)
    finally show ?thesis using False 1(1) [of j] by (subst nat_digits.simps) (auto simp: k)
  qed
qed

lemma digits_loop_eq:
  assumes "2 \<le> unat b"
  shows "digits_loop digits b num tmp = Some (tmp @ map (\<lambda>d. digits ! d) (nat_digits (unat b) (unat num)))"
proof (induction "unat num" arbitrary: num tmp rule: less_induct)
  case less
  show ?case
  proof (cases "num = 0")
    case True
    then show ?thesis by (simp add: digits_loop.simps nat_digits.simps)
  next
    case False
    let ?q = "unat num div unat b" and ?r = "unat num mod unat b"
    have b0: "b \<noteq> 0" using assms by auto
    have lt: "?q < unat num" using False assms unat_gt_0 [of num] by (intro div_less_dividend) auto
    have "unat num < 2 ^ 64" using unsigned_less [of num, where ?'a = nat] by simp
    then have q: "unat (of_nat ?q :: u64) = ?q" using lt by (simp add: unat_of_nat)
    have "?r < unat b" using assms by simp
    then have r: "unat (of_nat ?r :: u32) = ?r" using unsigned_less [of b, where ?'a = nat] by (simp add: unat_of_nat)
    have "digits_loop digits b num tmp = digits_loop digits b (of_nat ?q) (tmp @ [digits ! ?r])"
      using False b0 do_div_eq [of b num] r by (subst digits_loop.simps) auto
    also have "\<dots> = Some ((tmp @ [digits ! ?r]) @ map (\<lambda>d. digits ! d) (nat_digits (unat b) ?q))"
      using less [of "of_nat ?q"] lt q by simp
    finally show ?thesis
      using False assms by (subst nat_digits.simps) (simp add: unat_eq_0)
  qed
qed

section \<open>The text of a number\<close>

definition number_digits :: "u64 \<Rightarrow> int \<Rightarrow> u32 \<Rightarrow> u8 list" where
  "number_digits num b ty =
     (let digits = (if ty AND LARGE \<noteq> 0 then large_digits else small_digits) in
      if num = 0 then [48] else rev (map (\<lambda>d. digits ! d) (nat_digits (nat b) (unat num))))"

definition number_signs :: "u64 \<Rightarrow> u32 \<Rightarrow> u8 list" where
  "number_signs num ty =
     (if ty AND SIGN = 0 then [] else if num <s 0 then [45]
      else if ty AND PLUS \<noteq> 0 then [43] else if ty AND SPACE \<noteq> 0 then [32] else [])"

definition number_prefix :: "int \<Rightarrow> u32 \<Rightarrow> u8 list" where
  "number_prefix b ty =
     (if ty AND SPECIAL = 0 then [] else if b = 8 then [48]
      else if b = 16 then [48, if ty AND LARGE \<noteq> 0 then 88 else 120] else [])"

text \<open>
  The number as it should look: sign, prefix, digits with leading zeros up to the precision,
  brought to the field width by blanks on the left, by blanks on the right (\<open>LEFT\<close>) or by zeros
  after the prefix (\<open>ZEROPAD\<close>, unless \<open>LEFT\<close>).
\<close>

definition number_text :: "u64 \<Rightarrow> int \<Rightarrow> int \<Rightarrow> int \<Rightarrow> u32 \<Rightarrow> u8 list" where
  "number_text num b sz precision ty =
     (let mag = (if ty AND SIGN \<noteq> 0 \<and> num <s 0 then - num else num);
          ds = number_digits mag b ty;
          body = replicate (nat precision - length ds) 48 @ ds;
          head = number_signs num ty @ number_prefix b ty;
          fill = nat sz - length head - length body
      in if ty AND LEFT \<noteq> 0 then head @ body @ replicate fill 32
         else if ty AND ZEROPAD \<noteq> 0 then head @ replicate fill 48 @ body
         else replicate fill 32 @ head @ body)"

lemma flag_bits:
  "ty AND ZEROPAD = 0 \<longleftrightarrow> \<not> bit ty 0" "ty AND SIGN = 0 \<longleftrightarrow> \<not> bit ty 1" "ty AND PLUS = 0 \<longleftrightarrow> \<not> bit ty 2"
  "ty AND SPACE = 0 \<longleftrightarrow> \<not> bit ty 3" "ty AND LEFT = 0 \<longleftrightarrow> \<not> bit ty 4" "ty AND SPECIAL = 0 \<longleftrightarrow> \<not> bit ty 5"
  "ty AND LARGE = 0 \<longleftrightarrow> \<not> bit ty 6" "ty AND (ZEROPAD + LEFT) = 0 \<longleftrightarrow> \<not> bit ty 0 \<and> \<not> bit ty 4"
proof -
  note e = and_exp_eq_0_iff_not_bit [of ty]
  show z: "ty AND ZEROPAD = 0 \<longleftrightarrow> \<not> bit ty 0" and l: "ty AND LEFT = 0 \<longleftrightarrow> \<not> bit ty 4"
    using e [of 0] e [of 4] by (simp_all add: ZEROPAD_def LEFT_def)
  have "ZEROPAD + LEFT = ZEROPAD OR LEFT" by (simp add: ZEROPAD_def LEFT_def)
  then have "ty AND (ZEROPAD + LEFT) = (ty AND ZEROPAD) OR (ty AND LEFT)" by (simp add: bit.conj_disj_distrib)
  then show "ty AND (ZEROPAD + LEFT) = 0 \<longleftrightarrow> \<not> bit ty 0 \<and> \<not> bit ty 4" using z l by (simp add: or_eq_0_iff)
qed (use and_exp_eq_0_iff_not_bit [of ty 1] and_exp_eq_0_iff_not_bit [of ty 2] and_exp_eq_0_iff_not_bit [of ty 3]
      and_exp_eq_0_iff_not_bit [of ty 5] and_exp_eq_0_iff_not_bit [of ty 6] in
    \<open>simp_all add: SIGN_def PLUS_def SPACE_def SPECIAL_def LARGE_def\<close>)

lemma bit_clear_zeropad: "bit (ty AND NOT ZEROPAD) k \<longleftrightarrow> k \<noteq> 0 \<and> bit ty k"
  by (auto simp: ZEROPAD_def bit_simps dest: bit_imp_le_length)

lemma number_sign_eq:
  obtains sgn where "number_sign num sz ty = (sgn, if bit ty 1 \<and> num <s 0 then - num else num, sz - int (length (number_signs num ty)))"
    "\<And>e st. (if sgn \<noteq> 0 then emit e sgn st else st) = emits e (number_signs num ty) st"
  by (rule that [of "fst (number_sign num sz ty)"])
    (simp_all add: number_sign_def number_signs_def flag_bits)

lemma number_special_eq:
  assumes "digits = (if bit ty 6 then large_digits else small_digits)"
  shows "number_special e digits b ty st = emits e (number_prefix b ty) st"
    "(if ty AND SPECIAL \<noteq> 0 then if b = 16 then sz - 2 else if b = 8 then sz - 1 else sz else sz) =
       sz - int (length (number_prefix b ty))"
  by (simp_all add: number_special_def number_prefix_def flag_bits assms small_digits_def large_digits_def)

lemma number_clear_zeropad:
  "number_signs num (ty AND NOT ZEROPAD) = number_signs num ty" "number_prefix b (ty AND NOT ZEROPAD) = number_prefix b ty"
  by (simp_all add: number_signs_def number_prefix_def flag_bits bit_clear_zeropad)

lemma number_eq:
  assumes "2 \<le> b" "b \<le> 36"
  shows "number buf e num b sz precision ty m = Some (emits e (number_text num b sz precision ty) (buf, m))"
proof -
  define ty' where "ty' = (if bit ty 4 then ty AND NOT ZEROPAD else ty)"
  define digits where "digits = (if bit ty 6 then large_digits else small_digits)"
  define mag where "mag = (if bit ty 1 \<and> num <s 0 then - num else num)"
  define tmp where "tmp = rev (number_digits mag b ty)"
  have bits: "bit ty' k \<longleftrightarrow> bit ty k \<and> (k = 0 \<longrightarrow> \<not> bit ty 4)" for k
    by (auto simp: ty'_def bit_clear_zeropad)
  have parts: "number_signs num ty' = number_signs num ty" "number_prefix b ty' = number_prefix b ty"
    by (simp_all add: ty'_def number_clear_zeropad)
  obtain sgn where sgn: "number_sign num sz ty' = (sgn, mag, sz - int (length (number_signs num ty)))"
    "\<And>e st. (if sgn \<noteq> 0 then emit e sgn st else st) = emits e (number_signs num ty) st"
    using number_sign_eq [of num sz ty'] bits [of 1] by (auto simp: parts mag_def)
  have special: "number_special e digits b ty' st = emits e (number_prefix b ty) st"
    "(if ty' AND SPECIAL \<noteq> 0 then if b = 16 then sz - 2 else if b = 8 then sz - 1 else sz else sz) =
       sz - int (length (number_prefix b ty))" for st sz
    using number_special_eq(1) [of digits ty' e b] number_special_eq(2) [of digits ty' b] bits [of 6]
    by (simp_all add: digits_def parts)
  have ub: "unat (word_of_int b :: u32) = nat b" using assms by (simp add: unat_eq_nat_uint uint_word_of_int)
  have tmp: "(if mag = 0 then Some [48] else digits_loop digits (word_of_int b) mag []) = Some tmp"
    using assms digits_loop_eq [of "word_of_int b" digits mag "[]"]
    by (simp add: tmp_def number_digits_def ub digits_def flag_bits)
  define prec where "prec = (if int (length tmp) > precision then int (length tmp) else precision)"
  define rest where "rest = sz - int (length (number_signs num ty)) - int (length (number_prefix b ty)) - prec"
  have len: "length (number_digits mag b ty) = length tmp" "rev tmp = number_digits mag b ty" by (simp_all add: tmp_def)
  have fill: "nat sz - length (number_signs num ty @ number_prefix b ty) -
      length (replicate (nat precision - length tmp) (48 :: u8) @ rev tmp) = nat rest"
    "nat (prec - int (length tmp)) = nat precision - length tmp"
    by (auto simp: rest_def prec_def)
  have "(if ty AND SIGN \<noteq> 0 \<and> num <s 0 then - num else num) = mag" by (simp add: mag_def flag_bits)
  then have shape: "number_text num b sz precision ty =
     (let body = replicate (nat precision - length tmp) 48 @ rev tmp;
          head = number_signs num ty @ number_prefix b ty
      in if bit ty 4 then head @ body @ replicate (nat rest) 32
         else if bit ty 0 then head @ replicate (nat rest) 48 @ body else replicate (nat rest) 32 @ head @ body)"
    unfolding number_text_def Let_def using fill(1) by (simp only: len(2) [symmetric] flag_bits not_not length_rev)
  let ?c = "if ty' AND ZEROPAD \<noteq> 0 then 48 else 32"
  let ?sz = "sz - int (length (number_signs num ty)) - int (length (number_prefix b ty))"
  have e: "(if ty AND LEFT \<noteq> 0 then ty AND NOT ZEROPAD else ty) = ty'"
    "(if ty AND LARGE \<noteq> 0 then large_digits else small_digits) = digits"
    by (simp_all add: ty'_def digits_def flag_bits)
  have "number buf e num b sz precision ty m = Some (number_out e digits b ty' ?c sgn tmp ?sz precision (buf, m))"
    unfolding number_def Let_def e using assms by (simp only: sgn(1) prod.case special(2) tmp bind.bind_lunit) simp
  also have "number_out e digits b ty' ?c sgn tmp ?sz precision (buf, m) = emits e (number_text num b sz precision ty) (buf, m)"
    unfolding number_out_def Let_def prec_def [symmetric] rest_def [symmetric] special(1) sgn(2) shape flag_bits bits using fill(2)
    by (cases "bit ty 4"; cases "bit ty 0") (simp_all add: pad_loop_eq prec_loop_eq tmp_loop_eq)
  finally show ?thesis .
qed

section \<open>Reading a number\<close>

definition digit_val :: "u8 \<Rightarrow> nat" where
  "digit_val c = (if isdigit c then unat c - 48 else unat (toupper c) - 55)"

definition valid_digit :: "nat \<Rightarrow> u8 \<Rightarrow> bool" where
  "valid_digit b c \<longleftrightarrow> isxdigit c \<and> digit_val c < b"

definition text_value :: "nat \<Rightarrow> u8 list \<Rightarrow> nat \<Rightarrow> nat" where
  "text_value b cs r = foldl (\<lambda>r c. r * b + digit_val c) r cs"

text \<open>
  What the reading loop needs of a digit value expression: it agrees with \<open>digit_val\<close> on
  hexadecimal digits. Both parsers satisfy it.
\<close>

locale digit_reader =
  fixes val :: "u8 \<Rightarrow> 'a :: len word"
  assumes val: "isxdigit c \<Longrightarrow> unat (val c) = digit_val c" and wide: "32 \<le> LENGTH('a)"
begin

lemma base_unat: "unat (ucast (b :: u32) :: 'a word) = unat b"
proof -
  have "unat b < 2 ^ 32" using unsigned_less [of b, where ?'a = nat] by simp
  also have "\<dots> \<le> 2 ^ LENGTH('a)" using wide by (intro power_increasing) simp_all
  finally show ?thesis by (simp add: unsigned_ucast_eq take_bit_nat_eq_self)
qed

lemma val_less: "isxdigit c \<Longrightarrow> val c < ucast b \<longleftrightarrow> digit_val c < unat (b :: u32)"
  by (simp add: word_less_nat_alt val base_unat)

lemma val_of_nat: "isxdigit c \<Longrightarrow> val c = of_nat (digit_val c)"
  by (metis val of_nat_unat ucast_id)

lemma base_of_nat: "(ucast (b :: u32) :: 'a word) = of_nat (unat b)"
  by (metis base_unat of_nat_unat ucast_id)

lemma strto_loop_eq:
  "cstr m p s \<Longrightarrow> strto_loop val b m p (of_nat r) =
     Some (of_nat (text_value (unat b) (takeWhile (valid_digit (unat b)) s) r),
           p + of_nat (length (takeWhile (valid_digit (unat b)) s)))"
proof (induction s arbitrary: p r)
  case Nil
  then show ?case by (subst strto_loop.simps) (simp add: hx.zero_not_xdigit text_value_def)
next
  case (Cons c s)
  have s: "cstr m (p + 1) s" "m p = c" using Cons.prems by auto
  have step: "(of_nat r * ucast b + val c :: 'a word) = of_nat (r * unat b + digit_val c)" if "isxdigit c"
    using that by (simp only: val_of_nat base_of_nat of_nat_add of_nat_mult)
  show ?case
  proof (cases "valid_digit (unat b) c")
    case True
    then have x: "isxdigit c" "val c < ucast b" by (auto simp: valid_digit_def val_less)
    have "strto_loop val b m p (of_nat r) = strto_loop val b m (p + 1) (of_nat r * ucast b + val c)"
      using x s(2) by (subst strto_loop.simps) (simp only: simp_thms if_True)
    then have "strto_loop val b m p (of_nat r) = strto_loop val b m (p + 1) (of_nat (r * unat b + digit_val c))"
      by (simp only: step [OF x(1)])
    then show ?thesis
      unfolding Cons.IH [OF s(1)] using True by (simp add: text_value_def)
  next
    case False
    then show ?thesis using s by (subst strto_loop.simps) (auto simp: valid_digit_def val_less text_value_def)
  qed
qed

end

lemma unat_up: "unat (ucast (x :: u8) :: u32) = unat x" "unat (ucast (x :: u8) :: u64) = unat x"
  using u8_bound [of x] by (simp_all add: unsigned_ucast_eq take_bit_eq_mod)

lemma digit_val_word:
  assumes "isxdigit c"
  shows "unat (strtoul_value c) = digit_val c" "unat (strtoull_value c) = digit_val c"
proof -
  have u32: "unat (ucast x - 65 + 10 :: u32) = unat x - 55" "unat (ucast y - 48 :: u32) = unat y - 48"
    if "65 \<le> unat x" "48 \<le> unat y" for x y :: u8
  proof -
    have "(ucast x - 65 + 10 :: u32) = ucast x - 55" by simp
    then show "unat (ucast x - 65 + 10 :: u32) = unat x - 55" "unat (ucast y - 48 :: u32) = unat y - 48"
      using that by (simp_all add: unat_sub word_le_nat_alt unat_up)
  qed
  have u64: "unat (ucast x - 65 + 10 :: u64) = unat x - 55" "unat (ucast y - 48 :: u64) = unat y - 48"
    if "65 \<le> unat x" "48 \<le> unat y" for x y :: u8
  proof -
    have "(ucast x - 65 + 10 :: u64) = ucast x - 55" by simp
    then show "unat (ucast x - 65 + 10 :: u64) = unat x - 55" "unat (ucast y - 48 :: u64) = unat y - 48"
      using that by (simp_all add: unat_sub word_le_nat_alt unat_up)
  qed
  have letter: "65 \<le> unat (toupper c) \<and> (if islower c then toupper c else c) = toupper c" if "\<not> isdigit c"
    using assms that hx.up [of c] by (auto simp: isxdigit_nat isdigit_nat toupper_def)
  have digit: "48 \<le> unat c" if "isdigit c" using that by (simp add: isdigit_nat)
  show "unat (strtoul_value c) = digit_val c" "unat (strtoull_value c) = digit_val c"
    using letter digit u32(1) [of "toupper c" 48] u32(2) [of 65 c] u64(1) [of "toupper c" 48] u64(2) [of 65 c]
    by (cases "isdigit c"; simp add: strtoul_value_def strtoull_value_def digit_val_def)+
qed

interpretation ul: digit_reader strtoul_value
  by unfold_locales (simp_all add: digit_val_word)

interpretation ull: digit_reader strtoull_value
  by unfold_locales (simp_all add: digit_val_word)

section \<open>Printed numbers read back\<close>

lemma digit_chars_all:
  "\<forall>d < 16. \<forall>digits \<in> {small_digits, large_digits}. isxdigit (digits ! d) \<and> digit_val (digits ! d) = d"
proof -
  have "\<forall>d \<in> set [0..<16]. \<forall>digits \<in> {small_digits, large_digits}. isxdigit (digits ! d) \<and> digit_val (digits ! d) = d"
    by (simp add: upto_16 small_digits_def large_digits_def digit_val_def isxdigit_nat isdigit_nat unat_toupper islower_nat)
  then show ?thesis by simp
qed

lemma text_value_rev: "\<forall>d \<in> set ds. digit_val (f d) = d \<Longrightarrow> text_value b (rev (map f ds)) 0 = digits_value b ds"
  by (induction ds) (simp_all add: text_value_def digits_value_def)

lemma number_digits_read:
  assumes "2 \<le> b" "b \<le> 16"
  shows "\<forall>c \<in> set (number_digits num b ty). valid_digit (nat b) c" "text_value (nat b) (number_digits num b ty) 0 = unat num"
    "0 \<notin> set (number_digits num b ty)"
proof -
  let ?digits = "if ty AND LARGE \<noteq> 0 then large_digits else small_digits"
  let ?ds = "nat_digits (nat b) (unat num)"
  have ds: "\<forall>d \<in> set ?ds. d < nat b" using assms by (intro nat_digits_bound) simp
  have ch: "isxdigit (?digits ! d) \<and> digit_val (?digits ! d) = d" if "d \<in> set ?ds" for d
    using digit_chars_all that ds assms by (auto simp: nat_less_iff)
  have zero: "valid_digit (nat b) 48" using assms by (simp add: valid_digit_def digit_val_def isxdigit_nat isdigit_nat)
  show "\<forall>c \<in> set (number_digits num b ty). valid_digit (nat b) c"
    using ch ds zero by (auto simp: number_digits_def valid_digit_def)
  then show "0 \<notin> set (number_digits num b ty)" using hx.zero_not_xdigit by (auto simp: valid_digit_def)
  have "text_value (nat b) (rev (map (\<lambda>d. ?digits ! d) ?ds)) 0 = unat num"
    using ch assms by (subst text_value_rev) (simp_all add: digits_value_nat_digits)
  then show "text_value (nat b) (number_digits num b ty) 0 = unat num"
    by (simp add: number_digits_def text_value_def digit_val_def isdigit_nat)
qed

lemma number_digits_length: "length (number_digits num b ty) \<le> 64"
  using nat_digits_length [of "unat num" 64 "nat b"] unsigned_less [of num, where ?'a = nat] by (simp add: number_digits_def)

lemma takeWhile_all: "\<forall>x \<in> set xs. P x \<Longrightarrow> takeWhile P xs = xs"
  by (simp add: takeWhile_eq_all_conv)

lemma strtoull_digits:
  assumes "2 \<le> b" "b \<le> 16" "cstr m p (number_digits num b ty)"
  shows "simple_strtoull p endp (word_of_int b) m =
    Some (num, set_endp endp (p + of_nat (length (number_digits num b ty))) m)"
proof -
  have ub: "unat (word_of_int b :: u32) = nat b" using assms by (simp add: unat_eq_nat_uint uint_word_of_int)
  then have "unat (word_of_int b :: u32) \<noteq> 0" using assms(1) by simp
  then have "(word_of_int b :: u32) \<noteq> 0" by (simp add: unat_eq_0)
  then have "detect_base m p (word_of_int b) = (p, word_of_int b)" by (simp add: detect_base_def)
  then show ?thesis
    using ull.strto_loop_eq [OF assms(3), of "word_of_int b" 0] number_digits_read [OF assms(1,2), of num ty]
    by (simp add: simple_strtoull_def ub takeWhile_all)
qed

lemma number_plain:
  assumes "2 \<le> b" "b \<le> 16" "unat buf + 66 \<le> unat e" "ty \<in> {0, LARGE, SIGN, SIGN OR LARGE}"
  shows "\<exists>p m'. number buf e num b (- 1) (- 1) ty m = Some (p, m') \<and>
    cstr (m'(p := 0)) buf ((if ty AND SIGN \<noteq> 0 \<and> num <s 0 then [45] else []) @
      number_digits (if ty AND SIGN \<noteq> 0 \<and> num <s 0 then - num else num) b ty)"
proof -
  let ?neg = "ty AND SIGN \<noteq> 0 \<and> num <s 0"
  let ?ds = "number_digits (if ?neg then - num else num) b ty"
  define t where "t = (if ?neg then [45] else []) @ ?ds"
  have bits: "\<not> bit ty 0" "\<not> bit ty 2" "\<not> bit ty 3" "\<not> bit ty 4" "\<not> bit ty 5"
    using assms(4) by (auto simp: LARGE_def SIGN_def)
  then have text_t: "number_text num b (- 1) (- 1) ty = t"
    by (simp add: number_text_def number_signs_def number_prefix_def flag_bits Let_def t_def)
  have "length (if ?neg then [45 :: u8] else []) \<le> 1" "length ?ds \<le> 64" by (simp, rule number_digits_length)
  then have len: "length t \<le> 65" unfolding t_def length_append by linarith
  have "unat e < 2 ^ 32" using unsigned_less [of e, where ?'a = nat] by simp
  then have room: "unat buf + length t \<le> 2 ^ 32" "length t \<le> Suc (unat e) - unat buf" using len assms(3) by linarith+
  have "number buf e num b (- 1) (- 1) ty m = Some (buf + of_nat (length t), put_bytes buf t m)"
    using number_eq [of b buf e num "- 1" "- 1" ty m] assms(1,2) room by (simp add: text_t emits_eq)
  moreover have "(put_bytes buf t m)(buf + of_nat (length t) := 0) = put_bytes buf (t @ [0]) m"
    by (simp add: put_bytes_append)
  moreover have "0 \<notin> set t" using number_digits_read(3) [OF assms(1,2)] by (simp add: t_def)
  then have "cstr (put_bytes buf (t @ [0]) m) buf t" using len by (intro cstr_put_bytes) simp_all
  ultimately show ?thesis unfolding t_def by auto
qed

lemma padded_width:
  "n \<le> length (if A then h @ b @ replicate (n - length h - length b) x
     else if B then h @ replicate (n - length h - length b) y @ b else replicate (n - length h - length b) z @ h @ b)"
  by auto

lemma number_text_width: "nat sz \<le> length (number_text num b sz precision ty)"
  unfolding number_text_def Let_def by (rule padded_width)

section \<open>Properties\<close>

text \<open>
  C35. \<open>number\<close> prints exactly the text of the number: sign, prefix, leading zeros up to the
  precision and digits of the base, brought to the field width on the side the flags ask for; the
  part beyond the end of the buffer is counted and not stored, nothing outside the buffer changes,
  the text is never shorter than the field, and the digits always fit the 66 bytes of the local
  array. A base outside 2 to 36 prints nothing.
\<close>

theorem number_prints_text:
  assumes "unat buf + length (number_text num b sz precision ty) \<le> 2 ^ 32"
  shows "(2 \<le> b \<and> b \<le> 36 \<longrightarrow>
      number buf e num b sz precision ty m =
        Some (buf + of_nat (length (number_text num b sz precision ty)),
              put_bytes buf (take (Suc (unat e) - unat buf) (number_text num b sz precision ty)) m)) \<and>
    (b < 2 \<or> 36 < b \<longrightarrow> number buf e num b sz precision ty m = Some (NULL, m)) \<and>
    nat sz \<le> length (number_text num b sz precision ty) \<and> length (number_digits num b ty) \<le> 64"
proof (intro conjI impI)
  assume "2 \<le> b \<and> b \<le> 36"
  then show "number buf e num b sz precision ty m =
      Some (buf + of_nat (length (number_text num b sz precision ty)),
            put_bytes buf (take (Suc (unat e) - unat buf) (number_text num b sz precision ty)) m)"
    using assms number_eq [of b buf e num sz precision ty m] by (simp only: emits_eq)
next
  assume "b < 2 \<or> 36 < b"
  then show "number buf e num b sz precision ty m = Some (NULL, m)" by (simp add: number_def)
qed (rule number_text_width, rule number_digits_length)

theorem number_prints_text_witness:
  "number 0x1000 0x2000 (- 42) 10 6 (- 1) (SIGN OR ZEROPAD) (\<lambda>_. 0) =
     Some (0x1006, put_bytes 0x1000 [45, 48, 48, 48, 52, 50] (\<lambda>_. 0))"
proof -
  have t: "number_text (- 42) 10 6 (- 1) (SIGN OR ZEROPAD) = [45, 48, 48, 48, 52, 50]" by code_simp
  show ?thesis
    using number_prints_text [of "0x1000" "- 42" 10 6 "- 1" "SIGN OR ZEROPAD" "0x2000" "\<lambda>_. 0"] by (simp add: t)
qed

text \<open>
  C36. Round trip: a number printed by \<open>number\<close> in a base from 2 to 16, and terminated, is read back by
  \<open>simple_strtoull\<close> when printed without sign and by \<open>simple_strtoll\<close> when printed as a signed
  number; this holds for each of the \<open>2^64\<close> values, the least one included.
\<close>

theorem number_roundtrip:
  assumes "2 \<le> b" "b \<le> 16" "unat buf + 66 \<le> unat e"
  shows "\<exists>p m' q n'. number buf e num b (- 1) (- 1) (if lg then LARGE else 0) m = Some (p, m') \<and>
      simple_strtoull buf NULL (word_of_int b) (m'(p := 0)) = Some (num, m'(p := 0)) \<and>
      number buf e num b (- 1) (- 1) (if lg then SIGN OR LARGE else SIGN) m = Some (q, n') \<and>
      simple_strtoll buf NULL (word_of_int b) (n'(q := 0)) = Some (num, n'(q := 0))"
proof -
  let ?u = "if lg then LARGE else 0" and ?s = "if lg then SIGN OR LARGE else SIGN"
  have no_sign: "?u AND SIGN = 0" "?s AND SIGN \<noteq> 0" by (simp_all add: LARGE_def SIGN_def)
  have mem: "?u \<in> {0, LARGE, SIGN, SIGN OR LARGE}" "?s \<in> {0, LARGE, SIGN, SIGN OR LARGE}" by (cases lg; simp)+
  obtain p m' where u: "number buf e num b (- 1) (- 1) ?u m = Some (p, m')" "cstr (m'(p := 0)) buf (number_digits num b ?u)"
    using number_plain [OF assms mem(1), of num m] no_sign(1) by auto
  obtain q n' where s: "number buf e num b (- 1) (- 1) ?s m = Some (q, n')"
    "cstr (n'(q := 0)) buf ((if num <s 0 then [45] else []) @ number_digits (if num <s 0 then - num else num) b ?s)"
    using number_plain [OF assms mem(2), of num m] no_sign(2) by auto
  have "simple_strtoll buf NULL (word_of_int b) (n'(q := 0)) = Some (num, n'(q := 0))"
  proof (cases "num <s 0")
    case True
    then have "(n'(q := 0)) buf = 45" "cstr (n'(q := 0)) (buf + 1) (number_digits (- num) b ?s)" using s(2) by auto
    then show ?thesis
      using strtoull_digits [OF assms(1,2), of "n'(q := 0)" "buf + 1" "- num" ?s NULL]
      by (simp add: simple_strtoll_def set_endp_def)
  next
    case False
    then have c: "cstr (n'(q := 0)) buf (number_digits num b ?s)" using s(2) by simp
    then have "(n'(q := 0)) buf \<noteq> 45" using number_digits_read(1) [OF assms(1,2), of num ?s]
      by (cases "number_digits num b ?s") (auto simp: valid_digit_def isxdigit_nat)
    then show ?thesis
      using strtoull_digits [OF assms(1,2) c, of NULL] by (simp add: simple_strtoll_def set_endp_def del: fun_upd_apply)
  qed
  then show ?thesis
    using u s(1) strtoull_digits [OF assms(1,2) u(2), of NULL] by (auto simp: set_endp_def)
qed

theorem number_roundtrip_witness:
  "\<exists>q n'. number 0x1000 0x2000 (- 42) 16 (- 1) (- 1) SIGN (\<lambda>_. 0) = Some (q, n') \<and>
     simple_strtoll 0x1000 NULL 16 (n'(q := 0)) = Some (- 42, n'(q := 0))"
  using number_roundtrip [of 16 "0x1000" "0x2000" "- 42" False "\<lambda>_. 0"] by auto

lemma strtoul_base0: "simple_strtoul p endp 0 m = (case detect_base m p 0 of (q, b) \<Rightarrow> simple_strtoul q endp b m)"
  by (simp add: simple_strtoul_def detect_base_def Let_def)

text \<open>
  C37. Reading: on a terminated string \<open>simple_strtoul\<close> returns the value, modulo \<open>2^32\<close>, of the longest prefix
  of digits of the base, and stores the address of the first other character; with base 0 a leading
  \<open>0x\<close> before a hexadecimal digit selects base 16, another leading 0 base 8. Letters above
  \<open>f\<close> are digits of no base.
\<close>

theorem strtoul_reads:
  assumes "cstr m p s" "b \<noteq> 0"
  shows "simple_strtoul p endp b m =
      Some (of_nat (text_value (unat b) (takeWhile (valid_digit (unat b)) s) 0),
            set_endp endp (p + of_nat (length (takeWhile (valid_digit (unat b)) s))) m) \<and>
    (s = 48 # 120 # c # t \<and> isxdigit c \<longrightarrow> simple_strtoul p endp 0 m = simple_strtoul (p + 2) endp 16 m) \<and>
    (s = 48 # t \<and> \<not> (t \<noteq> [] \<and> hd t = 120 \<and> tl t \<noteq> [] \<and> isxdigit (hd (tl t))) \<longrightarrow>
      simple_strtoul p endp 0 m = simple_strtoul (p + 1) endp 8 m) \<and>
    (s = [] \<or> hd s \<noteq> 48 \<longrightarrow> simple_strtoul p endp 0 m = simple_strtoul p endp 10 m) \<and>
    (102 < unat c \<longrightarrow> \<not> valid_digit k c)"
proof (intro conjI impI)
  show "simple_strtoul p endp b m =
      Some (of_nat (text_value (unat b) (takeWhile (valid_digit (unat b)) s) 0),
            set_endp endp (p + of_nat (length (takeWhile (valid_digit (unat b)) s))) m)"
    using assms(2) ul.strto_loop_eq [OF assms(1), of b 0] by (simp add: simple_strtoul_def detect_base_def)
  note base0 = strtoul_base0 [of p endp m]
  have p2: "p + 1 + 1 = p + 2" by simp
  show "simple_strtoul p endp 0 m = simple_strtoul (p + 2) endp 16 m" if "s = 48 # 120 # c # t \<and> isxdigit c"
    unfolding base0 detect_base_def using assms(1) that by (simp add: p2 Let_def)
  show "simple_strtoul p endp 0 m = simple_strtoul (p + 1) endp 8 m"
    if h: "s = 48 # t \<and> \<not> (t \<noteq> [] \<and> hd t = 120 \<and> tl t \<noteq> [] \<and> isxdigit (hd (tl t)))"
  proof -
    have "m p = 48" "cstr m (p + 1) t" using assms(1) h by auto
    then have "\<not> (m (p + 1) = 120 \<and> isxdigit (m (p + 1 + 1)))"
      using h hx.zero_not_xdigit by (cases t; cases "tl t") auto
    then show ?thesis unfolding base0 detect_base_def using \<open>m p = 48\<close> by (auto simp: Let_def)
  qed
  show "simple_strtoul p endp 0 m = simple_strtoul p endp 10 m" if "s = [] \<or> hd s \<noteq> 48"
  proof -
    have "m p \<noteq> 48" using assms(1) that by (cases s) auto
    then show ?thesis unfolding base0 detect_base_def by simp
  qed
  show "\<not> valid_digit k c" if "102 < unat c" using that by (simp add: valid_digit_def isxdigit_nat)
qed

theorem strtoul_reads_witness:
  "simple_strtoul 0x1000 NULL 10 (put_bytes 0x1000 [52, 50, 97, 0] (\<lambda>_. 0)) =
     Some (42, put_bytes 0x1000 [52, 50, 97, 0] (\<lambda>_. 0))"
proof -
  have s: "cstr (put_bytes 0x1000 [52, 50, 97, 0] (\<lambda>_. 0)) 0x1000 [52, 50, 97]" by simp
  have "takeWhile (valid_digit 10) [52, 50, 97] = [52, 50]" "text_value 10 [52, 50] 0 = 42"
    by (simp_all add: valid_digit_def digit_val_def isxdigit_nat isdigit_nat text_value_def unat_toupper islower_nat)
  then show ?thesis using strtoul_reads [OF s, of 10 NULL] by (simp add: set_endp_def)
qed

end
