(* ===== verification/Printf.thy ===== *)
theory Printf
  imports NumConv
begin

text \<open>
  Formatted output (\<open>vsnprintf\<close>, \<open>snprintf\<close>, \<open>vsprintf\<close>, \<open>sprintf\<close> of \<open>lib/vsprintf.c\<close> and the
  argument macros of \<open>include/stdarg.h\<close>). The variable arguments are the words of memory from
  the address \<open>args\<close> on, as \<open>va_arg\<close> reads them. The parts of a conversion
  specification are read by one definition each, in the order of the code, and each conversion
  writes through \<open>emit\<close>. The address of the literal \<open>"<NULL>"\<close> is the parameter \<open>null_str\<close>.
  \<open>None\<close> stands for not returning or for a signed overflow in a field width.

  The specification \<open>format\<close> produces the text from the format as a list, without a buffer, and the
  stretches of memory it reads; the refinement shows that \<open>vsnprintf\<close> stores the part of that text that
  fits, always terminates it, returns the full length and changes nothing outside the buffer.
\<close>

section \<open>Conversion specifications\<close>

text \<open>The loop at the label \<open>repeat\<close>.\<close>

partial_function (option) flags_loop :: "mem \<Rightarrow> addr \<Rightarrow> u32 \<Rightarrow> (addr \<times> u32) option" where
  "flags_loop m fmt flags =
     (let fmt = fmt + 1; c = m fmt in
      if c = 45 then flags_loop m fmt (flags OR LEFT)
      else if c = 43 then flags_loop m fmt (flags OR PLUS)
      else if c = 32 then flags_loop m fmt (flags OR SPACE)
      else if c = 35 then flags_loop m fmt (flags OR SPECIAL)
      else if c = 48 then flags_loop m fmt (flags OR ZEROPAD)
      else Some (fmt, flags))"

text \<open>\<open>va_arg(args, int)\<close> is the word at \<open>args\<close>, and \<open>args\<close> advances by \<open>va_rounded_size\<close>.\<close>

definition va_rounded_size :: "u32 \<Rightarrow> u32" where
  "va_rounded_size sz = ((sz + 4 - 1) div 4) * 4"

definition get_width :: "mem \<Rightarrow> addr \<Rightarrow> addr \<Rightarrow> u32 \<Rightarrow> (addr \<times> addr \<times> u32 \<times> int) option" where
  "get_width m fmt args flags =
     (if isdigit (m fmt) then map_option (\<lambda>(i, fmt). (fmt, args, flags, i)) (skip_atoi m fmt)
      else if m fmt = 42 then
        (let fmt = fmt + 1; w = sint (load32 m args); args = args + va_rounded_size 4 in
         if w < 0 then (if w = - INT_MAX - 1 then None else Some (fmt, args, flags OR LEFT, - w))
         else Some (fmt, args, flags, w))
      else Some (fmt, args, flags, - 1))"

definition get_precision :: "mem \<Rightarrow> addr \<Rightarrow> addr \<Rightarrow> (addr \<times> addr \<times> int) option" where
  "get_precision m fmt args =
     (if m fmt = 46 then
        (let fmt = fmt + 1 in
         Option.bind
           (if isdigit (m fmt) then map_option (\<lambda>(i, fmt). (fmt, args, i)) (skip_atoi m fmt)
            else if m fmt = 42 then Some (fmt + 1, args + va_rounded_size 4, sint (load32 m args))
            else Some (fmt, args, - 1))
           (\<lambda>(fmt, args, p). Some (fmt, args, if p < 0 then 0 else p)))
      else Some (fmt, args, - 1))"

definition get_qualifier :: "mem \<Rightarrow> addr \<Rightarrow> addr \<times> int" where
  "get_qualifier m fmt =
     (if m fmt = 104 \<or> m fmt = 108 \<or> m fmt = 76 \<or> m fmt = 90 then
        (let q = uint (m fmt); fmt = fmt + 1 in
         if q = 108 \<and> m fmt = 108 then (fmt + 1, 76) else (fmt, q))
      else (fmt, - 1))"

section \<open>Conversions\<close>

text \<open>The loops \<open>while (--field_width > 0)\<close> and \<open>while (len < field_width--)\<close>, which write blanks.\<close>

function dec_pad_loop :: "addr \<Rightarrow> int \<Rightarrow> out \<Rightarrow> int \<times> out" where
  "dec_pad_loop e w st = (if w - 1 > 0 then dec_pad_loop e (w - 1) (emit e 32 st) else (w - 1, st))"
  by auto
termination by (relation "measure (\<lambda>(e, w, st). nat w)") auto

function len_pad_loop :: "addr \<Rightarrow> int \<Rightarrow> int \<Rightarrow> out \<Rightarrow> int \<times> out" where
  "len_pad_loop e len w st = (if len < w then len_pad_loop e len (w - 1) (emit e 32 st) else (w - 1, st))"
  by auto
termination by (relation "measure (\<lambda>(e, len, w, st). nat (w - len))") auto

declare dec_pad_loop.simps [simp del] len_pad_loop.simps [simp del]

definition conv_c :: "addr \<Rightarrow> addr \<Rightarrow> u32 \<Rightarrow> int \<Rightarrow> out \<Rightarrow> out" where
  "conv_c e args flags w st =
     (let (w, st) = (if flags AND LEFT = 0 then dec_pad_loop e w st else (w, st));
          c = ucast (load32 (snd st) args);
          st = emit e c st
      in snd (dec_pad_loop e w st))"

fun copy_out :: "addr \<Rightarrow> addr \<Rightarrow> nat \<Rightarrow> out \<Rightarrow> out" where
  "copy_out e s 0 st = st"
| "copy_out e s (Suc n) st = copy_out e (s + 1) n (emit e (snd st s) st)"

definition conv_s :: "addr \<Rightarrow> addr \<Rightarrow> addr \<Rightarrow> u32 \<Rightarrow> int \<Rightarrow> int \<Rightarrow> out \<Rightarrow> out" where
  "conv_s null_str e args flags w precision st =
     (let s = load32 (snd st) args;
          s = (if s = 0 then null_str else s);
          len = sint (strnlen s (word_of_int precision) (snd st));
          (w, st) = (if flags AND LEFT = 0 then len_pad_loop e len w st else (w, st));
          st = copy_out e s (nat len) st
      in snd (len_pad_loop e len w st))"

definition conv_p :: "addr \<Rightarrow> addr \<Rightarrow> u32 \<Rightarrow> int \<Rightarrow> int \<Rightarrow> out \<Rightarrow> out option" where
  "conv_p e args flags w precision st =
     (let (w, flags) = (if w = - 1 then (2 * 4, flags OR ZEROPAD) else (w, flags))
      in number (fst st) e (ucast (load32 (snd st) args)) 16 w precision flags (snd st))"

definition conv_n :: "addr \<Rightarrow> addr \<Rightarrow> out \<Rightarrow> out" where
  "conv_n buf args st = (fst st, store32 (load32 (snd st) args) (fst st - buf) (snd st))"

text \<open>The integer argument: its value, converted as the qualifier and \<open>SIGN\<close> say, and the arguments after it.\<close>

definition get_num :: "mem \<Rightarrow> addr \<Rightarrow> int \<Rightarrow> u32 \<Rightarrow> u64 \<times> addr" where
  "get_num m args q flags =
     (if q = 76 then (load64 m args, args + va_rounded_size 8)
      else
       (let v = load32 m args in
        (if q = 108 then (if flags AND SIGN \<noteq> 0 then scast v else ucast v)
         else if q = 90 then ucast v
         else if q = 104 then (if flags AND SIGN \<noteq> 0 then scast (ucast v :: u16) else ucast (ucast v :: u16))
         else (if flags AND SIGN \<noteq> 0 then scast v else ucast v),
         args + va_rounded_size 4)))"

definition conv_num :: "addr \<Rightarrow> addr \<Rightarrow> int \<Rightarrow> u32 \<Rightarrow> int \<Rightarrow> int \<Rightarrow> int \<Rightarrow> out \<Rightarrow> (addr \<times> out) option" where
  "conv_num e args b flags w precision q st =
     (let (num, args) = get_num (snd st) args q flags
      in map_option (Pair args) (number (fst st) e num b w precision flags (snd st)))"

text \<open>The \<open>switch\<close> on the conversion character; the result has \<open>fmt\<close> at the last character consumed.\<close>

definition vsn_conv :: "addr \<Rightarrow> addr \<Rightarrow> addr \<Rightarrow> addr \<Rightarrow> addr \<Rightarrow> u32 \<Rightarrow> int \<Rightarrow> int \<Rightarrow> int \<Rightarrow> out \<Rightarrow> (addr \<times> addr \<times> out) option" where
  "vsn_conv null_str buf e fmt args flags w precision q st =
     (let c = snd st fmt in
      if c = 99 then Some (fmt, args + va_rounded_size 4, conv_c e args flags w st)
      else if c = 115 then Some (fmt, args + va_rounded_size 4, conv_s null_str e args flags w precision st)
      else if c = 112 then map_option (\<lambda>st. (fmt, args + va_rounded_size 4, st)) (conv_p e args flags w precision st)
      else if c = 110 then Some (fmt, args + va_rounded_size 4, conv_n buf args st)
      else if c = 37 then Some (fmt, args, emit e 37 st)
      else if c = 111 then map_option (\<lambda>(args, st). (fmt, args, st)) (conv_num e args 8 flags w precision q st)
      else if c = 88 then map_option (\<lambda>(args, st). (fmt, args, st)) (conv_num e args 16 (flags OR LARGE) w precision q st)
      else if c = 120 then map_option (\<lambda>(args, st). (fmt, args, st)) (conv_num e args 16 flags w precision q st)
      else if c = 100 \<or> c = 105 then
        map_option (\<lambda>(args, st). (fmt, args, st)) (conv_num e args 10 (flags OR SIGN) w precision q st)
      else if c = 117 then map_option (\<lambda>(args, st). (fmt, args, st)) (conv_num e args 10 flags w precision q st)
      else
       (let st = emit e 37 st in
        if snd st fmt \<noteq> 0 then Some (fmt, args, emit e (snd st fmt) st) else Some (fmt - 1, args, st)))"

definition vsn_directive :: "addr \<Rightarrow> addr \<Rightarrow> addr \<Rightarrow> addr \<Rightarrow> addr \<Rightarrow> out \<Rightarrow> (addr \<times> addr \<times> out) option" where
  "vsn_directive null_str buf e fmt args st =
     (let m = snd st in
      Option.bind (flags_loop m fmt 0) (\<lambda>(fmt, flags).
      Option.bind (get_width m fmt args flags) (\<lambda>(fmt, args, flags, w).
      Option.bind (get_precision m fmt args) (\<lambda>(fmt, args, precision).
      let (fmt, q) = get_qualifier m fmt
      in vsn_conv null_str buf e fmt args flags w precision q st))))"

partial_function (option) vsn_loop :: "addr \<Rightarrow> addr \<Rightarrow> addr \<Rightarrow> addr \<Rightarrow> addr \<Rightarrow> out \<Rightarrow> out option" where
  "vsn_loop null_str buf e fmt args st =
     (if snd st fmt = 0 then Some st
      else if snd st fmt \<noteq> 37 then vsn_loop null_str buf e (fmt + 1) args (emit e (snd st fmt) st)
      else Option.bind (vsn_directive null_str buf e fmt args st)
        (\<lambda>(fmt, args, st). vsn_loop null_str buf e (fmt + 1) args st))"

section \<open>The printing functions\<close>

definition vsnprintf :: "addr \<Rightarrow> addr \<Rightarrow> u32 \<Rightarrow> addr \<Rightarrow> addr \<Rightarrow> mem \<Rightarrow> (u32 \<times> mem) option" where
  "vsnprintf null_str buf sz fmt args m =
     (let e = buf + sz - 1;
          (e, sz) = (if e < buf - 1 then (- 1, - 1 - buf + 1) else (e, sz))
      in map_option (\<lambda>(str, m). (str - buf, if str \<le> e then m(str := 0) else if sz > 0 then m(e := 0) else m))
           (vsn_loop null_str buf e fmt args (buf, m)))"

text \<open>
  A variadic function finds its arguments behind its last named parameter: \<open>va_start\<close> takes the
  address of the parameter \<open>fmt\<close>, here \<open>fmt_slot\<close>, a cell that holds the pointer to the format.
\<close>

definition va_start :: "addr \<Rightarrow> addr" where
  "va_start slot = slot + va_rounded_size 4"

definition snprintf :: "addr \<Rightarrow> addr \<Rightarrow> u32 \<Rightarrow> addr \<Rightarrow> mem \<Rightarrow> (u32 \<times> mem) option" where
  "snprintf null_str buf sz fmt_slot m = vsnprintf null_str buf sz (load32 m fmt_slot) (va_start fmt_slot) m"

definition vsprintf :: "addr \<Rightarrow> addr \<Rightarrow> addr \<Rightarrow> addr \<Rightarrow> mem \<Rightarrow> (u32 \<times> mem) option" where
  "vsprintf null_str buf fmt args m = vsnprintf null_str buf 0xFFFFFFFF fmt args m"

definition sprintf :: "addr \<Rightarrow> addr \<Rightarrow> addr \<Rightarrow> mem \<Rightarrow> (u32 \<times> mem) option" where
  "sprintf null_str buf fmt_slot m = vsprintf null_str buf (load32 m fmt_slot) (va_start fmt_slot) m"

section \<open>Specification\<close>

text \<open>
  The same format, read from a list. Every part returns what is left of the format, and the
  stretches of memory it has read, as pairs of an address and a number of bytes.
\<close>

type_synonym footprint = "(addr \<times> nat) list"

definition flag_of :: "u8 \<Rightarrow> u32" where
  "flag_of c = (if c = 45 then LEFT else if c = 43 then PLUS else if c = 32 then SPACE else if c = 35 then SPECIAL
     else if c = 48 then ZEROPAD else 0)"

definition is_flag :: "u8 \<Rightarrow> bool" where
  "is_flag c \<longleftrightarrow> c \<in> {45, 43, 32, 35, 48}"

definition spec_flags :: "u8 list \<Rightarrow> u8 list \<times> u32" where
  "spec_flags s = (dropWhile is_flag s, fold (\<lambda>c f. f OR flag_of c) (takeWhile is_flag s) 0)"

fun atoi_val :: "u8 list \<Rightarrow> int \<Rightarrow> int option" where
  "atoi_val [] i = Some i"
| "atoi_val (c # cs) i =
     (if isdigit c then if i * 10 + uint c \<le> INT_MAX then atoi_val cs (i * 10 + uint c - 48) else None else Some i)"

definition spec_width :: "mem \<Rightarrow> u8 list \<Rightarrow> addr \<Rightarrow> u32 \<Rightarrow> (u8 list \<times> addr \<times> u32 \<times> int \<times> footprint) option" where
  "spec_width m s args flags =
     (if s \<noteq> [] \<and> isdigit (hd s) then map_option (\<lambda>i. (dropWhile isdigit s, args, flags, i, [])) (atoi_val s 0)
      else if s \<noteq> [] \<and> hd s = 42 then
        (let w = sint (load32 m args) in
         if w = - INT_MAX - 1 then None
         else Some (tl s, args + 4, if w < 0 then flags OR LEFT else flags, \<bar>w\<bar>, [(args, 4)]))
      else Some (s, args, flags, - 1, []))"

definition spec_precision :: "mem \<Rightarrow> u8 list \<Rightarrow> addr \<Rightarrow> (u8 list \<times> addr \<times> int \<times> footprint) option" where
  "spec_precision m s args =
     (if s \<noteq> [] \<and> hd s = 46 then
        (let s = tl s in
         if s \<noteq> [] \<and> isdigit (hd s) then map_option (\<lambda>i. (dropWhile isdigit s, args, max 0 i, [])) (atoi_val s 0)
         else if s \<noteq> [] \<and> hd s = 42 then Some (tl s, args + 4, max 0 (sint (load32 m args)), [(args, 4)])
         else Some (s, args, 0, []))
      else Some (s, args, - 1, []))"

definition spec_qualifier :: "u8 list \<Rightarrow> u8 list \<times> int" where
  "spec_qualifier s =
     (if s \<noteq> [] \<and> hd s \<in> {104, 108, 76, 90} then
        (if hd s = 108 \<and> tl s \<noteq> [] \<and> hd (tl s) = 108 then (tl (tl s), 76) else (tl s, uint (hd s)))
      else (s, - 1))"

partial_function (option) read_cstr :: "mem \<Rightarrow> addr \<Rightarrow> u8 list option" where
  "read_cstr m p = (if m p = 0 then Some [] else Option.bind (read_cstr m (p + 1)) (\<lambda>s. Some (m p # s)))"

definition padded :: "u32 \<Rightarrow> int \<Rightarrow> u8 list \<Rightarrow> u8 list" where
  "padded flags w t =
     (let pad = replicate (nat w - length t) 32 in if flags AND LEFT = 0 then pad @ t else t @ pad)"

definition spec_string :: "mem \<Rightarrow> addr \<Rightarrow> u32 \<Rightarrow> int \<Rightarrow> int \<Rightarrow> (u8 list \<times> nat) option" where
  "spec_string m p flags w precision =
     Option.bind (read_cstr m p) (\<lambda>s.
       if length s < 2 ^ 31 \<and> - 1 \<le> precision \<and> precision \<le> INT_MAX
       then Some (padded flags w (if precision < 0 then s else take (nat precision) s), Suc (length s)) else None)"

definition spec_num :: "mem \<Rightarrow> addr \<Rightarrow> int \<Rightarrow> u32 \<Rightarrow> int \<Rightarrow> int \<Rightarrow> int \<Rightarrow> u8 list \<times> addr \<times> footprint" where
  "spec_num m args b flags w precision q =
     (let (num, args') = get_num m args q flags
      in (number_text num b w precision flags, args', [(args, if q = 76 then 8 else 4)]))"

definition spec_conv :: "mem \<Rightarrow> addr \<Rightarrow> u8 \<Rightarrow> addr \<Rightarrow> u32 \<Rightarrow> int \<Rightarrow> int \<Rightarrow> int \<Rightarrow> (u8 list \<times> addr \<times> footprint) option" where
  "spec_conv m null_str c args flags w precision q =
     (if c = 99 then Some (padded flags w [ucast (load32 m args)], args + 4, [(args, 4)])
      else if c = 115 then
        (let p = (if load32 m args = 0 then null_str else load32 m args) in
         map_option (\<lambda>(t, n). (t, args + 4, [(args, 4), (p, n)])) (spec_string m p flags w precision))
      else if c = 112 then
        Some (number_text (ucast (load32 m args)) 16 (if w = - 1 then 8 else w) precision
                (if w = - 1 then flags OR ZEROPAD else flags), args + 4, [(args, 4)])
      else if c = 110 then None
      else if c = 37 then Some ([37], args, [])
      else if c = 111 then Some (spec_num m args 8 flags w precision q)
      else if c = 88 then Some (spec_num m args 16 (flags OR LARGE) w precision q)
      else if c = 120 then Some (spec_num m args 16 flags w precision q)
      else if c = 100 \<or> c = 105 then Some (spec_num m args 10 (flags OR SIGN) w precision q)
      else if c = 117 then Some (spec_num m args 10 flags w precision q)
      else Some ([37, c], args, []))"

definition spec_directive :: "mem \<Rightarrow> addr \<Rightarrow> u8 list \<Rightarrow> addr \<Rightarrow> (u8 list \<times> u8 list \<times> addr \<times> footprint) option" where
  "spec_directive m null_str s args =
     (let (s, flags) = spec_flags s in
      Option.bind (spec_width m s args flags) (\<lambda>(s, args, flags, w, f1).
      Option.bind (spec_precision m s args) (\<lambda>(s, args, precision, f2).
      let (s, q) = spec_qualifier s in
      if s = [] then Some ([37], [], args, f1 @ f2)
      else map_option (\<lambda>(t, args, f3). (t, tl s, args, f1 @ f2 @ f3))
             (spec_conv m null_str (hd s) args flags w precision q))))"

partial_function (option) format :: "mem \<Rightarrow> addr \<Rightarrow> u8 list \<Rightarrow> addr \<Rightarrow> (u8 list \<times> footprint) option" where
  "format m null_str s args =
     (if s = [] then Some ([], [])
      else if hd s \<noteq> 37
      then Option.bind (format m null_str (tl s) args) (\<lambda>(t, f). Some (hd s # t, f))
      else Option.bind (spec_directive m null_str (tl s) args) (\<lambda>(t1, s', args', f1).
             Option.bind (format m null_str s' args') (\<lambda>(t2, f2). Some (t1 @ t2, f1 @ f2))))"

section \<open>Reading the format\<close>

definition at_suffix :: "addr \<Rightarrow> u8 list \<Rightarrow> addr \<Rightarrow> u8 list \<Rightarrow> bool" where
  "at_suffix p s p' s' \<longleftrightarrow> (\<exists>k \<le> length s. p' = p + of_nat k \<and> s' = drop k s)"

lemma at_suffix_refl [simp]: "at_suffix p s p s"
  unfolding at_suffix_def by (intro exI [of _ 0]) simp

lemma at_suffix_Cons:
  assumes "at_suffix (p + 1) s p' s'"
  shows "at_suffix p (c # s) p' s'"
proof -
  obtain k where "k \<le> length s" "p' = p + 1 + of_nat k" "s' = drop k s" using assms by (auto simp: at_suffix_def)
  then have "Suc k \<le> length (c # s)" "p' = p + of_nat (Suc k)" "s' = drop (Suc k) (c # s)" by (simp_all add: add.assoc)
  then show ?thesis unfolding at_suffix_def by blast
qed

lemma at_suffix_trans:
  assumes "at_suffix p s p1 s1" "at_suffix p1 s1 p2 s2"
  shows "at_suffix p s p2 s2"
proof -
  obtain k l where "k \<le> length s" "p1 = p + of_nat k" "s1 = drop k s" "l \<le> length s1" "p2 = p1 + of_nat l" "s2 = drop l s1"
    using assms by (auto simp: at_suffix_def)
  then have "l + k \<le> length s" "p2 = p + of_nat (l + k)" "s2 = drop (l + k) s" by simp_all
  then show ?thesis unfolding at_suffix_def by blast
qed

lemma at_suffix_dropWhile: "at_suffix p s (p + of_nat (length (takeWhile P s))) (dropWhile P s)"
  unfolding at_suffix_def by (intro exI [of _ "length (takeWhile P s)"]) (simp add: length_takeWhile_le dropWhile_eq_drop)

lemma at_suffix_length: "at_suffix p s p' s' \<Longrightarrow> length s' \<le> length s"
  by (auto simp: at_suffix_def)

lemma at_suffix_cstr:
  assumes "at_suffix p s p' s'" "cstr m p s"
  shows "cstr m p' s'"
proof -
  obtain k where k: "k \<le> length s" "p' = p + of_nat k" "s' = drop k s" using assms(1) by (auto simp: at_suffix_def)
  then show ?thesis using assms(2) cstr_append [of m p "take k s" "drop k s"] by (simp add: min.absorb2)
qed

lemma at_suffix_region:
  assumes "at_suffix p s p' s'"
  shows "region p' (Suc (length s')) \<subseteq> region p (Suc (length s))"
proof -
  obtain k where k: "k \<le> length s" "p' = p + of_nat k" "s' = drop k s" using assms by (auto simp: at_suffix_def)
  then have "Suc (length s) = k + Suc (length s')" by simp
  then show ?thesis using region_add [of p k "Suc (length s')"] k(2) by auto
qed

lemma cstr_hd: "cstr m p s \<Longrightarrow> m p = (if s = [] then 0 else hd s)"
  by (cases s) auto

lemma cstr_tl: "cstr m p s \<Longrightarrow> s \<noteq> [] \<Longrightarrow> cstr m (p + 1) (tl s) \<and> at_suffix p s (p + 1) (tl s)"
  by (cases s) (auto intro: at_suffix_Cons)


definition agrees :: "footprint \<Rightarrow> mem \<Rightarrow> mem \<Rightarrow> bool" where
  "agrees fp m m' \<longleftrightarrow> (\<forall>(p, n) \<in> set fp. same_on (region p n) m m')"

lemma agrees_append [simp]: "agrees (f @ g) m m' \<longleftrightarrow> agrees f m m' \<and> agrees g m m'"
  by (auto simp: agrees_def)

lemma agrees_single [simp]: "agrees [(p, n)] m m' \<longleftrightarrow> same_on (region p n) m m'"
  by (simp add: agrees_def)

lemma region_4: "region p 4 = {p, p + 1, p + 2, p + 3}"
proof -
  have "{..<4 :: nat} = {0, 1, 2, 3}" by auto
  then show ?thesis by (simp add: region_def)
qed

lemma load32_same: "same_on (region p 4) m m' \<Longrightarrow> load32 m' p = load32 m p"
  by (simp add: load32_def region_4 same_on_def)

lemma load64_same:
  assumes "same_on (region p 8) m m'"
  shows "load64 m' p = load64 m p" "load32 m' p = load32 m p"
proof -
  have "region p 8 = region p 4 \<union> region (p + 4) 4" using region_add [of p 4 4] by simp
  then have "same_on (region p 4) m m'" "same_on (region (p + 4) 4) m m'" using assms by (auto simp: same_on_def)
  then show "load64 m' p = load64 m p" "load32 m' p = load32 m p" by (simp_all add: load64_def load32_same)
qed

lemma flags_loop_eq:
  "cstr m (fmt + 1) s \<Longrightarrow> flags_loop m fmt f =
     Some (fmt + 1 + of_nat (length (takeWhile is_flag s)), fold (\<lambda>c f. f OR flag_of c) (takeWhile is_flag s) f)"
proof (induction s arbitrary: fmt f)
  case Nil
  then show ?case by (subst flags_loop.simps) (simp add: Let_def)
next
  case (Cons c s)
  show ?case
  proof (cases "is_flag c")
    case True
    have "flags_loop m fmt f = flags_loop m (fmt + 1) (f OR flag_of c)"
      using True Cons.prems by (subst flags_loop.simps) (auto simp: Let_def is_flag_def flag_of_def)
    then show ?thesis using True Cons.prems Cons.IH [of "fmt + 1" "f OR flag_of c"] by (simp add: add.assoc)
  next
    case False
    then show ?thesis using Cons.prems by (subst flags_loop.simps) (auto simp: Let_def is_flag_def)
  qed
qed

lemma skip_atoi_loop_eq:
  "cstr m p s \<Longrightarrow> skip_atoi_loop m p i = map_option (\<lambda>v. (v, p + of_nat (length (takeWhile isdigit s)))) (atoi_val s i)"
proof (induction s arbitrary: p i)
  case Nil
  then show ?case by (subst skip_atoi_loop.simps) (simp add: isdigit_nat)
next
  case (Cons c s)
  then show ?case by (subst skip_atoi_loop.simps) (auto simp: add.assoc option.map_comp comp_def)
qed

lemma va_rounded_vals [simp]: "va_rounded_size 4 = 4" "va_rounded_size 8 = 8"
  by (simp_all add: va_rounded_size_def)

lemma zero_not_digit [simp]: "\<not> isdigit 0"
  by (simp add: isdigit_nat)

lemma get_width_ok:
  assumes "cstr m' fmt s" "spec_width m s args flags = Some (s', args', flags', w, fp)" "agrees fp m m'"
  shows "\<exists>fmt'. get_width m' fmt args flags = Some (fmt', args', flags', w) \<and> at_suffix fmt s fmt' s'"
proof -
  have hd: "m' fmt = (if s = [] then 0 else hd s)" using assms(1) by (rule cstr_hd)
  consider "s \<noteq> []" "isdigit (hd s)" | "s \<noteq> []" "hd s = 42" "\<not> isdigit (hd s)" | "s = [] \<or> hd s \<noteq> 42 \<and> \<not> isdigit (hd s)"
    by blast
  then show ?thesis
  proof cases
    case 1
    then show ?thesis
      using assms(2) hd skip_atoi_loop_eq [OF assms(1), of 0] at_suffix_dropWhile [of fmt s isdigit]
      by (auto simp: spec_width_def get_width_def skip_atoi_def)
  next
    case 2
    then have "load32 m' args = load32 m args"
      using assms(2,3) by (auto simp: spec_width_def Let_def load32_same split: if_splits)
    then show ?thesis
      using 2 assms(2) hd cstr_tl [OF assms(1)] by (auto simp: spec_width_def get_width_def Let_def split: if_splits)
  next
    case 3
    then show ?thesis using assms(2) hd by (auto simp: spec_width_def get_width_def)
  qed
qed

lemma get_precision_ok:
  assumes "cstr m' fmt s" "spec_precision m s args = Some (s', args', p, fp)" "agrees fp m m'"
  shows "\<exists>fmt'. get_precision m' fmt args = Some (fmt', args', p) \<and> at_suffix fmt s fmt' s'"
proof (cases "s \<noteq> [] \<and> hd s = 46")
  case False
  then show ?thesis
    using assms(2) cstr_hd [OF assms(1)] by (auto simp: spec_precision_def get_precision_def split: if_splits)
next
  case True
  let ?t = "tl s"
  have t: "cstr m' (fmt + 1) ?t" "at_suffix fmt s (fmt + 1) ?t" using cstr_tl [OF assms(1)] True by auto
  have dot: "m' fmt = 46" using cstr_hd [OF assms(1)] True by simp
  have hd: "m' (fmt + 1) = (if ?t = [] then 0 else hd ?t)" using t(1) by (rule cstr_hd)
  consider "?t \<noteq> []" "isdigit (hd ?t)" | "?t \<noteq> []" "hd ?t = 42" "\<not> isdigit (hd ?t)" | "?t = [] \<or> hd ?t \<noteq> 42 \<and> \<not> isdigit (hd ?t)"
    by blast
  then show ?thesis
  proof cases
    case 1
    then show ?thesis
      using True assms(2) dot hd skip_atoi_loop_eq [OF t(1), of 0] at_suffix_trans [OF t(2) at_suffix_dropWhile [of _ _ isdigit]]
      by (auto simp: spec_precision_def get_precision_def skip_atoi_def Let_def max_def)
  next
    case 2
    then have "load32 m' args = load32 m args"
      using True assms(2,3) by (auto simp: spec_precision_def Let_def load32_same)
    then show ?thesis
      using 2 True assms(2) dot hd cstr_tl [OF t(1)] at_suffix_trans [OF t(2)]
      by (auto simp: spec_precision_def get_precision_def Let_def max_def)
  next
    case 3
    then show ?thesis using True assms(2) dot hd t(2) by (auto simp: spec_precision_def get_precision_def Let_def)
  qed
qed

lemma get_qualifier_ok:
  assumes "cstr m' fmt s" "spec_qualifier s = (s', q)"
  shows "\<exists>fmt'. get_qualifier m' fmt = (fmt', q) \<and> at_suffix fmt s fmt' s'"
proof (cases "s \<noteq> [] \<and> hd s \<in> {104, 108, 76, 90}")
  case False
  then show ?thesis
    using assms(2) cstr_hd [OF assms(1)] by (auto simp: spec_qualifier_def get_qualifier_def)
next
  case True
  have t: "cstr m' (fmt + 1) (tl s)" "at_suffix fmt s (fmt + 1) (tl s)" using cstr_tl [OF assms(1)] True by auto
  have q: "uint (hd s) = 108 \<longleftrightarrow> hd s = 108" by (simp add: word_uint_eq_iff)
  show ?thesis
    using True assms(2) cstr_hd [OF assms(1)] cstr_hd [OF t(1)] cstr_tl [OF t(1)] at_suffix_trans [OF t(2)] t(2) q
    by (auto simp: spec_qualifier_def get_qualifier_def Let_def split: if_splits)
qed

section \<open>The conversions write the specified text\<close>

lemma dec_pad_loop_eq:
  "dec_pad_loop e w st = (if w > 1 then 0 else w - 1, emits e (replicate (nat (w - 1)) 32) st)"
proof (induction e w st rule: dec_pad_loop.induct)
  case (1 e w st)
  have "nat (w - 1) = Suc (nat (w - 1 - 1))" if "w - 1 > 0" using that by simp
  then show ?case using 1 by (subst dec_pad_loop.simps) auto
qed

lemma len_pad_loop_eq:
  "len_pad_loop e len w st = (if len < w then len - 1 else w - 1, emits e (replicate (nat (w - len)) 32) st)"
proof (induction e len w st rule: len_pad_loop.induct)
  case (1 e len w st)
  have "nat (w - len) = Suc (nat (w - 1 - len))" if "len < w" using that by simp
  then show ?case using 1 by (subst len_pad_loop.simps) auto
qed

text \<open>The bytes the loops may write, and footprints that keep clear of them.\<close>

definition writable :: "addr \<Rightarrow> addr \<Rightarrow> addr set" where
  "writable buf e = region buf (Suc (unat e) - unat buf)"

definition clear_of :: "addr set \<Rightarrow> footprint \<Rightarrow> bool" where
  "clear_of A fp \<longleftrightarrow> (\<forall>(p, n) \<in> set fp. region p n \<inter> A = {})"

lemma clear_of_simps [simp]:
  "clear_of A []" "clear_of A (f @ g) \<longleftrightarrow> clear_of A f \<and> clear_of A g"
  "clear_of A ((p, n) # f) \<longleftrightarrow> region p n \<inter> A = {} \<and> clear_of A f"
  by (auto simp: clear_of_def)

lemma emits_same:
  assumes "A \<inter> writable buf e = {}" "unat buf + length cs \<le> 2 ^ 32"
  shows "same_on A m (snd (emits e cs (buf, m)))"
proof -
  let ?t = "take (Suc (unat e) - unat buf) cs"
  have "region buf (length ?t) \<subseteq> writable buf e" unfolding writable_def by (rule region_mono) simp
  then have "A \<inter> region buf (length ?t) = {}" using assms(1) by blast
  then show ?thesis using same_on_put_bytes [of A buf ?t m] assms(2) by (simp add: emits_eq)
qed

lemma emits_agrees:
  "clear_of (writable buf e) fp \<Longrightarrow> unat buf + length cs \<le> 2 ^ 32 \<Longrightarrow> agrees fp m (snd (emits e cs (buf, m)))"
  unfolding agrees_def clear_of_def by (blast intro: emits_same)

lemma emits_load32:
  "region p 4 \<inter> writable buf e = {} \<Longrightarrow> unat buf + length cs \<le> 2 ^ 32 \<Longrightarrow> load32 (snd (emits e cs (buf, m))) p = load32 m p"
  by (intro load32_same emits_same)

lemma conv_c_eq:
  assumes "region args 4 \<inter> writable buf e = {}" "unat buf + length (d @ padded flags w [ucast (load32 m args)]) \<le> 2 ^ 32"
  shows "conv_c e args flags w (emits e d (buf, m)) = emits e (d @ padded flags w [ucast (load32 m args)]) (buf, m)"
proof -
  let ?pad = "replicate (nat (w - 1)) (32 :: u8)"
  have pad: "nat w - Suc 0 = nat (w - 1)" by simp
  have ld: "load32 (snd (emits e d (buf, m))) args = load32 m args" "load32 (snd (emits e (d @ ?pad) (buf, m))) args = load32 m args"
    using assms by (intro emits_load32; simp add: padded_def pad Let_def split: if_splits)+
  show ?thesis
    using ld by (simp add: conv_c_def dec_pad_loop_eq padded_def pad Let_def)
qed

lemma copy_out_eq:
  "bytes_at m s t \<Longrightarrow> region s (length t) \<inter> writable buf e = {} \<Longrightarrow> unat buf + length (d @ t) \<le> 2 ^ 32 \<Longrightarrow>
    copy_out e s (length t) (emits e d (buf, m)) = emits e (d @ t) (buf, m)"
proof (induction t arbitrary: s d)
  case (Cons c t)
  have "same_on {s} m (snd (emits e d (buf, m)))" using Cons.prems by (intro emits_same) (auto simp: region_Suc)
  then have "snd (emits e d (buf, m)) s = c" using Cons.prems(1) by (simp add: same_on_def)
  then show ?case using Cons.IH [of "s + 1" "d @ [c]"] Cons.prems by (auto simp: region_Suc)
qed simp

lemma read_cstr_cstr: "read_cstr m p = Some s \<Longrightarrow> cstr m p s"
proof (induction "length s" arbitrary: s p)
  case 0
  then show ?case by (subst (asm) read_cstr.simps) (auto split: if_splits bind_splits)
next
  case (Suc n)
  then show ?case by (subst (asm) (2) read_cstr.simps) (auto split: if_splits bind_splits)
qed

lemma sint_of_nat_small:
  assumes "n < 2 ^ 31"
  shows "sint (of_nat n :: u32) = int n"
proof -
  have "sint (of_nat n :: u32) = signed_take_bit 31 (int n)" by (simp add: signed_of_nat)
  then show ?thesis using assms by (simp add: signed_take_bit_int_eq_self)
qed

lemma conv_s_eq:
  assumes "spec_string m p flags w precision = Some (t, n)" "p \<noteq> 0" "p = (if load32 m args = 0 then null_str else load32 m args)"
    "region args 4 \<inter> writable buf e = {}" "region p n \<inter> writable buf e = {}" "unat buf + length (d @ t) \<le> 2 ^ 32"
  shows "conv_s null_str e args flags w precision (emits e d (buf, m)) = emits e (d @ t) (buf, m)"
proof -
  obtain s where s: "cstr m p s" "length s < 2 ^ 31" "- 1 \<le> precision" "precision \<le> INT_MAX" "n = Suc (length s)"
    and t: "t = padded flags w (if precision < 0 then s else take (nat precision) s)"
    using assms(1) by (auto simp: spec_string_def dest: read_cstr_cstr split: if_splits bind_splits)
  define u where "u = (if precision < 0 then s else take (nat precision) s)"
  define len where "len = int (length u)"
  let ?st = "\<lambda>d. emits e d (buf, m)"
  let ?pad = "replicate (nat (w - len)) (32 :: u8)"
  have pad: "nat w - length u = nat (w - len)" by (simp add: len_def)
  have room: "unat buf + length d \<le> 2 ^ 32" using assms(6) by simp
  have "same_on (region p n) m (snd (?st d))" using assms(5) room by (rule emits_same)
  then have cs: "cstr (snd (?st d)) p s" using s(1,5) cstr_same by simp
  have "precision = - 1 \<or> 0 \<le> precision" using s(3) by linarith
  then have "unat (word_of_int precision :: u32) = (if precision < 0 then 2 ^ 32 - 1 else nat precision)"
    using s(4) by (auto simp: unat_eq_nat_uint uint_word_of_int INT_MAX_def)
  then have "min (unat (word_of_int precision :: u32)) (length s) = length u" using s(2) by (auto simp: u_def)
  then have "strnlen p (word_of_int precision) (snd (?st d)) = of_nat (length u)"
    using assms(2) strnlen_loop_eq [OF cs] by (simp add: strnlen_def)
  moreover have "length u < 2 ^ 31" using s(2) by (auto simp: u_def)
  ultimately have len: "sint (strnlen p (word_of_int precision) (snd (?st d))) = len"
    by (simp add: len_def sint_of_nat_small)
  have tu: "bytes_at m p u" "region p (length u) \<subseteq> region p n"
    using s(1,5) by (auto simp: u_def cstr_bytes_at bytes_at_nth nth_append intro!: region_mono)
  then have copy: "copy_out e p (length u) (?st d') = ?st (d' @ u)" if "unat buf + length (d' @ u) \<le> 2 ^ 32" for d'
    using assms(5) that by (intro copy_out_eq) auto
  have ld: "load32 (snd (?st d)) args = load32 m args" using assms(4) room by (rule emits_load32)
  show ?thesis
    unfolding conv_s_def Let_def ld assms(3) [symmetric] len
    using copy [of d] copy [of "d @ ?pad"] assms(6)
    by (auto simp: len_pad_loop_eq t u_def [symmetric] padded_def pad Let_def len_def)
qed

lemma get_num_same:
  assumes "same_on (region args (if q = 76 then 8 else 4)) m m'"
  shows "get_num m' args q flags = get_num m args q flags"
  using assms load64_same [of args m m'] load32_same [of args m m'] by (cases "q = 76") (simp_all add: get_num_def Let_def)

lemma conv_num_eq:
  assumes "spec_num m args b flags w precision q = (t, args', fp)" "clear_of (writable buf e) fp"
    "2 \<le> b" "b \<le> 36" "unat buf + length d \<le> 2 ^ 32"
  shows "conv_num e args b flags w precision q (emits e d (buf, m)) = Some (args', emits e (d @ t) (buf, m))"
proof -
  let ?st = "emits e d (buf, m)"
  obtain num where n: "get_num m args q flags = (num, args')" "t = number_text num b w precision flags"
    "fp = [(args, if q = 76 then 8 else 4)]"
    using assms(1) by (auto simp: spec_num_def split: prod.splits)
  have "same_on (region args (if q = 76 then 8 else 4)) m (snd ?st)"
    using assms(2,5) n(3) by (intro emits_same) auto
  then have "get_num (snd ?st) args q flags = (num, args')" using n(1) get_num_same by metis
  then show ?thesis using assms(3,4) n(2) by (simp add: conv_num_def number_eq)
qed

lemma conv_p_eq:
  assumes "region args 4 \<inter> writable buf e = {}" "unat buf + length d \<le> 2 ^ 32"
  shows "conv_p e args flags w precision (emits e d (buf, m)) =
    Some (emits e (d @ number_text (ucast (load32 m args)) 16 (if w = - 1 then 8 else w) precision
      (if w = - 1 then flags OR ZEROPAD else flags)) (buf, m))"
  using emits_load32 [OF assms, of m] by (simp add: conv_p_def number_eq)

lemma vsn_conv_eq:
  assumes "spec_conv m null_str c args flags w precision q = Some (t, args', fp)" "clear_of (writable buf e) fp"
    "unat buf + length (d @ t) \<le> 2 ^ 32" "m fmt = c" "c \<noteq> 0" "fmt \<notin> writable buf e" "null_str \<noteq> 0"
  shows "vsn_conv null_str buf e fmt args flags w precision q (emits e d (buf, m)) = Some (fmt, args', emits e (d @ t) (buf, m))"
proof -
  let ?st = "\<lambda>d. emits e d (buf, m)"
  have fmt: "snd (?st d') fmt = c" if "length d' \<le> length (d @ t)" for d'
    using emits_same [of "{fmt}" buf e d' m] assms(3,4,6) that by (simp add: same_on_def)
  have c: "snd (?st d) fmt = c" using fmt [of d] by simp
  have room: "unat buf + length d \<le> 2 ^ 32" using assms(3) by simp
  note num = conv_num_eq [where buf = buf and e = e and d = d, OF _ assms(2) _ _ room]
  have "c \<noteq> 110" using assms(1) by (auto simp: spec_conv_def)
  then consider "c = 99" | "c = 115" | "c = 112" | "c = 37" | "c \<in> {111, 88, 120, 100, 105, 117}"
    | "c \<notin> {99, 115, 112, 110, 37, 111, 88, 120, 100, 105, 117}"
    by blast
  then show ?thesis
  proof cases
    case 1
    then show ?thesis using assms(1-3) c conv_c_eq [of args buf e d flags w m] by (auto simp: spec_conv_def vsn_conv_def)
  next
    case 2
    let ?p = "if load32 m args = 0 then null_str else load32 m args"
    obtain n where n: "spec_string m ?p flags w precision = Some (t, n)" "args' = args + 4" "fp = [(args, 4), (?p, n)]"
      using assms(1) 2 by (auto simp: spec_conv_def Let_def)
    have "?p \<noteq> 0" using assms(7) by simp
    then have "conv_s null_str e args flags w precision (?st d) = ?st (d @ t)"
      using assms(2,3) n(3) by (intro conv_s_eq [OF n(1) _ refl]) simp_all
    then show ?thesis using 2 c n(2) by (simp add: vsn_conv_def)
  next
    case 3
    then have t: "t = number_text (ucast (load32 m args)) 16 (if w = - 1 then 8 else w) precision
        (if w = - 1 then flags OR ZEROPAD else flags)" "args' = args + 4" "fp = [(args, 4)]"
      using assms(1) by (simp_all add: spec_conv_def)
    then have "conv_p e args flags w precision (?st d) = Some (?st (d @ t))"
      unfolding t(1) using assms(2) room by (intro conv_p_eq) simp_all
    then show ?thesis using 3 c t(2) by (simp add: vsn_conv_def)
  next
    case 4
    then show ?thesis using assms(1) c by (auto simp: spec_conv_def vsn_conv_def)
  next
    case 5
    then show ?thesis using assms(1) c num by (elim insertE) (simp_all add: spec_conv_def vsn_conv_def)
  next
    case 6
    then have t: "t = [37, c]" "args' = args" using assms(1) by (simp_all add: spec_conv_def)
    have "snd (?st (d @ [37])) fmt = c" using t by (intro fmt) simp
    then show ?thesis using 6 assms(5) c t by (simp add: vsn_conv_def Let_def)
  qed
qed

lemma vsn_conv_end:
  assumes "m fmt = 0" "fmt \<notin> writable buf e" "unat buf + length (d @ [37]) \<le> 2 ^ 32"
  shows "vsn_conv null_str buf e fmt args flags w precision q (emits e d (buf, m)) =
    Some (fmt - 1, args, emits e (d @ [37]) (buf, m))"
proof -
  have "snd (emits e d' (buf, m)) fmt = 0" if "length d' \<le> length (d @ [37 :: u8])" for d'
    using emits_same [of "{fmt}" buf e d' m] assms that by (simp add: same_on_def)
  from this [of d] this [of "d @ [37]"] show ?thesis by (simp add: vsn_conv_def Let_def)
qed

section \<open>The loop\<close>

lemma vsn_directive_ok:
  assumes "spec_directive m null_str s args = Some (t, s', args', fp)" "cstr m (fmt + 1) s"
    "region (fmt + 1) (Suc (length s)) \<inter> writable buf e = {}" "clear_of (writable buf e) fp"
    "unat buf + length (d @ t) \<le> 2 ^ 32" "null_str \<noteq> 0"
  shows "\<exists>fmt'. vsn_directive null_str buf e fmt args (emits e d (buf, m)) = Some (fmt', args', emits e (d @ t) (buf, m)) \<and>
    at_suffix (fmt + 1) s (fmt' + 1) s'"
proof -
  let ?st = "emits e d (buf, m)"
  let ?m = "snd ?st"
  have room: "unat buf + length d \<le> 2 ^ 32" using assms(5) by simp
  have same: "same_on (region (fmt + 1) (Suc (length s))) m ?m" using assms(3) room by (rule emits_same)
  then have c0: "cstr ?m (fmt + 1) s" using assms(2) cstr_same by simp
  obtain s1 f1 where s1: "spec_flags s = (s1, f1)" by force
  obtain s2 a2 f2 w g2 where s2: "spec_width m s1 args f1 = Some (s2, a2, f2, w, g2)"
    using assms(1) s1 by (auto simp: spec_directive_def split: bind_splits)
  obtain s3 a3 p g3 where s3: "spec_precision m s2 a2 = Some (s3, a3, p, g3)"
    using assms(1) s1 s2 by (auto simp: spec_directive_def split: bind_splits)
  obtain s4 q where s4: "spec_qualifier s3 = (s4, q)" by force
  have rest: "(if s4 = [] then Some ([37], [], a3, g2 @ g3)
      else map_option (\<lambda>(t, args, f3). (t, tl s4, args, g2 @ g3 @ f3)) (spec_conv m null_str (hd s4) a3 f2 w p q)) =
      Some (t, s', args', fp)"
    using assms(1) s1 s2 s3 s4 by (simp add: spec_directive_def)
  then have clear: "clear_of (writable buf e) g2" "clear_of (writable buf e) g3"
    using assms(4) by (auto split: if_splits)
  note agr = clear [THEN emits_agrees, OF room, of m]
  let ?p1 = "fmt + 1 + of_nat (length (takeWhile is_flag s))"
  have f1: "flags_loop ?m fmt 0 = Some (?p1, f1)" "at_suffix (fmt + 1) s ?p1 s1"
    using flags_loop_eq [OF c0] at_suffix_dropWhile [of "fmt + 1" s is_flag] s1 by (auto simp: spec_flags_def)
  have c1: "cstr ?m ?p1 s1" using f1(2) c0 by (rule at_suffix_cstr)
  obtain p2 where p2: "get_width ?m ?p1 args f1 = Some (p2, a2, f2, w)" "at_suffix ?p1 s1 p2 s2"
    using get_width_ok [OF c1 s2 agr(1)] by blast
  have c2: "cstr ?m p2 s2" using p2(2) c1 by (rule at_suffix_cstr)
  obtain p3 where p3: "get_precision ?m p2 a2 = Some (p3, a3, p)" "at_suffix p2 s2 p3 s3"
    using get_precision_ok [OF c2 s3 agr(2)] by blast
  have c3: "cstr ?m p3 s3" using p3(2) c2 by (rule at_suffix_cstr)
  obtain p4 where p4: "get_qualifier ?m p3 = (p4, q)" "at_suffix p3 s3 p4 s4"
    using get_qualifier_ok [OF c3 s4] by blast
  have suf: "at_suffix (fmt + 1) s p4 s4" using f1(2) p2(2) p3(2) p4(2) by (blast intro: at_suffix_trans)
  have "p4 \<in> region p4 (Suc (length s4))" by (simp add: region_Suc)
  then have out: "p4 \<notin> writable buf e" using at_suffix_region [OF suf] assms(3) by blast
  have c4: "cstr m p4 s4" using suf assms(2) by (rule at_suffix_cstr)
  have dir: "vsn_directive null_str buf e fmt args ?st = vsn_conv null_str buf e p4 a3 f2 w p q ?st"
    unfolding vsn_directive_def Let_def using f1(1) p2(1) p3(1) p4(1) by simp
  show ?thesis
  proof (cases "s4 = []")
    case True
    then have "t = [37]" "s' = s4" "args' = a3" using rest by auto
    then show ?thesis unfolding dir using vsn_conv_end [of m p4 buf e d] out c4 True assms(5) suf by simp
  next
    case False
    then obtain f3 where "spec_conv m null_str (hd s4) a3 f2 w p q = Some (t, args', f3)" "s' = tl s4" "fp = g2 @ g3 @ f3"
      using rest by auto
    moreover from False have "m p4 = hd s4" "hd s4 \<noteq> 0" using c4 by (cases s4; simp)+
    ultimately have "vsn_conv null_str buf e p4 a3 f2 w p q ?st = Some (p4, args', emits e (d @ t) (buf, m))"
      using assms(4-6) out by (intro vsn_conv_eq) auto
    then show ?thesis
      unfolding dir using at_suffix_trans [OF suf] cstr_tl [OF c4 False] \<open>s' = tl s4\<close> by auto
  qed
qed

lemma vsn_loop_eq:
  assumes "format m null_str s args = Some (t, fp)" "cstr m fmt s" "region fmt (Suc (length s)) \<inter> writable buf e = {}"
    "clear_of (writable buf e) fp" "unat buf + length (d @ t) \<le> 2 ^ 32" "null_str \<noteq> 0"
  shows "vsn_loop null_str buf e fmt args (emits e d (buf, m)) = Some (emits e (d @ t) (buf, m))"
  using assms
proof (induction "length s" arbitrary: s args t fp fmt d rule: less_induct)
  case less
  have room: "unat buf + length d \<le> 2 ^ 32" using less.prems(5) by simp
  have "fmt \<notin> writable buf e" using less.prems(3) by (simp add: region_Suc)
  then have fmt: "snd (emits e d (buf, m)) fmt = m fmt"
    using emits_same [of "{fmt}" buf e d m] room by (simp add: same_on_def)
  show ?case
  proof (cases s)
    case Nil
    then show ?thesis
      using less.prems(1,2) fmt by (subst vsn_loop.simps) (simp add: format.simps)
  next
    case (Cons c s1)
    have c: "m fmt = c" "c \<noteq> 0" "cstr m (fmt + 1) s1" using less.prems(2) Cons by auto
    have out: "region (fmt + 1) (Suc (length s1)) \<inter> writable buf e = {}"
      using less.prems(3) Cons region_Suc [of fmt "Suc (length s1)"] by auto
    show ?thesis
    proof (cases "c = 37")
      case False
      then obtain t1 where t: "format m null_str s1 args = Some (t1, fp)" "t = c # t1"
        using less.prems(1) Cons by (subst (asm) format.simps) (auto split: bind_splits)
      then have "vsn_loop null_str buf e (fmt + 1) args (emits e (d @ [c]) (buf, m)) = Some (emits e ((d @ [c]) @ t1) (buf, m))"
        using less.prems c out Cons by (intro less.hyps) auto
      then show ?thesis using False c t(2) fmt by (subst vsn_loop.simps) simp
    next
      case True
      obtain t1 s2 args2 f1 where dir: "spec_directive m null_str s1 args = Some (t1, s2, args2, f1)"
        using less.prems(1) Cons True by (subst (asm) format.simps) (auto split: bind_splits)
      then obtain t2 f2 where t2: "format m null_str s2 args2 = Some (t2, f2)" "t = t1 @ t2" "fp = f1 @ f2"
        using less.prems(1) Cons True by (subst (asm) format.simps) (auto split: bind_splits)
      obtain fmt2 where fmt2: "vsn_directive null_str buf e fmt args (emits e d (buf, m)) = Some (fmt2, args2, emits e (d @ t1) (buf, m))"
        "at_suffix (fmt + 1) s1 (fmt2 + 1) s2"
        using vsn_directive_ok [OF dir c(3) out, of d] less.prems(4-6) t2 by auto
      have "region (fmt2 + 1) (Suc (length s2)) \<inter> writable buf e = {}" using at_suffix_region [OF fmt2(2)] out by blast
      then have "vsn_loop null_str buf e (fmt2 + 1) args2 (emits e (d @ t1) (buf, m)) = Some (emits e ((d @ t1) @ t2) (buf, m))"
        using less.prems(4-6) t2 Cons at_suffix_length [OF fmt2(2)] at_suffix_cstr [OF fmt2(2) c(3)] by (intro less.hyps) auto
      then show ?thesis using True c fmt fmt2(1) t2(2) by (subst vsn_loop.simps) simp
    qed
  qed
qed

section \<open>Truncation and termination\<close>

lemma put_bytes_last: "(put_bytes p (bs @ [x]) m)(p + of_nat (length bs) := y) = put_bytes p (bs @ [y]) m"
  by (simp add: put_bytes_append)

lemma store_end:
  assumes "unat buf + cap \<le> 2 ^ 32" "0 < cap" "unat e = unat buf + cap - 1" "unat buf + length t < 2 ^ 32"
  shows "(let (str, m) = emits e t (buf, m) in if str \<le> e then m(str := 0) else m(e := 0)) =
    put_bytes buf (take (cap - 1) t @ [0]) m"
proof -
  have str: "unat (buf + of_nat (length t)) = unat buf + length t"
    using assms(4) by (simp add: unat_word_ariths unat_of_nat)
  have cap: "Suc (unat e) - unat buf = cap" using assms(2,3) by simp
  have em: "emits e t (buf, m) = (buf + of_nat (length t), put_bytes buf (take cap t) m)"
    using assms(4) by (simp add: emits_eq cap)
  show ?thesis
  proof (cases "length t < cap")
    case True
    then have "buf + of_nat (length t) \<le> e" using assms(2,3) str by (simp add: word_le_nat_alt)
    then show ?thesis using True by (simp add: em put_bytes_append)
  next
    case False
    then have "\<not> buf + of_nat (length t) \<le> e" using assms(2,3) str by (simp add: word_le_nat_alt)
    moreover have "take cap t = take (cap - 1) t @ [t ! (cap - 1)]" "length (take (cap - 1) t) = cap - 1"
      using False assms(2) take_Suc_conv_app_nth [of "cap - 1" t] by auto
    moreover have "unat e = unat buf + (cap - 1)" using assms(2,3) by simp
    then have "of_nat (unat e) = (of_nat (unat buf + (cap - 1)) :: addr)" by (rule arg_cong)
    then have "e = buf + of_nat (cap - 1)" by simp
    ultimately show ?thesis
      unfolding em Let_def prod.case using put_bytes_last [of buf "take (cap - 1) t" "t ! (cap - 1)" m 0] by simp
  qed
qed

definition capacity :: "addr \<Rightarrow> u32 \<Rightarrow> nat" where
  "capacity buf sz = min (unat sz) (2 ^ 32 - unat buf)"

lemma buffer_end:
  assumes "buf \<noteq> 0"
  obtains e sz' where "(let e = buf + sz - 1 in if e < buf - 1 then (- 1, - 1 - buf + 1) else (e, sz)) = (e, sz')"
    "Suc (unat e) = unat buf + capacity buf sz" "sz' > 0 \<longleftrightarrow> 0 < capacity buf sz"
proof -
  have b: "0 < unat buf" "unat buf < 2 ^ 32" using assms unsigned_less [of buf, where ?'a = nat] by (simp_all add: unat_gt_0)
  have s: "unat sz < 2 ^ 32" using unsigned_less [of sz, where ?'a = nat] by simp
  have b1: "unat (buf - 1) = unat buf - 1" using b by (simp add: unat_minus_one assms)
  have be: "buf + sz - 1 = buf - 1 + sz" by simp
  show thesis
  proof (cases "unat buf + unat sz \<le> 2 ^ 32")
    case True
    have "unat (buf + sz - 1) = unat buf - 1 + unat sz" unfolding be using b True by (simp add: unat_word_ariths(1) b1)
    then have "\<not> buf + sz - 1 < buf - 1" "Suc (unat (buf + sz - 1)) = unat buf + capacity buf sz"
      using b True b1 by (simp_all add: word_less_nat_alt capacity_def)
    moreover have "sz > 0 \<longleftrightarrow> 0 < capacity buf sz" using b by (simp add: capacity_def word_less_nat_alt)
    ultimately show ?thesis by (intro that [of "buf + sz - 1" sz]) simp_all
  next
    case False
    have "unat (buf + sz - 1) = (unat buf - 1 + unat sz) mod 2 ^ 32" unfolding be using b by (simp add: unat_word_ariths(1) b1)
    also have "\<dots> = unat buf - 1 + unat sz - 2 ^ 32" using False b s by (subst mod_if) simp
    finally have "unat (buf + sz - 1) < unat (buf - 1)" using False b s b1 by linarith
    then have "buf + sz - 1 < buf - 1" by (simp only: word_less_nat_alt)
    moreover have "unat (- 1 :: addr) = 2 ^ 32 - 1" by (simp add: unsigned_minus_1_eq_mask mask_eq_exp_minus_1)
    then have "Suc (unat (- 1 :: addr)) = unat buf + capacity buf sz" using False b by (simp add: capacity_def)
    moreover have "- 1 - buf + 1 > 0 \<longleftrightarrow> 0 < capacity buf sz" using assms b s False by (simp add: capacity_def word_gt_0)
    ultimately show ?thesis by (intro that [of "- 1" "- 1 - buf + 1"]) simp_all
  qed
qed

lemma vsnprintf_eq:
  assumes "format m null_str s args = Some (t, fp)" "cstr m fmt s" "buf \<noteq> 0" "null_str \<noteq> 0" "unat buf + length t < 2 ^ 32"
    "clear_of (region buf (capacity buf sz)) ((fmt, Suc (length s)) # fp)"
  shows "vsnprintf null_str buf sz fmt args m =
    Some (of_nat (length t), if capacity buf sz = 0 then m else put_bytes buf (take (capacity buf sz - 1) t @ [0]) m)"
proof -
  let ?cap = "capacity buf sz"
  obtain e sz' where e: "(let e = buf + sz - 1 in if e < buf - 1 then (- 1, - 1 - buf + 1) else (e, sz)) = (e, sz')"
    "Suc (unat e) = unat buf + ?cap" "sz' > 0 \<longleftrightarrow> 0 < ?cap"
    using buffer_end [OF assms(3)] by metis
  have W: "writable buf e = region buf ?cap" using e(2) by (simp add: writable_def)
  have em: "emits e t (buf, m) = (buf + of_nat (length t), put_bytes buf (take (Suc (unat e) - unat buf) t) m)"
    using assms(5) by (simp add: emits_eq)
  have "vsn_loop null_str buf e fmt args (emits e [] (buf, m)) = Some (emits e ([] @ t) (buf, m))"
    using assms by (intro vsn_loop_eq) (auto simp: W)
  then have run: "vsnprintf null_str buf sz fmt args m =
      (let (str, m) = emits e t (buf, m) in Some (str - buf, if str \<le> e then m(str := 0) else if sz' > 0 then m(e := 0) else m))"
    using e(1) by (simp add: vsnprintf_def Let_def split: prod.splits)
  show ?thesis
  proof (cases "?cap = 0")
    case True
    have "unat (buf + of_nat (length t)) = unat buf + length t" using assms(5) by (simp add: unat_word_ariths unat_of_nat)
    then have "\<not> buf + of_nat (length t) \<le> e" using e(2) True by (simp add: word_le_nat_alt)
    then show ?thesis unfolding run em using e(2,3) True by simp
  next
    case False
    have "unat buf + ?cap \<le> 2 ^ 32" using unsigned_less [of buf, where ?'a = nat] by (simp add: capacity_def)
    moreover have "unat e = unat buf + ?cap - 1" using e(2) by simp
    ultimately show ?thesis
      unfolding run using store_end [of buf ?cap e t m] e(3) False assms(5) by (simp add: em split: if_splits)
  qed
qed

lemma cstr_read_cstr: "cstr m p s \<Longrightarrow> read_cstr m p = Some s"
  by (induction s arbitrary: p) (simp_all add: read_cstr.simps)

lemma format_steps:
  "format m null_str [] args = Some ([], [])"
  "c \<noteq> 37 \<Longrightarrow> format m null_str (c # s) args = map_option (\<lambda>(t, f). (c # t, f)) (format m null_str s args)"
  "spec_directive m null_str s args = Some (t1, s', args', f1) \<Longrightarrow>
    format m null_str (37 # s) args = map_option (\<lambda>(t2, f2). (t1 @ t2, f1 @ f2)) (format m null_str s' args')"
proof -
  show "format m null_str [] args = Some ([], [])" by (simp add: format.simps)
  show "format m null_str (c # s) args = map_option (\<lambda>(t, f). (c # t, f)) (format m null_str s args)" if "c \<noteq> 37"
    using that by (subst format.simps) (cases "format m null_str s args"; auto)
  show "format m null_str (37 # s) args = map_option (\<lambda>(t2, f2). (t1 @ t2, f1 @ f2)) (format m null_str s' args')"
    if "spec_directive m null_str s args = Some (t1, s', args', f1)"
    using that by (subst format.simps) (cases "format m null_str s' args'"; auto)
qed

lemma format_plain: "37 \<notin> set s \<Longrightarrow> format m null_str s args = Some (s, [])"
  by (induction s) (auto simp: format_steps)

section \<open>Properties\<close>

text \<open>
  C5. \<open>vsnprintf\<close> refines \<open>format\<close>: for a format and arguments that lie outside the buffer it
  returns the length of the whole text, stores the text cut to the buffer's capacity less one, always
  with a terminating NUL, and changes nothing else; a buffer of size 0 is not touched, and a size that
  would reach past the end of the address space is cut there. A format without \<open>%\<close> is its own text,
  \<open>snprintf\<close> takes the arguments behind its last parameter, and \<open>sprintf\<close> is the same with no
  bound but the end of memory.
\<close>

theorem vsnprintf_refines:
  assumes "format m null_str s args = Some (t, fp)" "cstr m fmt s" "buf \<noteq> 0" "null_str \<noteq> 0" "unat buf + length t < 2 ^ 32"
    "clear_of (region buf (capacity buf sz)) ((fmt, Suc (length s)) # fp)"
  shows "\<exists>m'. vsnprintf null_str buf sz fmt args m = Some (of_nat (length t), m') \<and>
    (0 < capacity buf sz \<longrightarrow> bytes_at m' buf (take (capacity buf sz - 1) t @ [0])) \<and>
    same_on (- region buf (min (capacity buf sz) (Suc (length t)))) m m' \<and>
    (37 \<notin> set s \<longrightarrow> t = s) \<and>
    (load32 m slot = fmt \<and> args = slot + 4 \<longrightarrow> snprintf null_str buf sz slot m = Some (of_nat (length t), m') \<and>
      (sz = 0xFFFFFFFF \<longrightarrow> sprintf null_str buf slot m = Some (of_nat (length t), m')))"
proof -
  let ?cap = "capacity buf sz"
  define m' where "m' = (if ?cap = 0 then m else put_bytes buf (take (?cap - 1) t @ [0]) m)"
  have eq: "vsnprintf null_str buf sz fmt args m = Some (of_nat (length t), m')"
    unfolding m'_def using assms by (rule vsnprintf_eq)
  have len: "length (take (?cap - 1) t @ [0]) = min ?cap (Suc (length t))" if "?cap \<noteq> 0" using that by auto
  have "length (take (?cap - 1) t @ [0 :: u8]) \<le> 2 ^ 32" using assms(5) by simp
  then have stored: "0 < ?cap \<longrightarrow> bytes_at m' buf (take (?cap - 1) t @ [0])" using bytes_at_put_bytes by (simp add: m'_def)
  have frame: "same_on (- region buf (min ?cap (Suc (length t)))) m m'"
    using same_on_put_bytes [of "- region buf (min ?cap (Suc (length t)))" buf "take (?cap - 1) t @ [0]" m] len
    by (cases "?cap = 0") (simp_all add: m'_def)
  have "t = s" if "37 \<notin> set s" using format_plain [OF that, of m null_str args] assms(1) by simp
  moreover have "snprintf null_str buf sz slot m = vsnprintf null_str buf sz fmt args m \<and>
      (sz = 0xFFFFFFFF \<longrightarrow> sprintf null_str buf slot m = vsnprintf null_str buf sz fmt args m)"
    if "load32 m slot = fmt \<and> args = slot + 4"
    using that by (auto simp: snprintf_def sprintf_def vsprintf_def va_start_def)
  ultimately show ?thesis using eq stored frame by (intro exI [of _ m']) auto
qed

text \<open>The format \<open>"%s=%05d!"\<close> with the arguments \<open>"ab"\<close> and -7, into a buffer of six bytes.\<close>

definition demo_mem :: mem where
  "demo_mem = store32 0x3000 0x2010 (store32 0x3004 (- 7)
     (put_bytes 0x2000 [37, 115, 61, 37, 48, 53, 100, 33, 0] (put_bytes 0x2010 [97, 98, 0] (\<lambda>_. 0))))"

lemma demo_loads: "load32 demo_mem 0x3000 = 0x2010" "cstr demo_mem 0x2010 [97, 98]"
  by code_simp+

lemma demo_directives:
  "spec_directive demo_mem 0x2020 [115, 61, 37, 48, 53, 100, 33] 0x3000 =
     Some ([97, 98], [61, 37, 48, 53, 100, 33], 0x3004, [(0x3000, 4), (0x2010, 3)])"
  "spec_directive demo_mem 0x2020 [48, 53, 100, 33] 0x3004 = Some ([45, 48, 48, 48, 55], [33], 0x3008, [(0x3004, 4)])"
proof -
  show "spec_directive demo_mem 0x2020 [115, 61, 37, 48, 53, 100, 33] 0x3000 =
     Some ([97, 98], [61, 37, 48, 53, 100, 33], 0x3004, [(0x3000, 4), (0x2010, 3)])"
    using demo_loads(1) cstr_read_cstr [OF demo_loads(2)]
    by (simp add: spec_directive_def spec_flags_def is_flag_def spec_width_def spec_precision_def spec_qualifier_def
        spec_conv_def spec_string_def padded_def isdigit_nat INT_MAX_def)
  show "spec_directive demo_mem 0x2020 [48, 53, 100, 33] 0x3004 = Some ([45, 48, 48, 48, 55], [33], 0x3008, [(0x3004, 4)])"
    by code_simp
qed

lemma demo_format:
  "format demo_mem 0x2020 [37, 115, 61, 37, 48, 53, 100, 33] 0x3000 =
     Some ([97, 98, 61, 45, 48, 48, 48, 55, 33], [(0x3000, 4), (0x2010, 3), (0x3004, 4)])"
  by (simp add: format_steps demo_directives)

theorem vsnprintf_refines_witness:
  "\<exists>m'. vsnprintf 0x2020 0x1000 6 0x2000 0x3000 demo_mem = Some (9, m') \<and> bytes_at m' 0x1000 [97, 98, 61, 45, 48, 0]"
proof -
  have cap: "capacity 0x1000 6 = 6" by (simp add: capacity_def)
  have fmt: "cstr demo_mem 0x2000 [37, 115, 61, 37, 48, 53, 100, 33]" by code_simp
  have clear: "clear_of (region 0x1000 (capacity 0x1000 6)) ((0x2000, Suc (length [37 :: u8, 115, 61, 37, 48, 53, 100, 33])) #
      [(0x3000, 4), (0x2010, 3), (0x3004, 4)])"
    unfolding cap by (auto simp: region_nowrap)
  have room: "unat (0x1000 :: addr) + length [97 :: u8, 98, 61, 45, 48, 48, 48, 55, 33] < 2 ^ 32" by simp
  obtain m' where "vsnprintf 0x2020 0x1000 6 0x2000 0x3000 demo_mem = Some (of_nat 9, m')"
    "bytes_at m' 0x1000 (take 5 [97, 98, 61, 45, 48, 48, 48, 55, 33] @ [0])"
    using vsnprintf_refines [OF demo_format fmt _ _ room clear] by (auto simp: cap)
  then show ?thesis by (intro exI [of _ m']) simp
qed

end
