(* ===== verification/Interrupt.thy ===== *)
theory Interrupt
  imports Prelude
begin

text \<open>
  Interrupt management (\<open>kernel/interrupt.c\<close>, \<open>include/interrupt.h\<close>, the gate constants of
  \<open>include/kernel.h\<close>): the interrupt descriptor table, the table of handlers, the interrupt
  mask of the two 8259 controllers and the handling of one interrupt.

  The devices are a parameter: \<open>dev\<close> gives the byte a port returns after a history of port
  accesses. The code behind a handler address is a parameter \<open>code\<close>, and the addresses the linker
  chooses are the fields of \<open>irq_image\<close>. Of the flags register only \<open>cli\<close>, \<open>sti\<close>, \<open>pushfl\<close> and
  \<open>popfl\<close> are modelled. A shift by 32 or more, an index outside an array, a call through
  \<open>NULL\<close> and a failing \<open>BUG_ON\<close> are values of \<open>irq_fault\<close>.
\<close>

section \<open>Constants\<close>

definition PORT_8259_M :: u16 where "PORT_8259_M = 0x20"
definition PORT_8259_S :: u16 where "PORT_8259_S = 0xa0"
definition PORT_INT_MASK_M :: u16 where "PORT_INT_MASK_M = 0x21"
definition PORT_INT_MASK_S :: u16 where "PORT_INT_MASK_S = 0xa1"
definition EOI :: u8 where "EOI = 0x20"
definition IRQ_NR :: u32 where "IRQ_NR = 16"
definition IDT_SIZE :: u32 where "IDT_SIZE = 256"
definition EINVAL :: int where "EINVAL = 22"

definition PRESENT :: u8 where "PRESENT = 0x80"
definition INT_GATE :: u8 where "INT_GATE = PRESENT OR 0x0e"
definition TRAP_GATE :: u8 where "TRAP_GATE = PRESENT OR 0x0f"
definition KERNEL_CODE :: u16 where "KERNEL_CODE = 0x10"

section \<open>Data\<close>

record idt_entry =
  offset0_15 :: u16
  selector :: u16
  paramcnt :: u8
  attribs :: u8
  offset16_31 :: u16

record idt_reg =
  limit :: u16
  base :: u32

record irq_context =
  edi :: u32
  esi :: u32
  ebp :: u32
  ebx :: u32
  edx :: u32
  ecx :: u32
  eax :: u32
  es :: u32
  ds :: u32
  irq :: u32
  eip :: u32
  cs :: u32
  eflags :: u32

datatype io_event = Out u16 u8 | In u16 u8

record irq_state =
  irq_mask :: u16
  spurious_irq_mask :: u32
  idt :: "idt_entry list"
  idt_ptr :: idt_reg
  idtr :: "idt_reg option"
  irq_handler :: "addr list"
  flags :: u32
  io :: "io_event list"

datatype irq_fault = UNDEFINED_SHIFT nat | OUT_OF_BOUNDS int | NULL_CALL | BUG_TRUE nat | WILD_CALL addr

record irq_image =
  irq_stub :: "addr list"
  exc_stub :: "addr list"
  irq_unhand :: addr
  exc_unhand :: addr
  idt_addr :: addr
  unhandled_interrupt_addr :: addr

type_synonym device = "io_event list \<Rightarrow> u16 \<Rightarrow> u8"

section \<open>Processor primitives\<close>

definition IF_FLAG :: u32 where "IF_FLAG = 0x200"

definition irq_disable :: "irq_state \<Rightarrow> irq_state" where
  "irq_disable s = s\<lparr>flags := flags s AND NOT IF_FLAG\<rparr>"

definition irq_enable :: "irq_state \<Rightarrow> irq_state" where
  "irq_enable s = s\<lparr>flags := flags s OR IF_FLAG\<rparr>"

definition save_flags :: "irq_state \<Rightarrow> u32" where
  "save_flags s = flags s"

definition restore_flags :: "u32 \<Rightarrow> irq_state \<Rightarrow> irq_state" where
  "restore_flags f s = s\<lparr>flags := f\<rparr>"

definition irq_save :: "irq_state \<Rightarrow> u32 \<times> irq_state" where
  "irq_save s = (save_flags s, irq_disable s)"

definition irq_restore :: "u32 \<Rightarrow> irq_state \<Rightarrow> irq_state" where
  "irq_restore = restore_flags"

definition out :: "u16 \<Rightarrow> u8 \<Rightarrow> irq_state \<Rightarrow> irq_state" where
  "out port val s = s\<lparr>io := Out port val # io s\<rparr>"

definition inp :: "device \<Rightarrow> u16 \<Rightarrow> irq_state \<Rightarrow> u8 \<times> irq_state" where
  "inp dev port s = (dev (io s) port, s\<lparr>io := In port (dev (io s) port) # io s\<rparr>)"

definition inb :: "device \<Rightarrow> u16 \<Rightarrow> irq_state \<Rightarrow> u8 \<times> irq_state" where
  "inb dev port s = inp dev port s"

text \<open>A port of 16 or 32 bits is made of consecutive byte ports, the low byte first.\<close>

definition in16 :: "device \<Rightarrow> u16 \<Rightarrow> irq_state \<Rightarrow> u16 \<times> irq_state" where
  "in16 dev port s =
     (let (l, s) = inp dev port s; (h, s) = inp dev (port + 1) s in (ucast l OR push_bit 8 (ucast h), s))"

definition in32 :: "device \<Rightarrow> u16 \<Rightarrow> irq_state \<Rightarrow> u32 \<times> irq_state" where
  "in32 dev port s =
     (let (l, s) = in16 dev port s; (h, s) = in16 dev (port + 2) s in (ucast l OR push_bit 16 (ucast h), s))"

definition out16 :: "u16 \<Rightarrow> u16 \<Rightarrow> irq_state \<Rightarrow> irq_state" where
  "out16 port val s = out (port + 1) (ucast (drop_bit 8 val)) (out port (ucast val) s)"

definition out32 :: "u16 \<Rightarrow> u32 \<Rightarrow> irq_state \<Rightarrow> irq_state" where
  "out32 port val s = out16 (port + 2) (ucast (drop_bit 16 val)) (out16 port (ucast val) s)"

text \<open>\<open>1 << irq\<close> for an \<open>int\<close>: undefined from 32 on.\<close>

definition shift1 :: "nat \<Rightarrow> irq_fault + u32" where
  "shift1 n = (if n < 32 then Inr (push_bit n 1) else Inl (UNDEFINED_SHIFT n))"

section \<open>The interrupt controllers\<close>

definition irq_master_mask :: "irq_state \<Rightarrow> u8" where
  "irq_master_mask s = ucast (irq_mask s)"

definition irq_slave_mask :: "irq_state \<Rightarrow> u8" where
  "irq_slave_mask s = ucast (drop_bit 8 (irq_mask s))"

text \<open>\<open>irq\<close> is an \<open>int\<close> of the source, held as its 32 bits; a negative one fails at the shift.\<close>

definition irq_real :: "device \<Rightarrow> u32 \<Rightarrow> irq_state \<Rightarrow> irq_fault + (u32 \<times> irq_state)" where
  "irq_real dev i s =
     (case shift1 (unat i) of Inl e \<Rightarrow> Inl e
      | Inr irqmask \<Rightarrow>
        if i <s 8 then
          (let (v, s) = inp dev PORT_8259_M (out PORT_8259_M 0x0B s) in
           Inr (ucast v AND irqmask, out PORT_8259_M 0x0A s))
        else
          (let (v, s) = inp dev PORT_8259_S (out PORT_8259_S 0x0B s) in
           Inr (ucast v AND drop_bit 8 irqmask, out PORT_8259_S 0x0A s)))"

definition handle_spurious_irq :: "device \<Rightarrow> u32 \<Rightarrow> irq_state \<Rightarrow> irq_fault + irq_state" where
  "handle_spurious_irq dev i s =
     (case shift1 (unat i) of Inl e \<Rightarrow> Inl e
      | Inr bits \<Rightarrow>
        (case irq_real dev i s of Inl e \<Rightarrow> Inl e
         | Inr (real, s) \<Rightarrow>
           if real \<noteq> 0 then Inr s
           else if spurious_irq_mask s AND bits = 0
           then Inr (s\<lparr>spurious_irq_mask := spurious_irq_mask s OR bits\<rparr>)
           else Inr s))"

definition ack_slave :: "device \<Rightarrow> u32 \<Rightarrow> irq_state \<Rightarrow> irq_state" where
  "ack_slave dev i s =
     (let s = snd (inp dev PORT_INT_MASK_S s);
          s = out PORT_INT_MASK_S (irq_slave_mask s) s;
          s = out PORT_8259_S (0x60 + ucast (i AND 7)) s;
          s = out PORT_8259_S (0x60 + 2) s;
          s = out PORT_8259_S EOI s
      in out PORT_8259_M EOI s)"

definition ack_master :: "device \<Rightarrow> u32 \<Rightarrow> irq_state \<Rightarrow> irq_state" where
  "ack_master dev i s =
     (let s = snd (inp dev PORT_INT_MASK_M s);
          s = out PORT_INT_MASK_M (irq_master_mask s) s;
          s = out PORT_8259_M (0x60 + ucast i) s
      in out PORT_8259_M EOI s)"

definition mask_and_ack_irq :: "device \<Rightarrow> u32 \<Rightarrow> irq_state \<Rightarrow> irq_fault + irq_state" where
  "mask_and_ack_irq dev i s =
     (case shift1 (unat i) of Inl e \<Rightarrow> Inl e
      | Inr bits \<Rightarrow>
        (let (fl, s) = irq_save s in
         case (if ucast (irq_mask s) AND bits \<noteq> 0 then handle_spurious_irq dev i s else Inr s) of
           Inl e \<Rightarrow> Inl e
         | Inr s \<Rightarrow>
           (let s = s\<lparr>irq_mask := irq_mask s OR ucast bits\<rparr>;
                s = (if i AND 8 \<noteq> 0 then ack_slave dev i s else ack_master dev i s)
            in Inr (irq_restore fl s))))"

definition write_mask :: "u8 \<Rightarrow> irq_state \<Rightarrow> irq_state" where
  "write_mask i s =
     (if i AND 8 \<noteq> 0 then out PORT_INT_MASK_S (irq_slave_mask s) s
      else out PORT_INT_MASK_M (irq_master_mask s) s)"

definition pic_disable_irq :: "u8 \<Rightarrow> irq_state \<Rightarrow> irq_fault + irq_state" where
  "pic_disable_irq i s =
     (case shift1 (unat i) of Inl e \<Rightarrow> Inl e
      | Inr bits \<Rightarrow>
        (let (fl, s) = irq_save s;
             s = s\<lparr>irq_mask := irq_mask s OR ucast bits\<rparr>
         in Inr (irq_restore fl (write_mask i s))))"

definition pic_enable_irq :: "u8 \<Rightarrow> irq_state \<Rightarrow> irq_fault + irq_state" where
  "pic_enable_irq i s =
     (case shift1 (unat i) of Inl e \<Rightarrow> Inl e
      | Inr bits \<Rightarrow>
        (let (fl, s) = irq_save s;
             s = s\<lparr>irq_mask := irq_mask s AND ucast (NOT bits)\<rparr>
         in Inr (irq_restore fl (write_mask i s))))"

definition end_of_irq :: "irq_context \<Rightarrow> irq_state \<Rightarrow> irq_fault + irq_state" where
  "end_of_irq c s = pic_enable_irq (ucast (irq c)) s"

definition irq_init :: "irq_state \<Rightarrow> irq_state" where
  "irq_init s =
     (let s = out PORT_8259_M 0x11 s;
          s = out PORT_INT_MASK_M 0x20 s;
          s = out PORT_INT_MASK_M (push_bit 2 1) s;
          s = out PORT_INT_MASK_M 0x01 s;
          s = out PORT_8259_S 0x11 s;
          s = out PORT_INT_MASK_S 0x28 s;
          s = out PORT_INT_MASK_S 2 s;
          s = out PORT_INT_MASK_S 0x01 s;
          s = s\<lparr>irq_mask := irq_mask s AND NOT (push_bit 2 1)\<rparr>;
          s = out PORT_INT_MASK_M (irq_master_mask s) s
      in out PORT_INT_MASK_S (irq_slave_mask s) s)"

section \<open>Handling an interrupt\<close>

definition unhandled_interrupt :: "irq_context \<Rightarrow> irq_state \<Rightarrow> irq_fault + irq_state" where
  "unhandled_interrupt c s = Inl (BUG_TRUE 67)"

type_synonym handler_code = "addr \<Rightarrow> irq_context \<Rightarrow> irq_state \<Rightarrow> irq_fault + irq_state"

definition call_handler :: "handler_code \<Rightarrow> addr \<Rightarrow> irq_context \<Rightarrow> irq_state \<Rightarrow> irq_fault + irq_state" where
  "call_handler code h c s = (if h = NULL then Inl NULL_CALL else code h c s)"

definition default_irq_handler :: "device \<Rightarrow> handler_code \<Rightarrow> irq_context \<Rightarrow> irq_state \<Rightarrow> irq_fault + irq_state" where
  "default_irq_handler dev code c s =
     (case mask_and_ack_irq dev (irq c) s of Inl e \<Rightarrow> Inl e
      | Inr s1 \<Rightarrow>
        (case (if irq c < IRQ_NR
               then (if unat (irq c) < length (irq_handler s1)
                     then call_handler code (irq_handler s1 ! unat (irq c)) c s1
                     else Inl (OUT_OF_BOUNDS (uint (irq c))))
               else unhandled_interrupt c s1) of
           Inl e \<Rightarrow> Inl e
         | Inr s2 \<Rightarrow> end_of_irq c s2))"

section \<open>The descriptor table\<close>

definition setup_idt_entry :: "u8 \<Rightarrow> u16 \<Rightarrow> u32 \<Rightarrow> u8 \<Rightarrow> u8 \<Rightarrow> irq_state \<Rightarrow> irq_state" where
  "setup_idt_entry i sel offset att cnt s =
     (let (fl, s) = irq_save s;
          e = (idt s ! unat i)\<lparr>offset0_15 := ucast (offset AND 0xFFFF), offset16_31 := ucast (drop_bit 16 offset),
                 selector := sel, attribs := att, paramcnt := cnt\<rparr>;
          s = s\<lparr>idt := (idt s)[unat i := e]\<rparr>
      in irq_restore fl s)"

definition set_intr_gate :: "u32 \<Rightarrow> addr \<Rightarrow> irq_state \<Rightarrow> irq_state" where
  "set_intr_gate i a = setup_idt_entry (ucast i) KERNEL_CODE a INT_GATE 0"

definition set_trap_gate :: "u32 \<Rightarrow> addr \<Rightarrow> irq_state \<Rightarrow> irq_state" where
  "set_trap_gate i a = setup_idt_entry (ucast i) KERNEL_CODE a TRAP_GATE 0"

text \<open>A loop \<open>for (i = a; i <= b; i++) set_intr_gate(i, h)\<close> of \<open>n\<close> rounds.\<close>

fun gate_loop :: "u32 \<Rightarrow> nat \<Rightarrow> addr \<Rightarrow> irq_state \<Rightarrow> irq_state" where
  "gate_loop i 0 h s = s"
| "gate_loop i (Suc n) h s = gate_loop (i + 1) n h (set_intr_gate i h s)"

text \<open>The gates set one by one: each is a trap gate but those of the vectors 2, 14 and 15.\<close>

definition exc_gates :: "irq_image \<Rightarrow> irq_state \<Rightarrow> irq_state" where
  "exc_gates L s =
     (let s = set_trap_gate 0x00 (exc_stub L ! 0) s;
          s = set_trap_gate 0x01 (exc_stub L ! 1) s;
          s = set_intr_gate 0x02 (exc_stub L ! 2) s;
          s = set_trap_gate 0x03 (exc_stub L ! 3) s;
          s = set_trap_gate 0x04 (exc_stub L ! 4) s;
          s = set_trap_gate 0x05 (exc_stub L ! 5) s;
          s = set_trap_gate 0x06 (exc_stub L ! 6) s;
          s = set_trap_gate 0x07 (exc_stub L ! 7) s;
          s = set_trap_gate 0x08 (exc_stub L ! 8) s;
          s = set_trap_gate 0x09 (exc_stub L ! 9) s;
          s = set_trap_gate 0x0a (exc_stub L ! 10) s;
          s = set_trap_gate 0x0b (exc_stub L ! 11) s;
          s = set_trap_gate 0x0c (exc_stub L ! 12) s;
          s = set_trap_gate 0x0d (exc_stub L ! 13) s;
          s = set_intr_gate 0x0e (exc_stub L ! 14) s
      in set_intr_gate 0x0f (exc_stub L ! 15) s)"

definition irq_gates :: "irq_image \<Rightarrow> irq_state \<Rightarrow> irq_state" where
  "irq_gates L s =
     (let s = set_trap_gate 0x20 (irq_stub L ! 0) s;
          s = set_trap_gate 0x21 (irq_stub L ! 1) s;
          s = set_trap_gate 0x22 (irq_stub L ! 2) s;
          s = set_trap_gate 0x23 (irq_stub L ! 3) s;
          s = set_trap_gate 0x24 (irq_stub L ! 4) s;
          s = set_trap_gate 0x25 (irq_stub L ! 5) s;
          s = set_trap_gate 0x26 (irq_stub L ! 6) s;
          s = set_trap_gate 0x27 (irq_stub L ! 7) s;
          s = set_trap_gate 0x28 (irq_stub L ! 8) s;
          s = set_trap_gate 0x29 (irq_stub L ! 9) s;
          s = set_trap_gate 0x2a (irq_stub L ! 10) s;
          s = set_trap_gate 0x2b (irq_stub L ! 11) s;
          s = set_trap_gate 0x2c (irq_stub L ! 12) s;
          s = set_trap_gate 0x2d (irq_stub L ! 13) s;
          s = set_trap_gate 0x2e (irq_stub L ! 14) s
      in set_trap_gate 0x2f (irq_stub L ! 15) s)"

definition idt_init :: "irq_image \<Rightarrow> irq_state \<Rightarrow> irq_state" where
  "idt_init L s =
     (let s = gate_loop 0x00 32 (exc_unhand L) s;
          s = exc_gates L s;
          s = gate_loop 0x20 224 (irq_unhand L) s;
          s = irq_gates L s;
          s = s\<lparr>idt_ptr := \<lparr>limit = ucast (IDT_SIZE * 8 - 1), base = idt_addr L\<rparr>\<rparr>
      in s\<lparr>idtr := Some (idt_ptr s)\<rparr>)"

section \<open>Installing handlers\<close>

text \<open>The assignments to \<open>irq_handler[irq].handler\<close> and \<open>idt[0x20 + irq].attribs\<close>.\<close>

definition set_handler :: "u32 \<Rightarrow> addr \<Rightarrow> irq_state \<Rightarrow> irq_fault + irq_state" where
  "set_handler i h s =
     (if 0 \<le> sint i \<and> sint i < int (length (irq_handler s))
      then Inr (s\<lparr>irq_handler := (irq_handler s)[nat (sint i) := h]\<rparr>) else Inl (OUT_OF_BOUNDS (sint i)))"

definition set_attribs :: "int \<Rightarrow> u8 \<Rightarrow> irq_state \<Rightarrow> irq_fault + irq_state" where
  "set_attribs i v s =
     (if 0 \<le> i \<and> i < int (length (idt s))
      then Inr (s\<lparr>idt := (idt s)[nat i := (idt s ! nat i)\<lparr>attribs := v\<rparr>]\<rparr>) else Inl (OUT_OF_BOUNDS i))"

definition uninstall_interrupt_handler :: "u32 \<Rightarrow> irq_state \<Rightarrow> irq_fault + (int \<times> irq_state)" where
  "uninstall_interrupt_handler i s =
     (if IRQ_NR <s i then Inr (- EINVAL, s)
      else (let (fl, s) = irq_save s in
        case pic_disable_irq (ucast i) s of Inl e \<Rightarrow> Inl e
        | Inr s1 \<Rightarrow> (case set_handler i NULL s1 of Inl e \<Rightarrow> Inl e | Inr s2 \<Rightarrow> Inr (0, irq_restore fl s2))))"

definition install_interrupt_handler :: "u32 \<Rightarrow> addr \<Rightarrow> u32 \<Rightarrow> irq_state \<Rightarrow> irq_fault + (int \<times> irq_state)" where
  "install_interrupt_handler i handler typ s =
     (if IRQ_NR <s i then Inr (- EINVAL, s)
      else (let (fl, s) = irq_save s in
        case set_handler i handler s of Inl e \<Rightarrow> Inl e
        | Inr s1 \<Rightarrow>
          (case set_attribs (0x20 + sint i) (ucast typ) s1 of Inl e \<Rightarrow> Inl e
           | Inr s2 \<Rightarrow>
             (case pic_enable_irq (ucast i) s2 of Inl e \<Rightarrow> Inl e | Inr s3 \<Rightarrow> Inr (0, irq_restore fl s3)))))"

definition interrupt_init :: "irq_image \<Rightarrow> irq_state \<Rightarrow> irq_state" where
  "interrupt_init L s = irq_enable (irq_init (idt_init L s))"

definition irq_boot :: "irq_image \<Rightarrow> u32 \<Rightarrow> irq_state" where
  "irq_boot L f = \<lparr>irq_mask = 0xffff, spurious_irq_mask = 0,
     idt = replicate 256 \<lparr>offset0_15 = 0, selector = 0, paramcnt = 0, attribs = 0, offset16_31 = 0\<rparr>,
     idt_ptr = \<lparr>limit = 0, base = 0\<rparr>, idtr = None,
     irq_handler = replicate 16 (unhandled_interrupt_addr L), flags = f, io = []\<rparr>"

section \<open>Closed forms\<close>

lemmas port_defs = PORT_8259_M_def PORT_8259_S_def PORT_INT_MASK_M_def PORT_INT_MASK_S_def EOI_def

lemma irq_save_restore [io_simps]:
  "fst (irq_save s) = flags s" "snd (irq_save s) = s\<lparr>flags := flags s AND NOT IF_FLAG\<rparr>"
  "irq_restore f s = s\<lparr>flags := f\<rparr>"
  by (simp_all add: irq_save_def save_flags_def irq_disable_def irq_restore_def restore_flags_def)

lemma shift1_ok [io_simps]: "n < 32 \<Longrightarrow> shift1 n = Inr (push_bit n 1)"
  by (simp add: shift1_def)

definition mask_port :: "u8 \<Rightarrow> u16 \<Rightarrow> io_event" where
  "mask_port i m = (if i AND 8 \<noteq> 0 then Out 0xa1 (ucast (drop_bit 8 m)) else Out 0x21 (ucast m))"

definition set_line :: "u16 \<Rightarrow> nat \<Rightarrow> u16" where
  "set_line m n = m OR ucast (push_bit n 1 :: u32)"

definition clear_line :: "u16 \<Rightarrow> nat \<Rightarrow> u16" where
  "clear_line m n = m AND ucast (NOT (push_bit n 1 :: u32))"

lemma bit_set_line: "bit (set_line m n) k \<longleftrightarrow> bit m k \<or> k = n \<and> n < 16"
  by (auto simp: set_line_def bit_simps dest: bit_imp_le_length)

lemma bit_clear_line: "bit (clear_line m n) k \<longleftrightarrow> bit m k \<and> k \<noteq> n"
  by (auto simp: clear_line_def bit_simps dest: bit_imp_le_length)

lemma pic_enable_irq_eq:
  assumes "unat i < 32"
  shows "pic_enable_irq i s = Inr (s\<lparr>irq_mask := clear_line (irq_mask s) (unat i),
     io := mask_port i (clear_line (irq_mask s) (unat i)) # io s\<rparr>)"
  using assms by (simp add: pic_enable_irq_def io_simps write_mask_def out_def irq_slave_mask_def irq_master_mask_def
      split_beta Let_def port_defs mask_port_def set_line_def clear_line_def)

lemma pic_disable_irq_eq:
  assumes "unat i < 32"
  shows "pic_disable_irq i s = Inr (s\<lparr>irq_mask := set_line (irq_mask s) (unat i),
     io := mask_port i (set_line (irq_mask s) (unat i)) # io s\<rparr>)"
  using assms by (simp add: pic_disable_irq_def io_simps write_mask_def out_def irq_slave_mask_def irq_master_mask_def
      split_beta Let_def port_defs mask_port_def set_line_def clear_line_def)

section \<open>The mask registers of the controllers\<close>

fun last_out :: "u16 \<Rightarrow> io_event list \<Rightarrow> u8 option" where
  "last_out p [] = None"
| "last_out p (Out q v # t) = (if q = p then Some v else last_out p t)"
| "last_out p (In q v # t) = last_out p t"

definition pic_synced :: "irq_state \<Rightarrow> bool" where
  "pic_synced s \<longleftrightarrow> last_out 0x21 (io s) = Some (irq_master_mask s) \<and> last_out 0xa1 (io s) = Some (irq_slave_mask s)"

text \<open>Which of the two mask registers a line belongs to.\<close>

lemma and8_bit: "(i :: 'a :: len word) AND 8 \<noteq> 0 \<longleftrightarrow> bit i 3"
  using and_exp_eq_0_iff_not_bit [of i 3] by simp

lemma line_register:
  assumes "unat (i :: 'a :: len word) < 16"
  shows "i AND 8 \<noteq> 0 \<longleftrightarrow> 8 \<le> unat i"
proof -
  have "bit i 3 \<longleftrightarrow> odd (unat i div 8)"
    using bit_unsigned_iff [of i 3, where ?'a = nat] bit_iff_odd [of "unat i" 3] by simp
  also have "\<dots> \<longleftrightarrow> 8 \<le> unat i"
    using assms by (cases "unat i < 8") (auto simp: div_if)
  finally show ?thesis by (simp only: and8_bit)
qed

lemma low_byte_eq: "(\<And>k. k < 8 \<Longrightarrow> bit m k = bit m' k) \<Longrightarrow> (ucast m :: u8) = ucast (m' :: u16)"
  by (rule bit_word_eqI) (simp add: bit_simps)

lemma high_byte_eq: "(\<And>k. 8 \<le> k \<Longrightarrow> bit m k = bit m' k) \<Longrightarrow> (ucast (drop_bit 8 m) :: u8) = ucast (drop_bit 8 (m' :: u16))"
  by (rule bit_word_eqI) (simp add: bit_simps)

lemma mask_port_synced:
  assumes "pic_synced s" "unat i < 16" "\<And>k. k \<noteq> unat i \<Longrightarrow> bit m k = bit (irq_mask s) k"
  shows "pic_synced (s\<lparr>irq_mask := m, io := mask_port i m # io s\<rparr>)"
proof (cases "8 \<le> unat i")
  case True
  then have "(ucast m :: u8) = ucast (irq_mask s)" using assms(3) by (intro low_byte_eq) auto
  then show ?thesis
    using assms(1) True line_register [OF assms(2)] by (simp add: pic_synced_def mask_port_def irq_master_mask_def irq_slave_mask_def)
next
  case False
  then have "(ucast (drop_bit 8 m) :: u8) = ucast (drop_bit 8 (irq_mask s))" using assms(3) by (intro high_byte_eq) auto
  then show ?thesis
    using assms(1) False line_register [OF assms(2)] by (simp add: pic_synced_def mask_port_def irq_master_mask_def irq_slave_mask_def)
qed



section \<open>Lines as an interface\<close>

text \<open>
  What the code that switches interrupt lines on and off relies on: an operation on a line
  below 16 succeeds, changes the mask of that line alone and keeps the rest of the state. After
  any sequence of operations a line is masked exactly when the last operation on it masked it.
\<close>

fun run_lines :: "('i \<Rightarrow> 's \<Rightarrow> 'e + 's) \<Rightarrow> ('i \<Rightarrow> 's \<Rightarrow> 'e + 's) \<Rightarrow> (bool \<times> 'i) list \<Rightarrow> 's \<Rightarrow> 'e + 's" where
  "run_lines on off [] s = Inr s"
| "run_lines on off ((b, i) # ops) s =
     (case (if b then on i s else off i s) of Inl e \<Rightarrow> Inl e | Inr s' \<Rightarrow> run_lines on off ops s')"

locale irq_lines =
  fixes on :: "'i \<Rightarrow> 's \<Rightarrow> 'e + 's" and off :: "'i \<Rightarrow> 's \<Rightarrow> 'e + 's"
    and line :: "'i \<Rightarrow> nat" and masked :: "'s \<Rightarrow> nat \<Rightarrow> bool" and good :: "'s \<Rightarrow> bool" and rest :: "'s \<Rightarrow> 'r"
  assumes on_line: "line i < 16 \<Longrightarrow>
      \<exists>s'. on i s = Inr s' \<and> masked s' = (masked s)(line i := False) \<and> rest s' = rest s \<and> (good s \<longrightarrow> good s')"
    and off_line: "line i < 16 \<Longrightarrow>
      \<exists>s'. off i s = Inr s' \<and> masked s' = (masked s)(line i := True) \<and> rest s' = rest s \<and> (good s \<longrightarrow> good s')"
begin

lemma run_lines_masked:
  assumes "\<forall>(b, i) \<in> set ops. line i < 16"
  shows "\<exists>s'. run_lines on off ops s = Inr s' \<and> rest s' = rest s \<and> (good s \<longrightarrow> good s') \<and>
    masked s' = fold (\<lambda>(b, i) f. f(line i := \<not> b)) ops (masked s)"
  using assms
proof (induction ops arbitrary: s)
  case (Cons op ops)
  obtain b i where op: "op = (b, i)" by fastforce
  then have "line i < 16" using Cons.prems by auto
  then obtain s1 where s1: "(if b then on i s else off i s) = Inr s1" "masked s1 = (masked s)(line i := \<not> b)"
    "rest s1 = rest s" "good s \<longrightarrow> good s1"
    using on_line [of i s] off_line [of i s] by (cases b) auto
  have "\<forall>(b, i) \<in> set ops. line i < 16" using Cons.prems by auto
  from Cons.IH [OF this, of s1] show ?case using s1 by (auto simp: op)
qed simp

end

definition kept_by_lines :: "irq_state \<Rightarrow> u32 \<times> idt_entry list \<times> idt_reg \<times> idt_reg option \<times> addr list \<times> u32" where
  "kept_by_lines s = (spurious_irq_mask s, idt s, idt_ptr s, idtr s, irq_handler s, flags s)"

interpretation pic: irq_lines pic_enable_irq pic_disable_irq unat "\<lambda>s k. bit (irq_mask s) k" pic_synced kept_by_lines
proof unfold_locales
  fix i :: u8 and s
  assume i: "unat i < 16"
  then show "\<exists>s'. pic_enable_irq i s = Inr s' \<and> (\<lambda>k. bit (irq_mask s') k) = (\<lambda>k. bit (irq_mask s) k)(unat i := False) \<and>
      kept_by_lines s' = kept_by_lines s \<and> (pic_synced s \<longrightarrow> pic_synced s')"
    by (auto simp: pic_enable_irq_eq kept_by_lines_def bit_clear_line fun_eq_iff intro!: mask_port_synced)
  show "\<exists>s'. pic_disable_irq i s = Inr s' \<and> (\<lambda>k. bit (irq_mask s') k) = (\<lambda>k. bit (irq_mask s) k)(unat i := True) \<and>
      kept_by_lines s' = kept_by_lines s \<and> (pic_synced s \<longrightarrow> pic_synced s')"
    using i by (auto simp: pic_disable_irq_eq kept_by_lines_def bit_set_line fun_eq_iff intro!: mask_port_synced)
qed

section \<open>The descriptor table after initialisation\<close>

lemma fold_update:
  assumes "d + n \<le> length t"
  shows "fold (\<lambda>k t. t[d + k := f k]) [0..<n] t = take d t @ map f [0..<n] @ drop (d + n) t"
  using assms
proof (induction n)
  case (Suc n)
  have "drop (d + n) t = t ! (d + n) # drop (Suc (d + n)) t" using Suc.prems by (simp add: Cons_nth_drop_Suc)
  then show ?case using Suc by (simp add: list_update_append)
qed simp

definition gate :: "addr \<Rightarrow> u8 \<Rightarrow> idt_entry" where
  "gate a att = \<lparr>offset0_15 = ucast a, selector = 0x10, paramcnt = 0, attribs = att, offset16_31 = ucast (drop_bit 16 a)\<rparr>"

lemma gate_overwrites:
  "e\<lparr>offset0_15 := x, offset16_31 := y, selector := z, attribs := u, paramcnt := v\<rparr> =
   (\<lparr>offset0_15 = x, selector = z, paramcnt = v, attribs = u, offset16_31 = y\<rparr> :: idt_entry)"
  by (cases e) simp

lemma set_gate_eq:
  "set_intr_gate i a s = s\<lparr>idt := (idt s)[unat (ucast i :: u8) := gate a INT_GATE]\<rparr>"
  "set_trap_gate i a s = s\<lparr>idt := (idt s)[unat (ucast i :: u8) := gate a TRAP_GATE]\<rparr>"
proof -
  have "a AND 0xFFFF = take_bit 16 a"
    by (simp add: take_bit_eq_mask mask_eq_exp_minus_1)
  moreover have "(ucast (take_bit 16 a) :: u16) = ucast a"
    by (rule bit_word_eqI) (simp add: bit_simps)
  ultimately have "(ucast (a AND 0xFFFF) :: u16) = ucast a"
    by simp
  then show "set_intr_gate i a s = s\<lparr>idt := (idt s)[unat (ucast i :: u8) := gate a INT_GATE]\<rparr>"
    "set_trap_gate i a s = s\<lparr>idt := (idt s)[unat (ucast i :: u8) := gate a TRAP_GATE]\<rparr>"
    by (simp_all add: set_intr_gate_def set_trap_gate_def setup_idt_entry_def io_simps split_beta Let_def gate_def KERNEL_CODE_def
        gate_overwrites)
qed

lemma gate_loop_eq:
  assumes "i + n \<le> 256"
  shows "gate_loop (of_nat i) n h s = s\<lparr>idt := fold (\<lambda>k t. t[i + k := gate h INT_GATE]) [0..<n] (idt s)\<rparr>"
  using assms
proof (induction n arbitrary: i s)
  case (Suc n)
  have i: "unat (ucast (of_nat i :: u32) :: u8) = i" using Suc.prems by (simp add: unsigned_ucast_eq take_bit_eq_mod unat_of_nat)
  have "gate_loop (of_nat i) (Suc n) h s = gate_loop (of_nat (Suc i)) n h (s\<lparr>idt := (idt s)[i := gate h INT_GATE]\<rparr>)"
    by (simp add: set_gate_eq i add.commute)
  also have "\<dots> = s\<lparr>idt := fold (\<lambda>k t. t[Suc i + k := gate h INT_GATE]) [0..<n] ((idt s)[i := gate h INT_GATE])\<rparr>"
    using Suc.prems by (subst Suc.IH) simp_all
  also have "fold (\<lambda>k t. t[Suc i + k := gate h INT_GATE]) [0..<n] = fold (\<lambda>k t. t[i + k := gate h INT_GATE]) [1..<Suc n]"
    by (simp add: fold_map map_Suc_upt [symmetric] comp_def del: upt_Suc)
  finally show ?case by (simp add: upt_conv_Cons del: upt_Suc)
qed simp


lemma exc_gates_eq:
  "exc_gates L s = s\<lparr>idt := fold (\<lambda>k t. t[0 + k := gate (exc_stub L ! k) (if k \<in> {2, 14, 15} then INT_GATE else TRAP_GATE)])
     [0..<16] (idt s)\<rparr>"
  by (simp add: exc_gates_def set_gate_eq Let_def upto_16)

lemma irq_gates_eq:
  "irq_gates L s = s\<lparr>idt := fold (\<lambda>k t. t[32 + k := gate (irq_stub L ! k) TRAP_GATE]) [0..<16] (idt s)\<rparr>"
  by (simp add: irq_gates_def set_gate_eq Let_def upto_16)

definition idt_table :: "irq_image \<Rightarrow> idt_entry list" where
  "idt_table L =
     map (\<lambda>k. gate (exc_stub L ! k) (if k \<in> {2, 14, 15} then INT_GATE else TRAP_GATE)) [0..<16] @
     replicate 16 (gate (exc_unhand L) INT_GATE) @
     map (\<lambda>k. gate (irq_stub L ! k) TRAP_GATE) [0..<16] @
     replicate 208 (gate (irq_unhand L) INT_GATE)"

lemma gate_loop_fill:
  assumes "i + n \<le> 256" "length (idt s) = 256"
  shows "gate_loop (of_nat i) n h s = s\<lparr>idt := take i (idt s) @ replicate n (gate h INT_GATE) @ drop (i + n) (idt s)\<rparr>"
  using assms by (simp add: gate_loop_eq fold_update map_replicate_trivial map_replicate_const)

lemma idt_init_eq:
  assumes "length (idt s) = 256"
  shows "idt_init L s = s\<lparr>idt := idt_table L, idt_ptr := \<lparr>limit = 2047, base = idt_addr L\<rparr>,
     idtr := Some \<lparr>limit = 2047, base = idt_addr L\<rparr>\<rparr>"
proof -
  let ?g = "\<lambda>k. gate (exc_stub L ! k) (if k \<in> {2, 14, 15} then INT_GATE else TRAP_GATE)"
  let ?e = "map ?g [0..<16] @ replicate 16 (gate (exc_unhand L) INT_GATE)"
  let ?u = "gate (irq_unhand L) INT_GATE"
  have 1: "gate_loop 0 32 (exc_unhand L) s = s\<lparr>idt := replicate 32 (gate (exc_unhand L) INT_GATE) @ drop 32 (idt s)\<rparr>"
    (is "_ = ?s1") using gate_loop_fill [of 0 32 s] assms by simp
  have 2: "exc_gates L ?s1 = s\<lparr>idt := ?e @ drop 32 (idt s)\<rparr>" (is "_ = ?s2")
    using assms unfolding exc_gates_eq by (subst fold_update) simp_all
  have 3: "gate_loop 32 224 (irq_unhand L) ?s2 = s\<lparr>idt := ?e @ replicate 224 ?u\<rparr>" (is "_ = ?s3")
    using gate_loop_fill [of 32 224 ?s2] assms by simp
  have 4: "irq_gates L ?s3 = s\<lparr>idt := idt_table L\<rparr>"
    unfolding irq_gates_eq by (subst fold_update) (simp_all add: idt_table_def)
  show ?thesis
    unfolding idt_init_def using 1 2 3 4 by (simp add: Let_def IDT_SIZE_def)
qed

definition gate_offset :: "idt_entry \<Rightarrow> addr" where
  "gate_offset e = push_bit 16 (ucast (offset16_31 e)) OR ucast (offset0_15 e)"

lemma gate_offset_gate [simp]: "gate_offset (gate a att) = a"
  by (rule bit_word_eqI) (auto simp: gate_offset_def gate_def bit_simps)


section \<open>Acknowledging an interrupt\<close>

text \<open>The probe of the in-service registers accesses the command ports alone.\<close>

definition probe :: "io_event list \<Rightarrow> bool" where
  "probe t \<longleftrightarrow> (\<forall>e \<in> set t. \<exists>x. e \<in> {Out 0x20 x, Out 0xa0 x, In 0x20 x, In 0xa0 x})"

lemma irq_real_ok:
  assumes "unat i < 32"
  shows "\<exists>v t. irq_real dev i s = Inr (v, s\<lparr>io := t @ io s\<rparr>) \<and>
    probe t"
proof -
  let ?p = "if i <s 8 then 0x20 else 0xa0 :: u16"
  let ?v = "dev (Out ?p 0x0B # io s) ?p"
  have "\<exists>v. irq_real dev i s = Inr (v, s\<lparr>io := [Out ?p 0x0A, In ?p ?v, Out ?p 0x0B] @ io s\<rparr>)"
    using assms by (simp add: irq_real_def io_simps inp_def out_def port_defs)
  then show ?thesis by (elim exE) (intro exI conjI, assumption, simp add: probe_def)
qed

lemma last_out_probe:
  assumes "probe t"
  shows "last_out 0x21 (t @ u) = last_out 0x21 u" "last_out 0xa1 (t @ u) = last_out 0xa1 u"
  using assms by (induction t) (auto simp: probe_def)

lemma handle_spurious_irq_ok:
  assumes "unat i < 32"
  shows "\<exists>m t. handle_spurious_irq dev i s = Inr (s\<lparr>spurious_irq_mask := m, io := t @ io s\<rparr>) \<and>
    probe t"
proof -
  obtain v t where r: "irq_real dev i s = Inr (v, s\<lparr>io := t @ io s\<rparr>)"
    and t: "probe t"
    using irq_real_ok [OF assms, of dev s] by blast
  let ?m = "if v = 0 \<and> spurious_irq_mask s AND push_bit (unat i) 1 = 0
    then spurious_irq_mask s OR push_bit (unat i) 1 else spurious_irq_mask s"
  have "handle_spurious_irq dev i s = Inr (s\<lparr>spurious_irq_mask := ?m, io := t @ io s\<rparr>)"
    using assms by (simp add: handle_spurious_irq_def io_simps r)
  then show ?thesis using t by blast
qed

definition ack_trace :: "u32 \<Rightarrow> u16 \<Rightarrow> u8 \<Rightarrow> io_event list" where
  "ack_trace i m v =
     (if unat i < 8
      then [Out 0x20 0x20, Out 0x20 (0x60 + ucast i), Out 0x21 (ucast m), In 0x21 v]
      else [Out 0x20 0x20, Out 0xa0 0x20, Out 0xa0 0x62, Out 0xa0 (0x60 + ucast (i AND 7)),
            Out 0xa1 (ucast (drop_bit 8 m)), In 0xa1 v])"

lemma mask_and_ack_irq_eq:
  assumes "unat i < 16"
  shows "\<exists>m t v. mask_and_ack_irq dev i s =
      Inr (s\<lparr>irq_mask := set_line (irq_mask s) (unat i), spurious_irq_mask := m,
             io := ack_trace i (set_line (irq_mask s) (unat i)) v @ t @ io s\<rparr>) \<and>
    probe t"
proof -
  let ?s = "s\<lparr>flags := flags s AND NOT IF_FLAG\<rparr>"
  let ?b = "push_bit (unat i) (1 :: u32)"
  have "\<exists>m t. (if ucast (irq_mask s) AND ?b \<noteq> 0 then handle_spurious_irq dev i ?s else Inr ?s) =
      Inr (?s\<lparr>spurious_irq_mask := m, io := t @ io s\<rparr>) \<and>
    probe t"
  proof (cases "ucast (irq_mask s) AND ?b \<noteq> 0")
    case True
    then show ?thesis using handle_spurious_irq_ok [of i dev ?s] assms by simp
  next
    case False
    then show ?thesis by (intro exI [of _ "spurious_irq_mask s"] exI [of _ "[]"]) (simp add: probe_def)
  qed
  then obtain m t where sp: "(if ucast (irq_mask s) AND ?b \<noteq> 0 then handle_spurious_irq dev i ?s else Inr ?s) =
      Inr (?s\<lparr>spurious_irq_mask := m, io := t @ io s\<rparr>)"
    and t: "probe t" by blast
  have io: "io (s\<lparr>flags := f, spurious_irq_mask := m, io := u, irq_mask := w\<rparr>) = u" for f u w by simp
  have "mask_and_ack_irq dev i s =
      Inr (s\<lparr>irq_mask := set_line (irq_mask s) (unat i), spurious_irq_mask := m,
         io := ack_trace i (set_line (irq_mask s) (unat i))
           (dev (t @ io s) (if unat i < 8 then 0x21 else 0xa1)) @ t @ io s\<rparr>)"
    using assms line_register [OF assms] sp
    by (simp add: mask_and_ack_irq_def io_simps split_beta Let_def ack_slave_def ack_master_def inp_def out_def port_defs
        ack_trace_def set_line_def irq_slave_mask_def irq_master_mask_def)
  then show ?thesis using t by blast
qed


lemma mask_and_ack_irq_ok:
  assumes "unat i < 16"
  obtains s1 v t where "mask_and_ack_irq dev i s = Inr s1" "irq_mask s1 = set_line (irq_mask s) (unat i)"
    "flags s1 = flags s" "idt s1 = idt s" "idtr s1 = idtr s" "irq_handler s1 = irq_handler s"
    "io s1 = ack_trace i (irq_mask s1) v @ t @ io s" "probe t"
  using mask_and_ack_irq_eq [OF assms, of dev s] by (elim exE conjE) (rule that, assumption, simp_all)

lemma ack_synced:
  assumes "pic_synced s" "unat i < 16" "irq_mask s1 = set_line (irq_mask s) (unat i)"
    "io s1 = ack_trace i (irq_mask s1) v @ t @ io s"
    "probe t"
  shows "pic_synced s1"
proof (cases "unat i < 8")
  case True
  have "(ucast (drop_bit 8 (irq_mask s1)) :: u8) = ucast (drop_bit 8 (irq_mask s))"
    using True assms(3) by (intro high_byte_eq) (auto simp: bit_set_line)
  then show ?thesis
    using assms(1) True last_out_probe [OF assms(5), of "io s"]
    by (simp add: pic_synced_def assms(4) ack_trace_def irq_master_mask_def irq_slave_mask_def)
next
  case False
  have "(ucast (irq_mask s1) :: u8) = ucast (irq_mask s)"
    using False assms(3) by (intro low_byte_eq) (auto simp: bit_set_line)
  then show ?thesis
    using assms(1) False last_out_probe [OF assms(5), of "io s"]
    by (simp add: pic_synced_def assms(4) ack_trace_def irq_master_mask_def irq_slave_mask_def)
qed

section \<open>Installing a handler\<close>

lemma irq_small_sint:
  assumes "unat (i :: u32) < 16"
  shows "sint i = int (unat i)" "\<not> IRQ_NR <s i" "uint i < 16"
proof -
  have u: "uint i < 16" "0 \<le> uint i" using assms by (simp_all flip: of_nat_less_iff [where ?'a = int])
  then show "uint i < 16" by simp
  have "signed_take_bit 31 (uint i) = uint i" using u by (intro signed_take_bit_int_eq_self) (simp_all add: order_trans [of _ 0])
  then show "sint i = int (unat i)" by (simp add: sint_uint)
  then show "\<not> IRQ_NR <s i" using u by (simp add: word_sless_alt IRQ_NR_def)
qed

lemma irq_small_ucast: "unat (i :: u32) < 16 \<Longrightarrow> unat (ucast i :: u8) = unat i"
  by (simp add: unsigned_ucast_eq take_bit_eq_mod)

lemma install_interrupt_handler_eq:
  assumes "unat i < 16" "length (irq_handler s) = 16" "length (idt s) = 256"
  shows "\<exists>s'. install_interrupt_handler i h typ s = Inr (0, s') \<and>
    irq_handler s' = (irq_handler s)[unat i := h] \<and>
    idt s' = (idt s)[32 + unat i := (idt s ! (32 + unat i))\<lparr>attribs := ucast typ\<rparr>] \<and>
    (\<forall>k. bit (irq_mask s') k \<longleftrightarrow> k \<noteq> unat i \<and> bit (irq_mask s) k) \<and> flags s' = flags s \<and> idtr s' = idtr s \<and>
    (pic_synced s \<longrightarrow> pic_synced s')"
proof -
  let ?s = "s\<lparr>flags := flags s AND NOT IF_FLAG, irq_handler := (irq_handler s)[unat i := h],
     idt := (idt s)[32 + unat i := (idt s ! (32 + unat i))\<lparr>attribs := ucast typ\<rparr>]\<rparr>"
  have n: "nat (32 + int (unat i)) = 32 + unat i" by (simp add: nat_add_distrib)
  obtain s3 where s3: "pic_enable_irq (ucast i) ?s = Inr s3" and
    s3f: "(\<lambda>k. bit (irq_mask s3) k) = (\<lambda>k. bit (irq_mask s) k)(unat i := False)"
      "kept_by_lines s3 = kept_by_lines ?s" "pic_synced ?s \<longrightarrow> pic_synced s3"
    using pic.on_line [of "ucast i" ?s] assms(1) by (auto simp: irq_small_ucast)
  have "install_interrupt_handler i h typ s = Inr (0, irq_restore (flags s) s3)"
    using assms s3 n by (simp add: install_interrupt_handler_def io_simps split_beta Let_def set_handler_def set_attribs_def
        irq_small_sint)
  moreover have "pic_synced (irq_restore f u) = pic_synced u" "pic_synced ?s = pic_synced s" for f u
    by (simp_all add: io_simps pic_synced_def irq_master_mask_def irq_slave_mask_def)
  moreover have "\<forall>k. bit (irq_mask s3) k \<longleftrightarrow> k \<noteq> unat i \<and> bit (irq_mask s) k"
    using fun_cong [OF s3f(1)] by simp
  ultimately show ?thesis using s3f(2,3) by (simp add: io_simps kept_by_lines_def)
qed


text \<open>A device of latches, which returns what was last written: reading gives back what was written.\<close>

fun latched :: device where
  "latched [] p = 0"
| "latched (Out q v # t) p = (if p = q then v else latched t p)"
| "latched (In q v # t) p = latched t p"

lemma wide_port_roundtrip:
  "fst (in16 latched port (out16 port v s)) = v" "fst (in32 latched port (out32 port w s)) = w"
proof -
  have "ucast (ucast v :: u8) OR push_bit 8 (ucast (ucast (drop_bit 8 v) :: u8)) = v" for v :: u16
    by (rule bit_word_eqI) (auto simp: bit_simps)
  moreover have "ucast (ucast w :: u16) OR push_bit 16 (ucast (ucast (drop_bit 16 w) :: u16)) = w" for w :: u32
    by (rule bit_word_eqI) (auto simp: bit_simps)
  ultimately show "fst (in16 latched port (out16 port v s)) = v" "fst (in32 latched port (out32 port w s)) = w"
    by (simp_all add: in32_def in16_def inp_def out32_def out16_def out_def)
qed

section \<open>Properties\<close>

text \<open>
  C11. Handling a real interrupt: for a line below 16 with a handler, the line is masked in the
  controller and acknowledged before the handler runs (the end-of-interrupt commands are the
  last port writes), the interrupt flag is as it was, and when the handler returns the line, and
  no other one, is enabled again. The handler is called exactly on the acknowledged state.
\<close>

theorem irq_handled:
  assumes "unat (irq c) < 16" "length (irq_handler s) = 16" "irq_handler s ! unat (irq c) \<noteq> NULL"
  shows "\<exists>s1 v t. mask_and_ack_irq dev (irq c) s = Inr s1 \<and>
    (\<forall>k. bit (irq_mask s1) k \<longleftrightarrow> k = unat (irq c) \<or> bit (irq_mask s) k) \<and>
    io s1 = ack_trace (irq c) (irq_mask s1) v @ t @ io s \<and> flags s1 = flags s \<and> (pic_synced s \<longrightarrow> pic_synced s1) \<and>
    (case code (irq_handler s ! unat (irq c)) c s1 of
       Inl e \<Rightarrow> default_irq_handler dev code c s = Inl e
     | Inr s2 \<Rightarrow> \<exists>s'. default_irq_handler dev code c s = Inr s' \<and> kept_by_lines s' = kept_by_lines s2 \<and>
         (\<forall>k. bit (irq_mask s') k \<longleftrightarrow> k \<noteq> unat (irq c) \<and> bit (irq_mask s2) k) \<and> (pic_synced s2 \<longrightarrow> pic_synced s'))"
proof -
  obtain s1 v t where s1: "mask_and_ack_irq dev (irq c) s = Inr s1" "irq_mask s1 = set_line (irq_mask s) (unat (irq c))"
    "flags s1 = flags s" "irq_handler s1 = irq_handler s"
    "io s1 = ack_trace (irq c) (irq_mask s1) v @ t @ io s" "probe t"
    using mask_and_ack_irq_ok [OF assms(1), of dev s] by metis
  let ?r = "code (irq_handler s ! unat (irq c)) c s1"
  have lt: "irq c < IRQ_NR" using assms(1) by (simp add: word_less_nat_alt IRQ_NR_def)
  have "default_irq_handler dev code c s = (case ?r of Inl e \<Rightarrow> Inl e | Inr s2 \<Rightarrow> pic_enable_irq (ucast (irq c)) s2)"
    using s1 assms lt by (simp add: default_irq_handler_def call_handler_def end_of_irq_def split: sum.split)
  moreover have "\<exists>s'. pic_enable_irq (ucast (irq c)) s2 = Inr s' \<and> kept_by_lines s' = kept_by_lines s2 \<and>
      (\<forall>k. bit (irq_mask s') k \<longleftrightarrow> k \<noteq> unat (irq c) \<and> bit (irq_mask s2) k) \<and> (pic_synced s2 \<longrightarrow> pic_synced s')" for s2
    using pic.on_line [of "ucast (irq c)" s2] assms(1) by (auto simp: irq_small_ucast fun_eq_iff)
  ultimately have "(case ?r of
       Inl e \<Rightarrow> default_irq_handler dev code c s = Inl e
     | Inr s2 \<Rightarrow> \<exists>s'. default_irq_handler dev code c s = Inr s' \<and> kept_by_lines s' = kept_by_lines s2 \<and>
         (\<forall>k. bit (irq_mask s') k \<longleftrightarrow> k \<noteq> unat (irq c) \<and> bit (irq_mask s2) k) \<and> (pic_synced s2 \<longrightarrow> pic_synced s'))"
    by (simp split: sum.split)
  moreover have "\<forall>k. bit (irq_mask s1) k \<longleftrightarrow> k = unat (irq c) \<or> bit (irq_mask s) k"
    using assms(1) s1(2) by (auto simp: bit_set_line)
  moreover have "pic_synced s \<longrightarrow> pic_synced s1"
    using ack_synced [OF _ assms(1) s1(2,5,6)] by blast
  ultimately show ?thesis using s1(1,3,5) by blast
qed

definition demo_irq_image :: irq_image where
  "demo_irq_image = \<lparr>irq_stub = map (\<lambda>k. 0x101000 + 16 * of_nat k) [0..<16], exc_stub = map (\<lambda>k. 0x100800 + 16 * of_nat k) [0..<16],
     irq_unhand = 0x101100, exc_unhand = 0x100900, idt_addr = 0x104000, unhandled_interrupt_addr = 0x100400\<rparr>"

definition demo_context :: "u32 \<Rightarrow> irq_context" where
  "demo_context i = \<lparr>edi = 0, esi = 0, ebp = 0, ebx = 0, edx = 0, ecx = 0, eax = 0, es = 8, ds = 8, irq = i,
     eip = 0x100000, cs = 0x10, eflags = 0x202\<rparr>"

lemma irq_boot_fields [simp]:
  "length (irq_handler (irq_boot L f)) = 16" "length (idt (irq_boot L f)) = 256" "irq_mask (irq_boot L f) = 0xffff"
  "k < 16 \<Longrightarrow> irq_handler (irq_boot L f) ! k = unhandled_interrupt_addr L" "flags (irq_boot L f) = f" "io (irq_boot L f) = []"
  by (simp_all add: irq_boot_def)

theorem irq_handled_witness:
  "\<exists>s'. default_irq_handler (\<lambda>_ _. 0) (\<lambda>_ _. Inr) (demo_context 9) (irq_boot demo_irq_image 2) = Inr s' \<and>
     \<not> bit (irq_mask s') 9"
  using irq_handled [of "demo_context 9" "irq_boot demo_irq_image 2" "\<lambda>_ _. 0" "\<lambda>_ _. Inr"]
  by (auto simp: demo_context_def demo_irq_image_def NULL_def)

text \<open>
  C25. Initialisation of the descriptor table: afterwards each of the 256 vectors leads to its
  own entry point (the sixteen exception stubs, the sixteen interrupt stubs, and the two common
  stubs for all the others), all in the kernel code segment; the processor is told the address of
  the table and its last byte, and the flags are as they were.
\<close>

theorem idt_init_vectors:
  assumes "length (idt s) = 256" "v < 256"
  shows "gate_offset (idt (idt_init L s) ! v) =
      (if v < 16 then exc_stub L ! v else if v < 32 then exc_unhand L else if v < 48 then irq_stub L ! (v - 32) else irq_unhand L) \<and>
    attribs (idt (idt_init L s) ! v) = (if v < 16 \<and> v \<notin> {2, 14, 15} \<or> 32 \<le> v \<and> v < 48 then 0x8f else 0x8e) \<and>
    selector (idt (idt_init L s) ! v) = 0x10 \<and> length (idt (idt_init L s)) = 256 \<and>
    idtr (idt_init L s) = Some \<lparr>limit = 256 * 8 - 1, base = idt_addr L\<rparr> \<and> flags (idt_init L s) = flags s"
proof -
  have f: "attribs (gate a b) = b" "selector (gate a b) = 0x10" for a b by (simp_all add: gate_def)
  have c: "INT_GATE = 0x8e" "TRAP_GATE = 0x8f" by (simp_all add: INT_GATE_def TRAP_GATE_def PRESENT_def)
  consider "v < 16" | "16 \<le> v" "v < 32" | "32 \<le> v" "v < 48" | "48 \<le> v" by linarith
  then show ?thesis
    by cases (use assms in \<open>auto simp: idt_init_eq idt_table_def nth_append f c\<close>)
qed

theorem idt_init_vectors_witness:
  "gate_offset (idt (idt_init demo_irq_image (irq_boot demo_irq_image 2)) ! 33) = 0x101010"
  using idt_init_vectors [of "irq_boot demo_irq_image 2" 33 demo_irq_image] by (simp add: demo_irq_image_def)

lemma fold_upd_find:
  "fold (\<lambda>(b, i) f. f(line i := \<not> b)) ops f k =
     (case find (\<lambda>(b, i). line i = k) (rev ops) of Some (b, i) \<Rightarrow> \<not> b | None \<Rightarrow> f k)"
proof (induction ops rule: rev_induct)
  case (snoc op ops)
  then show ?case by (cases op; cases "line (snd op) = k") (simp_all add: fun_upd_same fun_upd_other del: fun_upd_apply)
qed simp

text \<open>
  C26. The mask of the lines: after any sequence of \<open>pic_enable_irq\<close> and \<open>pic_disable_irq\<close> on
  the sixteen lines, a line is masked exactly when the last operation on it masked it (or, with
  none, when it was masked before), the mask registers of both controllers hold \<open>irq_mask\<close> if
  they did before, and the interrupt flag, the handlers and the descriptor table are unchanged.
\<close>

theorem irq_line_history:
  assumes "\<forall>(b, i) \<in> set ops. unat i < 16"
  shows "\<exists>s'. run_lines pic_enable_irq pic_disable_irq ops s = Inr s' \<and>
    (\<forall>k. bit (irq_mask s') k \<longleftrightarrow>
      (case find (\<lambda>(b, i). unat i = k) (rev ops) of Some (b, i) \<Rightarrow> \<not> b | None \<Rightarrow> bit (irq_mask s) k)) \<and>
    (pic_synced s \<longrightarrow> pic_synced s') \<and> kept_by_lines s' = kept_by_lines s"
proof -
  obtain s' where s': "run_lines pic_enable_irq pic_disable_irq ops s = Inr s'" "kept_by_lines s' = kept_by_lines s"
    "pic_synced s \<longrightarrow> pic_synced s'"
    "(\<lambda>k. bit (irq_mask s') k) = fold (\<lambda>(b, i) f. f(unat i := \<not> b)) ops (\<lambda>k. bit (irq_mask s) k)"
    using pic.run_lines_masked [OF assms, of s] by blast
  have "bit (irq_mask s') k \<longleftrightarrow>
      (case find (\<lambda>(b, i). unat i = k) (rev ops) of Some (b, i) \<Rightarrow> \<not> b | None \<Rightarrow> bit (irq_mask s) k)" for k
    using fun_cong [OF s'(4), of k] fold_upd_find [of unat ops "\<lambda>k. bit (irq_mask s) k" k] by simp
  then show ?thesis using s' by blast
qed

theorem irq_line_history_witness:
  "\<exists>s'. run_lines pic_enable_irq pic_disable_irq [(True, 3), (True, 9), (False, 3)] (irq_boot demo_irq_image 2) = Inr s' \<and>
     bit (irq_mask s') 3 \<and> \<not> bit (irq_mask s') 9"
  using irq_line_history [of "[(True, 3), (True, 9), (False, 3)]" "irq_boot demo_irq_image 2"] by auto


lemma uninstall_interrupt_handler_eq:
  assumes "unat i < 16" "length (irq_handler s) = 16"
  shows "\<exists>s'. uninstall_interrupt_handler i s = Inr (0, s') \<and>
    irq_handler s' = (irq_handler s)[unat i := NULL] \<and> idt s' = idt s \<and>
    (\<forall>k. bit (irq_mask s') k \<longleftrightarrow> k = unat i \<or> bit (irq_mask s) k) \<and> flags s' = flags s \<and> idtr s' = idtr s \<and>
    (pic_synced s \<longrightarrow> pic_synced s')"
proof -
  let ?s = "s\<lparr>flags := flags s AND NOT IF_FLAG\<rparr>"
  obtain s1 where s1: "pic_disable_irq (ucast i) ?s = Inr s1" and
    s1f: "(\<lambda>k. bit (irq_mask s1) k) = (\<lambda>k. bit (irq_mask s) k)(unat i := True)"
      "kept_by_lines s1 = kept_by_lines ?s" "pic_synced ?s \<longrightarrow> pic_synced s1"
    using pic.off_line [of "ucast i" ?s] assms(1) by (auto simp: irq_small_ucast)
  let ?s2 = "s1\<lparr>irq_handler := (irq_handler s1)[unat i := NULL]\<rparr>"
  have "length (irq_handler s1) = 16" using s1f(2) assms(2) by (simp add: kept_by_lines_def)
  then have "uninstall_interrupt_handler i s = Inr (0, irq_restore (flags s) ?s2)"
    using assms s1 by (simp add: uninstall_interrupt_handler_def io_simps split_beta Let_def set_handler_def irq_small_sint)
  moreover have "pic_synced (irq_restore f ?s2) = pic_synced s1" "pic_synced ?s = pic_synced s" for f
    by (simp_all add: io_simps pic_synced_def irq_master_mask_def irq_slave_mask_def)
  moreover have "\<forall>k. bit (irq_mask s1) k \<longleftrightarrow> k = unat i \<or> bit (irq_mask s) k"
    using fun_cong [OF s1f(1)] by simp
  ultimately show ?thesis using s1f(2,3) by (simp add: io_simps kept_by_lines_def)
qed

text \<open>
  C27. Installing a handler on one of the sixteen lines returns 0, stores the handler and the
  gate type of that line alone, enables the line in the controller and leaves the interrupt flag
  as it was. Uninstalling it masks the line and leaves \<open>NULL\<close> as its handler.
\<close>

theorem install_uninstall_handler:
  assumes "unat i < 16" "length (irq_handler s) = 16" "length (idt s) = 256"
  shows "(\<exists>s'. install_interrupt_handler i h typ s = Inr (0, s') \<and>
      irq_handler s' = (irq_handler s)[unat i := h] \<and>
      idt s' = (idt s)[32 + unat i := (idt s ! (32 + unat i))\<lparr>attribs := ucast typ\<rparr>] \<and>
      (\<forall>k. bit (irq_mask s') k \<longleftrightarrow> k \<noteq> unat i \<and> bit (irq_mask s) k) \<and> flags s' = flags s \<and> idtr s' = idtr s \<and>
      (pic_synced s \<longrightarrow> pic_synced s')) \<and>
    (\<exists>s'. uninstall_interrupt_handler i s = Inr (0, s') \<and>
      irq_handler s' = (irq_handler s)[unat i := NULL] \<and> idt s' = idt s \<and>
      (\<forall>k. bit (irq_mask s') k \<longleftrightarrow> k = unat i \<or> bit (irq_mask s) k) \<and> flags s' = flags s \<and> idtr s' = idtr s \<and>
      (pic_synced s \<longrightarrow> pic_synced s'))"
  using install_interrupt_handler_eq [OF assms] uninstall_interrupt_handler_eq [OF assms(1,2)] by (intro conjI)

theorem install_uninstall_handler_witness:
  "\<exists>s'. install_interrupt_handler 5 0x100500 0x8e (irq_boot demo_irq_image 0x202) = Inr (0, s') \<and>
     \<not> bit (irq_mask s') 5 \<and> irq_handler s' ! 5 = 0x100500"
  using install_uninstall_handler [of 5 "irq_boot demo_irq_image 0x202" "0x100500" "0x8e"] by auto

text \<open>
  C28. The argument check of \<open>install_interrupt_handler\<close> and \<open>uninstall_interrupt_handler\<close>: a
  number above 16 is refused with \<open>-EINVAL\<close> and no effect, but 16 itself passes the check
  \<open>irq > IRQ_NR\<close> and the handler is stored one element past the end of \<open>irq_handler\<close>, and every
  negative number passes it too: installing writes before the array, uninstalling does the same or, where the low
  byte of the number is 32 or more, shifts by it first, which is undefined.
\<close>

theorem install_argument_check:
  assumes "length (irq_handler s) = 16"
  shows "(16 < sint i \<longrightarrow> install_interrupt_handler i h typ s = Inr (- 22, s) \<and>
      uninstall_interrupt_handler i s = Inr (- 22, s)) \<and>
    install_interrupt_handler 16 h typ s = Inl (OUT_OF_BOUNDS 16) \<and>
    uninstall_interrupt_handler 16 s = Inl (OUT_OF_BOUNDS 16) \<and>
    (sint i < 0 \<longrightarrow> install_interrupt_handler i h typ s = Inl (OUT_OF_BOUNDS (sint i)) \<and>
      uninstall_interrupt_handler i s =
        Inl (if unat (ucast i :: u8) < 32 then OUT_OF_BOUNDS (sint i) else UNDEFINED_SHIFT (unat (ucast i :: u8))))"
proof (intro conjI impI)
  have chk: "IRQ_NR <s i \<longleftrightarrow> 16 < sint i" for i by (simp add: word_sless_alt IRQ_NR_def)
  show "install_interrupt_handler i h typ s = Inr (- 22, s)" "uninstall_interrupt_handler i s = Inr (- 22, s)"
    if "16 < sint i"
    using that by (simp_all add: install_interrupt_handler_def uninstall_interrupt_handler_def chk EINVAL_def)
  show "install_interrupt_handler 16 h typ s = Inl (OUT_OF_BOUNDS 16)"
    using assms by (simp add: install_interrupt_handler_def chk set_handler_def io_simps split_beta Let_def)
  have "irq_handler s1 = irq_handler s" if "pic_disable_irq 16 (snd (irq_save s)) = Inr s1" for s1
    using that by (auto simp: pic_disable_irq_eq io_simps)
  moreover have "\<exists>s1. pic_disable_irq 16 (snd (irq_save s)) = Inr s1" by (simp add: pic_disable_irq_eq)
  ultimately show "uninstall_interrupt_handler 16 s = Inl (OUT_OF_BOUNDS 16)"
    using assms by (auto simp: uninstall_interrupt_handler_def chk set_handler_def split_beta Let_def)
  show "install_interrupt_handler i h typ s = Inl (OUT_OF_BOUNDS (sint i))" if "sint i < 0"
    using that by (simp add: install_interrupt_handler_def chk set_handler_def io_simps split_beta Let_def)
  show "uninstall_interrupt_handler i s =
      Inl (if unat (ucast i :: u8) < 32 then OUT_OF_BOUNDS (sint i) else UNDEFINED_SHIFT (unat (ucast i :: u8)))" if "sint i < 0"
    using that by (auto simp: uninstall_interrupt_handler_def chk set_handler_def pic_disable_irq_eq split_beta Let_def)
      (simp add: pic_disable_irq_def shift1_def)
qed

theorem install_argument_check_witness:
  "install_interrupt_handler 16 0x100500 0x8e (irq_boot demo_irq_image 2) = Inl (OUT_OF_BOUNDS 16) \<and>
   install_interrupt_handler 17 0x100500 0x8e (irq_boot demo_irq_image 2) = Inr (- 22, irq_boot demo_irq_image 2)"
  using install_argument_check [of "irq_boot demo_irq_image 2" 17 "0x100500" "0x8e"] by simp

section \<open>Interrupts without a handler\<close>

lemma default_irq_handler_call:
  assumes "unat (irq c) < 16" "length (irq_handler s) = 16"
  shows "\<exists>s1. irq_handler s1 = irq_handler s \<and> default_irq_handler dev code c s =
    (case call_handler code (irq_handler s ! unat (irq c)) c s1 of Inl e \<Rightarrow> Inl e | Inr s2 \<Rightarrow> end_of_irq c s2)"
proof -
  obtain s1 where "mask_and_ack_irq dev (irq c) s = Inr s1" "irq_handler s1 = irq_handler s"
    using mask_and_ack_irq_ok [OF assms(1), of dev s] by metis
  moreover have "irq c < IRQ_NR" using assms(1) by (simp add: word_less_nat_alt IRQ_NR_def)
  ultimately show ?thesis using assms by (auto simp: default_irq_handler_def)
qed

lemma default_irq_handler_unhandled:
  assumes "unat (irq c) < 16" "length (irq_handler s) = 16" "irq_handler s ! unat (irq c) = a" "a \<noteq> NULL" "code a = unhandled_interrupt"
  shows "default_irq_handler dev code c s = Inl (BUG_TRUE 67)"
  using default_irq_handler_call [OF assms(1,2), of dev code] assms(3-5) by (auto simp: call_handler_def unhandled_interrupt_def)

lemma default_irq_handler_null:
  assumes "unat (irq c) < 16" "length (irq_handler s) = 16" "irq_handler s ! unat (irq c) = NULL"
  shows "default_irq_handler dev code c s = Inl NULL_CALL"
  using default_irq_handler_call [OF assms(1,2), of dev code] assms(3) by (auto simp: call_handler_def)

lemma default_irq_handler_shift:
  "32 \<le> unat (irq c) \<Longrightarrow> default_irq_handler dev code c s = Inl (UNDEFINED_SHIFT (unat (irq c)))"
  by (simp add: default_irq_handler_def mask_and_ack_irq_def shift1_def)

end
