(* ===== verification/Console.thy ===== *)
theory Console
  imports Prelude "HOL-Library.Signed_Division"
begin

text \<open>
  The console driver (\<open>kernel/console.c\<close>, \<open>include/console.h\<close>, \<open>include/io.h\<close>): the
  2000 cells of the video buffer at 0xb8000, the cursor \<open>console_pos\<close> and the bytes written to
  the ports of the CRT controller. An access outside the 80 by 25 buffer is the value
  \<open>Inl (BAD_CELL i)\<close>; \<open>printk\<close> is in the theory Printk, over the formatter.

  The invariant is that the buffer keeps its 2000 cells and the cursor stays inside it. The
  lemmas show that every byte keeps it, what each byte does to the cells, and that the
  controller is told the cursor position. The locale \<open>char_sink\<close> is the interface the printing
  code uses.
\<close>

section \<open>Ports\<close>

text \<open>The bytes sent to the I/O ports, latest first.\<close>

type_synonym port_trace = "(u16 \<times> u8) list"

definition outb :: "u8 \<Rightarrow> u16 \<Rightarrow> port_trace \<Rightarrow> port_trace" where
  "outb val port t = (port, val) # t"

section \<open>Data\<close>

definition CONSOLE_ADDRESS :: addr where "CONSOLE_ADDRESS = 0xb8000"
definition CONSOLE_WIDTH :: int where "CONSOLE_WIDTH = 80"
definition CONSOLE_HEIGHT :: int where "CONSOLE_HEIGHT = 25"
definition CONSOLE_BUFSIZE :: int where "CONSOLE_BUFSIZE = CONSOLE_WIDTH * CONSOLE_HEIGHT"
definition VIDEO_CRT_PORT :: u16 where "VIDEO_CRT_PORT = 0x03d4"
definition LAST_LINE :: int where "LAST_LINE = CONSOLE_WIDTH * (CONSOLE_HEIGHT - 1)"

datatype color = BLACK | BLUE | GREEN | CYAN | RED | MAGENTA | BROWN | GREY | DARK_GREY |
  BRIGHT_BLUE | BRIGHT_GREEN | BRIGHT_CYAN | BRIGHT_RED | BRIGHT_MAGENTA | YELLOW | WHITE | COLOR_END

primrec color_value :: "color \<Rightarrow> u8" where
  "color_value BLACK = 0" | "color_value BLUE = 1" | "color_value GREEN = 2" |
  "color_value CYAN = 3" | "color_value RED = 4" | "color_value MAGENTA = 5" |
  "color_value BROWN = 6" | "color_value GREY = 7" | "color_value DARK_GREY = 8" |
  "color_value BRIGHT_BLUE = 9" | "color_value BRIGHT_GREEN = 10" | "color_value BRIGHT_CYAN = 11" |
  "color_value BRIGHT_RED = 12" | "color_value BRIGHT_MAGENTA = 13" | "color_value YELLOW = 14" |
  "color_value WHITE = 15" | "color_value COLOR_END = 16"

definition console_entry :: "u8 \<Rightarrow> u8 \<Rightarrow> u8 \<Rightarrow> u16" where
  "console_entry ch fg bg = push_bit 12 (ucast bg) OR push_bit 8 (ucast fg) OR ucast ch"

record console =
  console_buffer :: "u16 list"
  console_pos :: int
  crt_ports :: port_trace

datatype console_fault = BAD_CELL int

section \<open>Operations\<close>

text \<open>An assignment \<open>console_buffer[i] = v\<close>.\<close>

definition set_cell :: "int \<Rightarrow> u16 \<Rightarrow> console \<Rightarrow> console_fault + console" where
  "set_cell i v s =
     (if 0 \<le> i \<and> i < int (length (console_buffer s))
      then Inr (s\<lparr>console_buffer := (console_buffer s)[nat i := v]\<rparr>) else Inl (BAD_CELL i))"

definition get_cell :: "int \<Rightarrow> console \<Rightarrow> console_fault + u16" where
  "get_cell i s =
     (if 0 \<le> i \<and> i < int (length (console_buffer s))
      then Inr (console_buffer s ! nat i) else Inl (BAD_CELL i))"

definition refresh_cursor :: "console \<Rightarrow> console" where
  "refresh_cursor s =
     (let p = console_pos s in
      s\<lparr>crt_ports :=
          outb (word_of_int (p AND 0xff)) (VIDEO_CRT_PORT + 1)
          (outb 15 (VIDEO_CRT_PORT + 0)
          (outb (word_of_int (drop_bit 8 p)) (VIDEO_CRT_PORT + 1)
          (outb 14 (VIDEO_CRT_PORT + 0) (crt_ports s))))\<rparr>)"

text \<open>The two loops of \<open>console_scroll_up\<close>, and the loop of \<open>__console_clear\<close>: \<open>for (i = 0; i < n; i++)\<close>.\<close>

fun scroll_loop :: "int \<Rightarrow> nat \<Rightarrow> console \<Rightarrow> console_fault + console" where
  "scroll_loop i 0 s = Inr s"
| "scroll_loop i (Suc n) s =
     (case get_cell (i + CONSOLE_WIDTH) s of Inl e \<Rightarrow> Inl e
      | Inr v \<Rightarrow> (case set_cell i v s of Inl e \<Rightarrow> Inl e | Inr s' \<Rightarrow> scroll_loop (i + 1) n s'))"

fun fill_loop :: "int \<Rightarrow> u16 \<Rightarrow> nat \<Rightarrow> console \<Rightarrow> console_fault + console" where
  "fill_loop i v 0 s = Inr s"
| "fill_loop i v (Suc n) s =
     (case set_cell i v s of Inl e \<Rightarrow> Inl e | Inr s' \<Rightarrow> fill_loop (i + 1) v n s')"

definition console_scroll_up :: "console \<Rightarrow> console_fault + console" where
  "console_scroll_up s =
     (case scroll_loop 0 (nat LAST_LINE) s of Inl e \<Rightarrow> Inl e
      | Inr s1 \<Rightarrow>
        (case fill_loop LAST_LINE (console_entry 0 (color_value WHITE) (color_value BLACK)) (nat CONSOLE_WIDTH) s1 of
           Inl e \<Rightarrow> Inl e
         | Inr s2 \<Rightarrow> Inr (s2\<lparr>console_pos := console_pos s2 - CONSOLE_WIDTH\<rparr>)))"

text \<open>The \<open>switch\<close> of \<open>kputchar\<close>; C's \<open>%\<close> truncates, so it is \<open>smod\<close>.\<close>

definition kputchar_switch :: "u8 \<Rightarrow> console \<Rightarrow> console_fault + console" where
  "kputchar_switch c s =
     (let p = console_pos s in
      if c = 10 then (let p' = p + CONSOLE_WIDTH in Inr (s\<lparr>console_pos := p' - p' smod CONSOLE_WIDTH\<rparr>))
      else if c = 13 then Inr (s\<lparr>console_pos := p - p smod CONSOLE_WIDTH\<rparr>)
      else if c = 9 then Inr (s\<lparr>console_pos := p + 8\<rparr>)
      else if c = 8 then
        (if p > 0 then set_cell (p - 1) (console_entry 32 (color_value WHITE) (color_value BLACK))
                         (s\<lparr>console_pos := p - 1\<rparr>)
         else Inr s)
      else set_cell p (console_entry c (color_value GREY) (color_value BLACK)) (s\<lparr>console_pos := p + 1\<rparr>))"

definition kputchar :: "u8 \<Rightarrow> console \<Rightarrow> console_fault + console" where
  "kputchar c s =
     (case kputchar_switch c s of Inl e \<Rightarrow> Inl e
      | Inr s1 \<Rightarrow>
        (case (if console_pos s1 \<ge> CONSOLE_BUFSIZE then console_scroll_up s1 else Inr s1) of
           Inl e \<Rightarrow> Inl e | Inr s2 \<Rightarrow> Inr (refresh_cursor s2)))"

definition raw_console_clear :: "u8 \<Rightarrow> u8 \<Rightarrow> console \<Rightarrow> console_fault + console" where
  "raw_console_clear fg bg s =
     (case fill_loop 0 (console_entry 0 fg bg) (nat CONSOLE_BUFSIZE) (s\<lparr>console_pos := 0\<rparr>) of
        Inl e \<Rightarrow> Inl e | Inr s' \<Rightarrow> Inr (refresh_cursor s'))"

definition console_clear :: "console \<Rightarrow> console_fault + console" where
  "console_clear = raw_console_clear (color_value GREY) (color_value BLACK)"

definition console_init :: "console \<Rightarrow> console_fault + console" where
  "console_init = console_clear"

section \<open>Effect of the loops\<close>

lemmas console_consts = CONSOLE_WIDTH_def CONSOLE_HEIGHT_def CONSOLE_BUFSIZE_def LAST_LINE_def

lemma console_const_vals [simp]:
  "CONSOLE_WIDTH = 80" "CONSOLE_HEIGHT = 25" "CONSOLE_BUFSIZE = 2000" "LAST_LINE = 1920"
  by (simp_all add: console_consts)

lemma set_cell_nat:
  assumes "i < length (console_buffer s)"
  shows "set_cell (int i) v s = Inr (s\<lparr>console_buffer := (console_buffer s)[i := v]\<rparr>)"
  using assms by (simp add: set_cell_def)

lemma scroll_loop_eq:
  assumes "i + n + 80 \<le> length (console_buffer s)"
  shows "scroll_loop (int i) n s =
    Inr (s\<lparr>console_buffer := take i (console_buffer s) @ take n (drop (i + 80) (console_buffer s)) @
             drop (i + n) (console_buffer s)\<rparr>)"
  using assms
proof (induction n arbitrary: i s)
  case (Suc n)
  let ?b = "console_buffer s"
  let ?s = "s\<lparr>console_buffer := ?b[i := ?b ! (i + 80)]\<rparr>"
  have nat: "nat (int i + 80) = i + 80" by simp
  have step: "scroll_loop (int i) (Suc n) s = scroll_loop (int (Suc i)) n ?s"
    using Suc.prems by (simp add: get_cell_def set_cell_nat nat add.commute)
  have "take (Suc i) (?b[i := ?b ! (i + 80)]) = take i ?b @ [?b ! (i + 80)]"
    using Suc.prems by (simp add: take_Suc_conv_app_nth)
  moreover have "take (Suc n) (drop (i + 80) ?b) = ?b ! (i + 80) # take n (drop (Suc i + 80) ?b)"
    using Suc.prems by (simp add: Cons_nth_drop_Suc [symmetric] del: drop_drop)
  ultimately show ?case
    unfolding step using Suc.prems by (subst Suc.IH) simp_all
qed simp

lemma fill_loop_eq:
  assumes "i + n \<le> length (console_buffer s)"
  shows "fill_loop (int i) v n s =
    Inr (s\<lparr>console_buffer := take i (console_buffer s) @ replicate n v @ drop (i + n) (console_buffer s)\<rparr>)"
  using assms
proof (induction n arbitrary: i s)
  case (Suc n)
  let ?b = "console_buffer s"
  have step: "fill_loop (int i) v (Suc n) s = fill_loop (int (Suc i)) v n (s\<lparr>console_buffer := ?b[i := v]\<rparr>)"
    using Suc.prems by (simp add: set_cell_nat add.commute)
  have "take (Suc i) (?b[i := v]) = take i ?b @ [v]"
    using Suc.prems by (simp add: take_Suc_conv_app_nth)
  then show ?case
    unfolding step using Suc.prems by (subst Suc.IH) simp_all
qed simp

definition console_wf :: "console \<Rightarrow> bool" where
  "console_wf s \<longleftrightarrow> length (console_buffer s) = 2000 \<and> 0 \<le> console_pos s \<and> console_pos s < 2000"

definition blank :: u16 where
  "blank = console_entry 0 (color_value WHITE) (color_value BLACK)"

lemma console_scroll_up_eq:
  assumes "length (console_buffer s) = 2000"
  shows "console_scroll_up s = Inr (s\<lparr>console_buffer := drop 80 (console_buffer s) @ replicate 80 blank,
           console_pos := console_pos s - 80\<rparr>)"
proof -
  have 1: "scroll_loop 0 1920 s =
      Inr (s\<lparr>console_buffer := drop 80 (console_buffer s) @ drop 1920 (console_buffer s)\<rparr>)" (is "_ = Inr ?s1")
    using scroll_loop_eq [of 0 1920 s] assms by simp
  have 2: "fill_loop 1920 blank 80 ?s1 = Inr (s\<lparr>console_buffer := drop 80 (console_buffer s) @ replicate 80 blank\<rparr>)"
    using fill_loop_eq [of 1920 80 ?s1 blank] assms by simp
  show ?thesis
    unfolding console_scroll_up_def using 1 2 by (simp add: blank_def)
qed

lemma raw_console_clear_eq:
  assumes "length (console_buffer s) = 2000"
  shows "raw_console_clear fg bg s =
    Inr (refresh_cursor (s\<lparr>console_pos := 0, console_buffer := replicate 2000 (console_entry 0 fg bg)\<rparr>))"
  unfolding raw_console_clear_def
  using fill_loop_eq [of 0 2000 "s\<lparr>console_pos := 0\<rparr>" "console_entry 0 fg bg"] assms by simp


section \<open>The terminal the driver implements\<close>

text \<open>
  The abstract terminal: 25 rows of 80 cells, a row and a column. A byte moves the cursor or
  writes the cell under it; when the cursor leaves the last row, the top row is dropped and a
  blank one appended.
\<close>

record terminal =
  rows :: "u16 list list"
  row :: nat
  col :: nat

definition advance :: "nat \<Rightarrow> terminal \<Rightarrow> terminal" where
  "advance k t = t\<lparr>row := row t + (col t + k) div 80, col := (col t + k) mod 80\<rparr>"

definition write_under :: "u16 \<Rightarrow> terminal \<Rightarrow> terminal" where
  "write_under v t = t\<lparr>rows := (rows t)[row t := (rows t ! row t)[col t := v]]\<rparr>"

definition step_back :: "terminal \<Rightarrow> terminal" where
  "step_back t = (if col t = 0 then t\<lparr>row := row t - 1, col := 79\<rparr> else t\<lparr>col := col t - 1\<rparr>)"

definition scrolled :: "terminal \<Rightarrow> terminal" where
  "scrolled t = (if row t < 25 then t else t\<lparr>rows := tl (rows t) @ [replicate 80 blank], row := row t - 1\<rparr>)"

definition term_switch :: "u8 \<Rightarrow> terminal \<Rightarrow> terminal" where
  "term_switch c t =
     (if c = 10 then t\<lparr>row := row t + 1, col := 0\<rparr>
      else if c = 13 then t\<lparr>col := 0\<rparr>
      else if c = 9 then advance 8 t
      else if c = 8 then
        (if row t = 0 \<and> col t = 0 then t
         else write_under (console_entry 32 (color_value WHITE) (color_value BLACK)) (step_back t))
      else advance 1 (write_under (console_entry c (color_value GREY) (color_value BLACK)) t))"

definition term_put :: "u8 \<Rightarrow> terminal \<Rightarrow> terminal" where
  "term_put c t = scrolled (term_switch c t)"

definition row_of :: "u16 list \<Rightarrow> nat \<Rightarrow> u16 list" where
  "row_of b r = take 80 (drop (80 * r) b)"

definition console_abs :: "console \<Rightarrow> terminal" where
  "console_abs s = \<lparr>rows = map (row_of (console_buffer s)) [0..<25],
     row = nat (console_pos s) div 80, col = nat (console_pos s) mod 80\<rparr>"

lemma row_of_update:
  assumes "length b = 2000" "r < 25" "i < 2000"
  shows "row_of (b[i := v]) r = (if r = i div 80 then (row_of b r)[i mod 80 := v] else row_of b r)"
proof (rule nth_equalityI)
  fix j assume "j < length (row_of (b[i := v]) r)"
  then have j: "j < 80" using assms by (simp add: row_of_def)
  have "80 * r + j = i \<longleftrightarrow> r = i div 80 \<and> j = i mod 80" using j by auto
  then show "row_of (b[i := v]) r ! j = (if r = i div 80 then (row_of b r)[i mod 80 := v] else row_of b r) ! j"
    using assms j by (auto simp: row_of_def nth_list_update)
qed (use assms in \<open>auto simp: row_of_def\<close>)

lemma rows_update:
  assumes "length b = 2000" "i < 2000"
  shows "map (row_of (b[i := v])) [0..<25] =
    (map (row_of b) [0..<25])[i div 80 := (row_of b (i div 80))[i mod 80 := v]]"
  by (rule nth_equalityI) (use assms row_of_update in \<open>auto simp: nth_list_update\<close>)

lemma rows_scroll:
  assumes "length b = 2000"
  shows "map (row_of (drop 80 b @ replicate 80 blank)) [0..<25] =
    tl (map (row_of b) [0..<25]) @ [replicate 80 blank]"
proof (rule nth_equalityI)
  fix r assume "r < length (map (row_of (drop 80 b @ replicate 80 blank)) [0..<25])"
  then have r: "r < 25" by simp
  show "map (row_of (drop 80 b @ replicate 80 blank)) [0..<25] ! r =
      (tl (map (row_of b) [0..<25]) @ [replicate 80 blank]) ! r"
  proof (cases "r < 24")
    case True
    then show ?thesis using assms r by (simp add: nth_append nth_tl row_of_def add.commute)
  next
    case False
    then have "r = 24" using r by simp
    then show ?thesis using assms by (simp add: nth_append row_of_def)
  qed
qed simp

section \<open>One byte\<close>

text \<open>The cells and the cursor after the \<open>switch\<close>, as natural numbers.\<close>

lemma smod_nat: "0 \<le> p \<Longrightarrow> (p :: int) smod 80 = p mod 80"
  by (simp add: signed_modulo_int_def sgn_if)

definition switched :: "u8 \<Rightarrow> console \<Rightarrow> console" where
  "switched c s =
     (let p = nat (console_pos s) in
      if c = 10 then s\<lparr>console_pos := int (80 * (p div 80) + 80)\<rparr>
      else if c = 13 then s\<lparr>console_pos := int (80 * (p div 80))\<rparr>
      else if c = 9 then s\<lparr>console_pos := int (p + 8)\<rparr>
      else if c = 8 then
        (if p = 0 then s
         else s\<lparr>console_buffer := (console_buffer s)[p - 1 := console_entry 32 (color_value WHITE) (color_value BLACK)],
               console_pos := int (p - 1)\<rparr>)
      else s\<lparr>console_buffer := (console_buffer s)[p := console_entry c (color_value GREY) (color_value BLACK)],
             console_pos := int (p + 1)\<rparr>)"

lemma kputchar_switch_eq:
  assumes "console_wf s"
  shows "kputchar_switch c s = Inr (switched c s)"
proof -
  obtain p where p: "console_pos s = int p" and le: "p < 2000" and len: "length (console_buffer s) = 2000"
    using assms unfolding console_wf_def by (metis nat_less_iff nat_0_le of_nat_numeral)
  have line: "int p + 80 - (int p + 80) mod 80 = int (80 * (p div 80) + 80)" "int p - int p mod 80 = int (80 * (p div 80))"
    by (simp_all add: minus_mod_eq_mult_div of_nat_div)
  show ?thesis
    using le len line unfolding kputchar_switch_def switched_def
    by (simp add: p Let_def set_cell_def smod_nat of_nat_diff nat_diff_distrib)
qed

lemma switched_bounds:
  assumes "console_wf s"
  shows "length (console_buffer (switched c s)) = 2000" "0 \<le> console_pos (switched c s)"
    "console_pos (switched c s) < 2080" "crt_ports (switched c s) = crt_ports s"
  using assms by (auto simp: switched_def Let_def console_wf_def)

lemma kputchar_eq:
  assumes "console_wf s"
  shows "kputchar c s = Inr (refresh_cursor
     (if console_pos (switched c s) < 2000 then switched c s
      else (switched c s)\<lparr>console_buffer := drop 80 (console_buffer (switched c s)) @ replicate 80 blank,
             console_pos := console_pos (switched c s) - 80\<rparr>))"
  by (simp add: kputchar_def kputchar_switch_eq [OF assms] console_scroll_up_eq [OF switched_bounds(1) [OF assms]])

lemma refresh_cursor_fields [simp]:
  "console_buffer (refresh_cursor s) = console_buffer s"
  "console_pos (refresh_cursor s) = console_pos s"
  by (simp_all add: refresh_cursor_def Let_def)

lemma console_abs_refresh [simp]: "console_abs (refresh_cursor s) = console_abs s"
  by (simp add: console_abs_def)

lemma kputchar_wf:
  assumes "console_wf s"
  shows "\<exists>s'. kputchar c s = Inr s' \<and> console_wf s'"
  using switched_bounds [OF assms, of c] by (auto simp: kputchar_eq [OF assms] console_wf_def)


section \<open>The printing interface\<close>

text \<open>
  What the printing code relies on: a state the console driver keeps well formed, and a
  put operation that never faults on it. Writing a whole string then never faults, and its
  effect is the composition of the abstract effects.
\<close>

fun put_all :: "('c \<Rightarrow> 's \<Rightarrow> 'e + 's) \<Rightarrow> 'c list \<Rightarrow> 's \<Rightarrow> 'e + 's" where
  "put_all put [] s = Inr s"
| "put_all put (c # cs) s = (case put c s of Inl e \<Rightarrow> Inl e | Inr s' \<Rightarrow> put_all put cs s')"

lemma put_all_append:
  "put_all put (cs @ ds) s = (case put_all put cs s of Inl e \<Rightarrow> Inl e | Inr s' \<Rightarrow> put_all put ds s')"
  by (induction cs arbitrary: s) (auto split: sum.splits)

locale char_sink =
  fixes put :: "'c \<Rightarrow> 's \<Rightarrow> 'e + 's" and wf :: "'s \<Rightarrow> bool" and abs :: "'s \<Rightarrow> 'a" and aput :: "'c \<Rightarrow> 'a \<Rightarrow> 'a"
  assumes put_ok: "wf s \<Longrightarrow> \<exists>s'. put c s = Inr s' \<and> wf s' \<and> abs s' = aput c (abs s)"
begin

lemma put_all_ok: "wf s \<Longrightarrow> \<exists>s'. put_all put cs s = Inr s' \<and> wf s' \<and> abs s' = fold aput cs (abs s)"
proof (induction cs arbitrary: s)
  case (Cons c cs)
  obtain s1 where "put c s = Inr s1" "wf s1" "abs s1 = aput c (abs s)"
    using put_ok [OF Cons.prems] by blast
  then show ?case using Cons.IH [of s1] by simp
qed simp

end

section \<open>The driver implements the terminal\<close>

lemma step_back_pos:
  assumes "0 < (p :: nat)"
  shows "(p - 1) div 80 = (if p mod 80 = 0 then p div 80 - 1 else p div 80)"
    "(p - 1) mod 80 = (if p mod 80 = 0 then 79 else p mod 80 - 1)"
proof -
  let ?q = "p div 80" and ?r = "p mod 80"
  have p: "p = 80 * ?q + ?r" and r: "?r < 80" by simp_all
  have "(p - 1) div 80 = (if ?r = 0 then ?q - 1 else ?q) \<and> (p - 1) mod 80 = (if ?r = 0 then 79 else ?r - 1)"
  proof (cases "?r = 0")
    case True
    then obtain q where "p = 80 * Suc q" using p assms by (metis add_0_right mult_0_right not0_implies_Suc not_less_zero)
    then have "p - 1 = 80 * q + 79" "p div 80 = Suc q" "p mod 80 = 0" by simp_all
    then show ?thesis by simp
  next
    case False
    then have "p - 1 = 80 * ?q + (?r - 1)" using p by linarith
    moreover have "(80 * ?q + (?r - 1)) div 80 = ?q" "(80 * ?q + (?r - 1)) mod 80 = ?r - 1" using r by simp_all
    ultimately show ?thesis using False by simp
  qed
  then show "(p - 1) div 80 = (if ?r = 0 then ?q - 1 else ?q)" "(p - 1) mod 80 = (if ?r = 0 then 79 else ?r - 1)"
    by simp_all
qed

lemma advance_pos:
  "(p + k) div 80 = p div 80 + (p mod 80 + k) div (80 :: nat)" "(p + k) mod 80 = (p mod 80 + k) mod (80 :: nat)"
proof -
  have "(p + k) div 80 = (p div 80 * 80 + (p mod 80 + k)) div 80" by (metis add.assoc div_mult_mod_eq)
  then show "(p + k) div 80 = p div 80 + (p mod 80 + k) div (80 :: nat)" by (simp only: div_mult_self3 zero_neq_numeral [symmetric] not_False_eq_True)
qed (simp add: mod_add_left_eq)

lemma row_of_nth: "r < 25 \<Longrightarrow> map (row_of b) [0..<25] ! r = row_of b r"
  by simp

text \<open>The switch alone.\<close>

lemma console_abs_switched:
  assumes "console_wf s"
  shows "console_abs (switched c s) = term_switch c (console_abs s)"
proof -
  obtain p where p: "console_pos s = int p" and le: "p < 2000" and len: "length (console_buffer s) = 2000"
    using assms unfolding console_wf_def by (metis nat_less_iff nat_0_le of_nat_numeral)
  have zero: "p div 80 = 0 \<and> p mod 80 = 0 \<longleftrightarrow> p = 0" by (auto simp: div_eq_0_iff)
  have bounds: "(p - 1) div 80 < 25" "p - 1 < 2000" "p div 80 < 25" using le by simp_all
  consider "c = 10" | "c = 13" | "c = 9" | "c = 8" "p = 0" | "c = 8" "p \<noteq> 0" | "c \<notin> {8, 9, 10, 13}"
    by auto
  then show ?thesis
  proof cases
    case 1 then show ?thesis by (simp add: switched_def term_switch_def console_abs_def p nat_add_distrib nat_mult_distrib)
  next
    case 2 then show ?thesis by (simp add: switched_def term_switch_def console_abs_def p nat_mult_distrib)
  next
    case 3 then show ?thesis
      by (simp add: switched_def term_switch_def console_abs_def p advance_def advance_pos [of p 8] nat_add_distrib)
  next
    case 4 then show ?thesis by (simp add: switched_def term_switch_def console_abs_def p)
  next
    case 5
    then show ?thesis
      using zero bounds len step_back_pos [of p]
      by (cases "p mod 80 = 0")
        (auto simp: switched_def term_switch_def console_abs_def p write_under_def step_back_def rows_update row_of_nth
          nat_diff_distrib)
  next
    case 6
    then show ?thesis
      using bounds le len advance_pos [of p 1]
      by (simp add: switched_def term_switch_def console_abs_def p write_under_def advance_def rows_update row_of_nth
          nat_add_distrib)
  qed
qed

lemma kputchar_refines:
  assumes "console_wf s"
  shows "\<exists>s'. kputchar c s = Inr s' \<and> console_wf s' \<and> console_abs s' = term_put c (console_abs s)"
proof -
  let ?w = "switched c s"
  note b = switched_bounds [OF assms, of c]
  obtain p where p: "console_pos ?w = int p" using b(2) nonneg_int_cases by blast
  have row: "row (console_abs ?w) = p div 80" by (simp add: console_abs_def p)
  show ?thesis
  proof (cases "p < 2000")
    case True
    then have "scrolled (console_abs ?w) = console_abs ?w" by (simp add: scrolled_def row)
    then show ?thesis
      using True b by (simp add: kputchar_eq [OF assms] p term_put_def console_abs_switched [OF assms] console_wf_def)
  next
    case False
    define s' where "s' = ?w\<lparr>console_buffer := drop 80 (console_buffer ?w) @ replicate 80 blank,
       console_pos := console_pos ?w - 80\<rparr>"
    have pos: "console_pos s' = int (p - 80)" using False by (simp add: s'_def p)
    have "(p - 80) div 80 = p div 80 - 1" "(p - 80) mod 80 = p mod 80" using False by (simp_all add: le_div_geq le_mod_geq)
    moreover have "nat (int p - 80) = p - 80" "25 \<le> p div 80" using False div_le_mono [of 2000 p 80] by simp_all
    ultimately have "console_abs s' = scrolled (console_abs ?w)"
      using False rows_scroll [OF b(1)] by (simp add: scrolled_def row console_abs_def pos p) (simp add: s'_def)
    then show ?thesis
      using False b pos
      by (simp add: kputchar_eq [OF assms] p term_put_def console_abs_switched [OF assms] console_wf_def s'_def)
  qed
qed

interpretation tty: char_sink kputchar console_wf console_abs term_put
  by unfold_locales (rule kputchar_refines)



section \<open>Properties\<close>

text \<open>
  C9. The console driver implements the 80 by 25 terminal: on a well-formed console every byte
  is accepted without leaving the buffer, keeps the console well formed, and changes the screen
  and the cursor exactly as the terminal does (new line, carriage return, tabulation, backspace
  and the scroll at the end of the screen included); so does every string of bytes.
\<close>

theorem console_refines_terminal:
  assumes "console_wf s"
  shows "(\<exists>s'. kputchar c s = Inr s' \<and> console_wf s' \<and> console_abs s' = term_put c (console_abs s)) \<and>
    (\<exists>s'. put_all kputchar cs s = Inr s' \<and> console_wf s' \<and> console_abs s' = fold term_put cs (console_abs s))"
  using tty.put_ok [OF assms] tty.put_all_ok [OF assms] by blast

definition demo_console :: console where
  "demo_console = \<lparr>console_buffer = replicate 2000 blank, console_pos = 1999, crt_ports = []\<rparr>"

lemma demo_console_wf: "console_wf demo_console"
  by (simp add: console_wf_def demo_console_def)

theorem console_refines_terminal_witness:
  "console_wf demo_console \<and> (\<exists>s'. kputchar 65 demo_console = Inr s' \<and> console_wf s' \<and>
     console_abs s' = term_put 65 (console_abs demo_console))"
  using console_refines_terminal [OF demo_console_wf, of 65 "[]"] demo_console_wf by blast

definition told_pos :: "port_trace \<Rightarrow> int" where
  "told_pos t = (case t of (_, lo) # _ # (_, hi) # _ \<Rightarrow> 256 * uint hi + uint lo | _ \<Rightarrow> -1)"

lemma nibble_bits:
  assumes "(w :: u8) < 16" "bit w n"
  shows "n < 4"
proof -
  have "take_bit 4 w = w" using assms(1)
    by (simp add: word_unat_eq_iff unsigned_take_bit_eq take_bit_eq_mod word_less_nat_alt unat_mod)
  then show ?thesis using assms(2) by (metis bit_take_bit_iff)
qed

lemma pos_bytes:
  assumes "0 \<le> p" "p < 2000"
  shows "256 * uint (word_of_int (drop_bit 8 p) :: u8) + uint (word_of_int (p AND 255) :: u8) = p"
proof -
  have "p AND 255 = p mod 256" using and_nat_numerals take_bit_eq_mask [of 8 p] by (simp add: mask_eq_exp_minus_1 take_bit_eq_mod)
  moreover have "drop_bit 8 p = p div 256" by (simp add: drop_bit_eq_div)
  moreover have "p div 256 mod 256 = p div 256" using assms by (intro mod_pos_pos_trivial) auto
  ultimately show ?thesis by (simp add: uint_word_of_int)
qed

text \<open>
  After every byte the CRT controller has been told the cursor position: the last four
  port writes select register 14 and write the high byte, then select register 15 and write the
  low byte, and the two bytes make up \<open>console_pos\<close>. Nothing else is written to the ports.
\<close>

theorem cursor_told:
  assumes "console_wf s" "kputchar c s = Inr s'"
  shows "told_pos (crt_ports s') = console_pos s' \<and>
    map fst (take 4 (crt_ports s')) = [0x3d5, 0x3d4, 0x3d5, 0x3d4] \<and>
    snd (crt_ports s' ! 1) = 15 \<and> snd (crt_ports s' ! 3) = 14 \<and> drop 4 (crt_ports s') = crt_ports s"
proof -
  obtain s2 where s2: "s' = refresh_cursor s2" "crt_ports s2 = crt_ports s" "console_wf s2"
    using assms(2) switched_bounds [OF assms(1), of c]
    by (auto simp: kputchar_eq [OF assms(1)] console_wf_def split: if_splits)
  then show ?thesis
    using pos_bytes [of "console_pos s2"]
    by (simp add: refresh_cursor_def outb_def told_pos_def VIDEO_CRT_PORT_def Let_def console_wf_def)
qed

lemma demo_newline: "\<exists>s'. kputchar 10 demo_console = Inr s' \<and> console_pos s' = 1920"
  by (simp add: kputchar_eq [OF demo_console_wf]) (simp add: switched_def demo_console_def)

theorem cursor_told_witness:
  "\<exists>s'. kputchar 10 demo_console = Inr s' \<and> console_pos s' = 1920 \<and> told_pos (crt_ports s') = 1920"
  using demo_newline cursor_told [OF demo_console_wf, of 10] by auto

text \<open>
  Clearing works from any cursor position: the 2000 cells become blank in the given colours, the
  cursor goes to the top left corner, and the console is well formed; \<open>console_init\<close> therefore
  establishes the invariant the other operations need.
\<close>

lemma console_clear_establishes:
  assumes "length (console_buffer s) = 2000"
  shows "(\<exists>s'. raw_console_clear fg bg s = Inr s' \<and> console_wf s' \<and> console_pos s' = 0 \<and>
      console_buffer s' = replicate 2000 (console_entry 0 fg bg)) \<and>
    (\<exists>s'. console_init s = Inr s' \<and> console_wf s' \<and> console_pos s' = 0 \<and>
      console_buffer s' = replicate 2000 (console_entry 0 7 0))"
  by (simp add: console_init_def console_clear_def raw_console_clear_eq [OF assms] console_wf_def)

lemma console_clear_establishes_witness:
  "\<exists>s'. console_init (demo_console\<lparr>console_pos := -7\<rparr>) = Inr s' \<and> console_wf s'"
  using console_clear_establishes [of "demo_console\<lparr>console_pos := -7\<rparr>"] by (auto simp: demo_console_def)

text \<open>
  A cell packs its three parts without loss for the sixteen colours: the character is the
  low byte, the foreground the next four bits and the background the top four.
\<close>

theorem console_entry_decodes:
  assumes "fg < 16" "bg < 16"
  shows "ucast (console_entry ch fg bg) = ch \<and>
    ucast (drop_bit 8 (console_entry ch fg bg) AND 0xf) = fg \<and> ucast (drop_bit 12 (console_entry ch fg bg)) = bg"
proof (intro conjI)
  note fg = nibble_bits [OF assms(1)] and bg = nibble_bits [OF assms(2)]
  show "ucast (console_entry ch fg bg) = ch"
    by (rule bit_word_eqI) (simp add: console_entry_def bit_simps)
  have "drop_bit 8 (console_entry ch fg bg) AND 0xf = take_bit 4 (drop_bit 8 (console_entry ch fg bg))"
    by (simp add: take_bit_eq_mask mask_eq_exp_minus_1)
  moreover have "ucast (take_bit 4 (drop_bit 8 (console_entry ch fg bg))) = fg"
    by (rule bit_word_eqI) (auto simp: console_entry_def bit_simps dest: bit_imp_le_length fg bg)
  ultimately show "ucast (drop_bit 8 (console_entry ch fg bg) AND 0xf) = fg"
    by simp
  show "ucast (drop_bit 12 (console_entry ch fg bg)) = bg"
    by (intro bit_word_eqI) (auto simp: console_entry_def bit_simps dest: bit_imp_le_length fg bg)
qed

theorem console_entry_decodes_witness:
  "(7 :: u8) < 16 \<and> ucast (console_entry 65 7 1) = (65 :: u8)"
  using console_entry_decodes [of 7 1 65] by simp

end
