(* ===== verification/Clock.thy ===== *)
theory Clock
  imports Interrupt Console
begin

text \<open>
  The clock driver (\<open>kernel/clock.c\<close>, \<open>include/clock.h\<close>) and the initialisation of the kernel
  (\<open>kernel/init.c\<close>): the interval timer, the handler of the periodic interrupt, and the state of
  the console, the descriptor table and the controllers when \<open>init\<close> returns. The handler
  addresses the linker chooses are the fields of \<open>kernel_image\<close>, and \<open>kernel_code\<close> is the
  code of the kernel behind them.
\<close>

section \<open>Constants\<close>

definition CLOCK_IRQ :: u32 where "CLOCK_IRQ = 0x00"
definition LATCH_COUNT :: u8 where "LATCH_COUNT = 0x00"
definition TIMER0 :: u16 where "TIMER0 = 0x40"
definition TIMER2 :: u16 where "TIMER2 = 0x42"
definition TIMER_MODE :: u16 where "TIMER_MODE = 0x43"
definition SQUARE_WAVE :: u8 where "SQUARE_WAVE = 0x36"
definition CLOCK_FREQ :: int where "CLOCK_FREQ = 1193182"
definition HZ :: int where "HZ = 100"
definition CLOCK_COUNT :: int where "CLOCK_COUNT = CLOCK_FREQ sdiv HZ"
definition LATCH :: int where "LATCH = (CLOCK_FREQ + HZ sdiv 2) sdiv HZ"

record kernel_image = irq_image +
  clock_handler_addr :: addr

section \<open>Operations\<close>

definition clock_handler :: "irq_context \<Rightarrow> irq_state \<Rightarrow> irq_fault + irq_state" where
  "clock_handler c s = end_of_irq c s"

definition clock_init :: "kernel_image \<Rightarrow> irq_state \<Rightarrow> irq_fault + irq_state" where
  "clock_init L s =
     (let (fl, s) = irq_save s;
          s = out TIMER_MODE SQUARE_WAVE s;
          s = out TIMER0 (word_of_int (CLOCK_COUNT AND 0xff)) s;
          s = out TIMER0 (word_of_int (drop_bit 8 CLOCK_COUNT)) s;
          s = irq_restore fl s
      in map_sum id snd (install_interrupt_handler CLOCK_IRQ (clock_handler_addr L) (ucast TRAP_GATE) s))"

text \<open>The code the linker places at the two handler addresses.\<close>

definition kernel_code :: "kernel_image \<Rightarrow> handler_code" where
  "kernel_code L a =
     (if a = unhandled_interrupt_addr L then unhandled_interrupt
      else if a = clock_handler_addr L then clock_handler else (\<lambda>c s. Inl (WILD_CALL a)))"

record machine =
  con :: console
  intr :: irq_state

datatype init_fault = CONSOLE_FAULT console_fault | IRQ_FAULT irq_fault

definition init :: "kernel_image \<Rightarrow> machine \<Rightarrow> init_fault + machine" where
  "init L m =
     (case console_init (con m) of Inl e \<Rightarrow> Inl (CONSOLE_FAULT e)
      | Inr k \<Rightarrow>
        (case clock_init L (intr m) of Inl e \<Rightarrow> Inl (IRQ_FAULT e)
         | Inr s \<Rightarrow> Inr \<lparr>con = k, intr = interrupt_init (irq_image.truncate L) s\<rparr>))"

section \<open>Programming the timer\<close>

lemma clock_const_vals: "CLOCK_COUNT = 11931" "LATCH = 11932"
  by (simp_all add: CLOCK_COUNT_def LATCH_def CLOCK_FREQ_def HZ_def signed_divide_int_def sgn_if)

definition timer_programmed :: "irq_state \<Rightarrow> irq_state" where
  "timer_programmed s = s\<lparr>io := [Out 0x40 0x2e, Out 0x40 0x9b, Out 0x43 0x36] @ io s\<rparr>"

lemma clock_init_eq:
  "clock_init L s = map_sum id snd (install_interrupt_handler 0 (clock_handler_addr L) 0x8f (timer_programmed s))"
proof -
  have "(11931 :: int) AND 255 = 155" "drop_bit 8 (11931 :: int) = 46" by (simp_all add: drop_bit_eq_div)
  then show ?thesis
    unfolding clock_init_def timer_programmed_def
    by (simp add: io_simps split_beta Let_def out_def TIMER0_def TIMER_MODE_def SQUARE_WAVE_def CLOCK_IRQ_def
        clock_const_vals TRAP_GATE_def PRESENT_def)
qed

lemma clock_init_ok:
  assumes "length (irq_handler s) = 16" "length (idt s) = 256"
  obtains s' where "clock_init L s = Inr s'" "irq_handler s' = (irq_handler s)[0 := clock_handler_addr L]"
    "length (idt s') = 256" "\<forall>k. bit (irq_mask s') k \<longleftrightarrow> k \<noteq> 0 \<and> bit (irq_mask s) k" "flags s' = flags s"
proof -
  let ?s = "timer_programmed s"
  have "length (irq_handler ?s) = 16" "length (idt ?s) = 256" "irq_mask ?s = irq_mask s" "irq_handler ?s = irq_handler s"
    "flags ?s = flags s" using assms by (simp_all add: timer_programmed_def)
  then show thesis
    using install_interrupt_handler_eq [of 0 ?s "clock_handler_addr L" "0x8f"] that by (auto simp: clock_init_eq)
qed

section \<open>The interrupt state after initialisation\<close>

definition irq_ready :: "kernel_image \<Rightarrow> irq_state \<Rightarrow> bool" where
  "irq_ready L s \<longleftrightarrow> irq_mask s = 0xfffa \<and> pic_synced s \<and> bit (flags s) 9 \<and>
     irq_handler s = (replicate 16 (unhandled_interrupt_addr L))[0 := clock_handler_addr L] \<and>
     idt s = idt_table (irq_image.truncate L) \<and> idtr s = Some \<lparr>limit = 2047, base = idt_addr L\<rparr>"

lemma word_neg_5: "(- 5 :: u16) = 4294967291"
  by simp

lemma irq_init_fields:
  "irq_mask (irq_init s) = clear_line (irq_mask s) 2" "pic_synced (irq_init s)" "irq_handler (irq_init s) = irq_handler s"
  "idt (irq_init s) = idt s" "idtr (irq_init s) = idtr s" "flags (irq_init s) = flags s"
proof -
  show "irq_mask (irq_init s) = clear_line (irq_mask s) 2"
    by (simp add: clear_line_def irq_init_def out_def Let_def) (simp only: word_neg_5)
qed (simp_all add: irq_init_def out_def Let_def pic_synced_def port_defs irq_master_mask_def irq_slave_mask_def)

lemma all_lines: "bit (0xffff :: u16) k \<longleftrightarrow> k < 16"
proof -
  have e: "(0xffff :: u16) = mask 16" by (simp add: mask_eq_exp_minus_1)
  show ?thesis unfolding e bit_mask_iff by auto
qed

lemma interrupt_init_ready:
  assumes "length (idt s) = 256" "\<forall>k. bit (irq_mask s) k \<longleftrightarrow> k \<noteq> 0 \<and> k < 16"
    "irq_handler s = (replicate 16 (unhandled_interrupt_addr L))[0 := clock_handler_addr L]"
  shows "irq_ready L (interrupt_init (irq_image.truncate L) s)"
proof -
  have "irq_mask s = clear_line 0xffff 0"
  proof (rule bit_word_eqI)
    show "bit (irq_mask s) n = bit (clear_line 0xffff 0) n" for n
      using assms(2) [rule_format, of n] unfolding bit_clear_line all_lines by blast
  qed
  then have mask: "clear_line (irq_mask s) 2 = 0xfffa"
    by (simp add: clear_line_def)
  have sync: "pic_synced (irq_enable u) = pic_synced u" for u
    by (simp add: irq_enable_def pic_synced_def irq_master_mask_def irq_slave_mask_def)
  have "bit (f OR IF_FLAG) 9" for f by (simp add: IF_FLAG_def bit_or_iff)
  then show ?thesis
    using assms(3) mask
    by (simp add: irq_ready_def interrupt_init_def sync irq_init_fields idt_init_eq [OF assms(1)])
      (simp add: irq_enable_def irq_init_fields irq_image.truncate_def)
qed

section \<open>Clock interrupts\<close>

lemma enable_line0:
  assumes "irq c = 0"
  obtains s' where "end_of_irq c s = Inr s'" "\<forall>k. bit (irq_mask s') k \<longleftrightarrow> k \<noteq> 0 \<and> bit (irq_mask s) k"
    "kept_by_lines s' = kept_by_lines s" "pic_synced s \<Longrightarrow> pic_synced s'"
  using pic.on_line [of 0 s] assms by (auto simp: end_of_irq_def fun_eq_iff)

lemma line0_enabled: "\<not> bit (0xfffa :: u16) 0"
  by simp

lemma clock_tick:
  assumes "irq_ready L s" "irq c = 0" "clock_handler_addr L \<noteq> NULL" "clock_handler_addr L \<noteq> unhandled_interrupt_addr L"
  shows "\<exists>s'. default_irq_handler dev (kernel_code L) c s = Inr s' \<and> irq_ready L s' \<and> flags s' = flags s"
proof -
  have i: "unat (irq c) < 16" using assms(2) by simp
  obtain s1 v t where s1: "mask_and_ack_irq dev (irq c) s = Inr s1" "irq_mask s1 = set_line (irq_mask s) (unat (irq c))"
    "flags s1 = flags s" "idt s1 = idt s" "idtr s1 = idtr s" "irq_handler s1 = irq_handler s"
    "io s1 = ack_trace (irq c) (irq_mask s1) v @ t @ io s" "probe t"
    using mask_and_ack_irq_ok [OF i, of dev s] by metis
  obtain s2 where s2: "end_of_irq c s1 = Inr s2" "\<forall>k. bit (irq_mask s2) k \<longleftrightarrow> k \<noteq> 0 \<and> bit (irq_mask s1) k"
    "kept_by_lines s2 = kept_by_lines s1" "pic_synced s1 \<Longrightarrow> pic_synced s2" using enable_line0 [OF assms(2), of s1] by blast
  obtain s3 where s3: "end_of_irq c s2 = Inr s3" "\<forall>k. bit (irq_mask s3) k \<longleftrightarrow> k \<noteq> 0 \<and> bit (irq_mask s2) k"
    "kept_by_lines s3 = kept_by_lines s2" "pic_synced s2 \<Longrightarrow> pic_synced s3" using enable_line0 [OF assms(2), of s2] by blast
  have h: "irq_handler s ! 0 = clock_handler_addr L" "length (irq_handler s) = 16"
    using assms(1) by (simp_all add: irq_ready_def)
  have run: "default_irq_handler dev (kernel_code L) c s = Inr s3"
    using s1(1,6) s2(1) s3(1) h assms(2-4)
    by (simp add: default_irq_handler_def call_handler_def kernel_code_def clock_handler_def IRQ_NR_def)
  have "irq_mask s3 = irq_mask s"
  proof (rule bit_word_eqI)
    show "bit (irq_mask s3) n = bit (irq_mask s) n" for n
      using s2(2) s3(2) s1(2) assms(1,2) line0_enabled by (cases "n = 0") (auto simp: bit_set_line irq_ready_def)
  qed
  moreover have "pic_synced s3"
    using assms(1) s3(4) s2(4) ack_synced [OF _ i s1(2,7,8)] by (simp add: irq_ready_def)
  ultimately have "irq_ready L s3" "flags s3 = flags s"
    using assms(1) s1(3-6) s2(3) s3(3) by (auto simp: irq_ready_def kept_by_lines_def)
  then show ?thesis using run by blast
qed

text \<open>A sequence of interrupts, each with its saved context.\<close>

fun interrupts :: "device \<Rightarrow> handler_code \<Rightarrow> irq_context list \<Rightarrow> irq_state \<Rightarrow> irq_fault + irq_state" where
  "interrupts dev code [] s = Inr s"
| "interrupts dev code (c # ctxs) s =
     (case default_irq_handler dev code c s of Inl e \<Rightarrow> Inl e | Inr s' \<Rightarrow> interrupts dev code ctxs s')"

lemma clock_ticks:
  assumes "irq_ready L s" "\<forall>c \<in> set ctxs. irq c = 0" "clock_handler_addr L \<noteq> NULL" "clock_handler_addr L \<noteq> unhandled_interrupt_addr L"
  shows "\<exists>s'. interrupts dev (kernel_code L) ctxs s = Inr s' \<and> irq_ready L s' \<and> flags s' = flags s"
  using assms(1,2)
proof (induction ctxs arbitrary: s)
  case (Cons c ctxs)
  obtain s1 where "default_irq_handler dev (kernel_code L) c s = Inr s1" "irq_ready L s1" "flags s1 = flags s"
    using clock_tick [OF Cons.prems(1) _ assms(3,4), of c dev] Cons.prems(2) by auto
  then show ?case using Cons.IH [of s1] Cons.prems(2) by simp
qed simp

section \<open>Initialisation\<close>

lemma init_ready:
  assumes "length (console_buffer k) = 2000"
  shows "\<exists>m. init L \<lparr>con = k, intr = irq_boot (irq_image.truncate L) f\<rparr> = Inr m \<and> console_wf (con m) \<and>
    console_pos (con m) = 0 \<and> console_buffer (con m) = replicate 2000 (console_entry 0 7 0) \<and> irq_ready L (intr m)"
proof -
  let ?b = "irq_boot (irq_image.truncate L) f"
  obtain k' where k': "console_init k = Inr k'" "console_wf k'" "console_pos k' = 0"
    "console_buffer k' = replicate 2000 (console_entry 0 7 0)"
    by (simp add: console_init_def console_clear_def raw_console_clear_eq [OF assms(1)] console_wf_def)
  obtain s where s: "clock_init L ?b = Inr s" "irq_handler s = (irq_handler ?b)[0 := clock_handler_addr L]"
    "length (idt s) = 256" "\<forall>k. bit (irq_mask s) k \<longleftrightarrow> k \<noteq> 0 \<and> bit (irq_mask ?b) k"
    using clock_init_ok [of ?b L] by auto
  have "irq_ready L (interrupt_init (irq_image.truncate L) s)"
  proof (rule interrupt_init_ready)
    show "\<forall>k. bit (irq_mask s) k \<longleftrightarrow> k \<noteq> 0 \<and> k < 16" using s(4) unfolding irq_boot_fields all_lines by blast
  qed (use s(2,3) in \<open>simp_all add: irq_boot_def irq_image.truncate_def\<close>)
  then show ?thesis using k' s(1) by (simp add: init_def)
qed

section \<open>Properties\<close>


definition demo_kernel_image :: kernel_image where
  "demo_kernel_image = irq_image.extend demo_irq_image \<lparr>clock_handler_addr = 0x100440\<rparr>"


text \<open>
  C30. \<open>clock_init\<close> programs channel 0 as a square wave generator with the divisor
  \<open>CLOCK_FREQ / HZ\<close>, low byte first: the three writes come before the line is enabled, the two
  bytes make up the divisor, and 100 periods of that divisor fit into one second with less than
  100 clock pulses to spare.
\<close>

theorem clock_programs_timer:
  assumes "length (irq_handler s) = 16" "length (idt s) = 256"
  shows "\<exists>s' e lo hi. clock_init L s = Inr s' \<and>
    io s' = e # [Out TIMER0 hi, Out TIMER0 lo, Out TIMER_MODE SQUARE_WAVE] @ io s \<and> (\<exists>v. e = Out 0x21 v) \<and>
    256 * uint hi + uint lo = CLOCK_COUNT \<and> HZ * CLOCK_COUNT \<le> CLOCK_FREQ \<and> CLOCK_FREQ < HZ * CLOCK_COUNT + HZ"
proof -
  let ?s = "timer_programmed s"
  have "\<exists>s'. install_interrupt_handler 0 h ty ?s = Inr (0, s') \<and> (\<exists>v. io s' = Out 0x21 v # io ?s)" for h ty
    using assms by (cases "irq_handler s") (simp_all add: install_interrupt_handler_def timer_programmed_def set_handler_def set_attribs_def io_simps split_beta
        Let_def pic_enable_irq_eq mask_port_def word_sless_alt IRQ_NR_def)
  then obtain s' v where s': "install_interrupt_handler 0 (clock_handler_addr L) 0x8f ?s = Inr (0, s')" "io s' = Out 0x21 v # io ?s"
    by blast
  have "clock_init L s = Inr s'" using s'(1) by (simp add: clock_init_eq)
  moreover have "io s' = Out 0x21 v # [Out TIMER0 0x2e, Out TIMER0 0x9b, Out TIMER_MODE SQUARE_WAVE] @ io s"
    using s'(2) by (simp add: timer_programmed_def TIMER0_def TIMER_MODE_def SQUARE_WAVE_def)
  moreover have "256 * uint (0x2e :: u8) + uint (0x9b :: u8) = CLOCK_COUNT" by (simp add: clock_const_vals)
  moreover have "HZ * CLOCK_COUNT \<le> CLOCK_FREQ" "CLOCK_FREQ < HZ * CLOCK_COUNT + HZ"
    by (simp_all add: clock_const_vals CLOCK_FREQ_def HZ_def)
  ultimately show ?thesis by blast
qed

theorem clock_programs_timer_witness:
  "\<exists>s' e lo hi. clock_init demo_kernel_image (irq_boot demo_irq_image 2) = Inr s' \<and>
     io s' = [e, Out TIMER0 hi, Out TIMER0 lo, Out TIMER_MODE SQUARE_WAVE] \<and> 256 * uint hi + uint lo = CLOCK_COUNT"
  using clock_programs_timer [of "irq_boot demo_irq_image 2" demo_kernel_image] by auto

end
