(* ===== verification/Printk.thy ===== *)
theory Printk
  imports Printf Clock
begin

text \<open>
  Kernel messages: \<open>printk\<close> (\<open>kernel/console.c\<close>) formats into a local array of 1024 bytes and puts the
  result on the console; \<open>panic\<close> (\<open>kernel/panic.c\<close>), \<open>__kernel_bug\<close> and \<open>BUG_ON\<close>
  (\<open>include/panic.h\<close>) and \<open>default_exc_handler\<close> (\<open>kernel/interrupt.c\<close>) end the kernel with a message.

  The state extends the console and the interrupt state with the byte memory. The addresses of the
  literals, of the local array and of the cells a call pushes its arguments to are chosen by the
  compiler; they are the fields of \<open>print_image\<close>. A call returns, halts the machine for ever, or
  faults on a console access outside the video buffer; \<open>None\<close> is as in the theory Printf.
\<close>

section \<open>Data\<close>

record kmachine = machine +
  ram :: mem

record print_image =
  pk_null :: addr
  pk_buf :: addr
  pk_slot :: addr
  lit_panic :: addr
  lit_bug :: addr
  lit_exception :: addr
  lit_true :: addr
  lit_file :: addr
  lit_hello :: addr

datatype 'a run = Returned 'a | Halted kmachine | Faulted console_fault

definition run_bind :: "'a run option \<Rightarrow> ('a \<Rightarrow> 'b run option) \<Rightarrow> 'b run option" where
  "run_bind r f =
     (case r of None \<Rightarrow> None
      | Some (Returned x) \<Rightarrow> f x
      | Some (Halted s) \<Rightarrow> Some (Halted s)
      | Some (Faulted e) \<Rightarrow> Some (Faulted e))"

section \<open>Printing\<close>

text \<open>The loop \<open>for (i = 0; i < sizeof(buf); i++)\<close>, with \<open>n\<close> bytes left.\<close>

fun print_loop :: "mem \<Rightarrow> addr \<Rightarrow> nat \<Rightarrow> nat \<Rightarrow> console \<Rightarrow> console_fault + (nat \<times> console)" where
  "print_loop m buf i 0 c = Inr (i, c)"
| "print_loop m buf i (Suc n) c =
     (if m (buf + of_nat i) = 0 then Inr (i, c)
      else (case kputchar (m (buf + of_nat i)) c of Inl e \<Rightarrow> Inl e | Inr c' \<Rightarrow> print_loop m buf (Suc i) n c'))"

definition printk :: "addr \<Rightarrow> addr \<Rightarrow> addr \<Rightarrow> kmachine \<Rightarrow> (nat \<times> kmachine) run option" where
  "printk null_str buf fmt_slot s =
     Option.bind (vsnprintf null_str buf 1024 (load32 (ram s) fmt_slot) (va_start fmt_slot) (ram s)) (\<lambda>(_, m).
       Some (case print_loop m buf 0 1024 (con s) of
               Inl e \<Rightarrow> Faulted e
             | Inr (i, c) \<Rightarrow> Returned (i, s\<lparr>ram := m, con := c\<rparr>)))"

text \<open>A call pushes the arguments, the last one at the highest address.\<close>

fun push_args :: "addr \<Rightarrow> u32 list \<Rightarrow> mem \<Rightarrow> mem" where
  "push_args slot [] m = m"
| "push_args slot (w # ws) m = push_args (slot + 4) ws (store32 slot w m)"

definition call_printk :: "print_image \<Rightarrow> addr \<Rightarrow> u32 list \<Rightarrow> kmachine \<Rightarrow> (nat \<times> kmachine) run option" where
  "call_printk P fmt args s =
     printk (pk_null P) (pk_buf P) (pk_slot P) (s\<lparr>ram := push_args (pk_slot P) (fmt # args) (ram s)\<rparr>)"

section \<open>Panic\<close>

text \<open>\<open>hlt\<close> with the interrupts off waits for ever, so the endless loop is the state \<open>Halted\<close>.\<close>

definition kernel_panic :: "print_image \<Rightarrow> kmachine \<Rightarrow> 'a run option" where
  "kernel_panic P s =
     run_bind (call_printk P (lit_panic P) [] s) (\<lambda>(_, s). Some (Halted (s\<lparr>intr := irq_disable (intr s)\<rparr>)))"

definition kernel_bug :: "print_image \<Rightarrow> addr \<Rightarrow> addr \<Rightarrow> u32 \<Rightarrow> kmachine \<Rightarrow> 'a run option" where
  "kernel_bug P cnd fl line s =
     run_bind (call_printk P (lit_bug P) [cnd, fl, line] s) (\<lambda>(_, s). kernel_panic P s)"

definition BUG_ON :: "print_image \<Rightarrow> bool \<Rightarrow> addr \<Rightarrow> addr \<Rightarrow> u32 \<Rightarrow> kmachine \<Rightarrow> kmachine run option" where
  "BUG_ON P c cnd fl line s = (if c then kernel_bug P cnd fl line s else Some (Returned s))"

record exception_context =
  x_edi :: u32
  x_esi :: u32
  x_ebp :: u32
  x_ebx :: u32
  x_edx :: u32
  x_ecx :: u32
  x_eax :: u32
  x_es :: u32
  x_ds :: u32
  x_exc :: u32
  x_err_code :: u32
  x_eip :: u32
  x_cs :: u32
  x_eflags :: u32

definition default_exc_handler :: "print_image \<Rightarrow> exception_context \<Rightarrow> kmachine \<Rightarrow> kmachine run option" where
  "default_exc_handler P c s =
     run_bind (call_printk P (lit_exception P) [x_exc c] s) (\<lambda>(_, s). BUG_ON P True (lit_true P) (lit_file P) 79 s)"

section \<open>Arguments on the stack\<close>

lemma push_args_same:
  "A \<inter> region slot (4 * length ws) = {} \<Longrightarrow> same_on A m (push_args slot ws m)"
proof (induction ws arbitrary: slot m)
  case (Cons w ws)
  have "region slot (4 * length (w # ws)) = region slot 4 \<union> region (slot + 4) (4 * length ws)"
    using region_add [of slot 4 "4 * length ws"] by simp
  then have "A \<inter> region slot 4 = {}" "A \<inter> region (slot + 4) (4 * length ws) = {}" using Cons.prems by auto
  then show ?case using Cons.IH [of "slot + 4" "store32 slot w m"] same_on_trans [OF store32_same] by simp
qed simp

lemma push_args_load:
  assumes "unat slot + 4 * length ws \<le> 2 ^ 32" "i < length ws"
  shows "load32 (push_args slot ws m) (slot + 4 * of_nat i) = ws ! i"
  using assms
proof (induction ws arbitrary: slot i m)
  case (Cons w ws)
  show ?case
  proof (cases i)
    case 0
    have "region slot 4 \<inter> region (slot + 4) (4 * length ws) = {}"
    proof (cases ws)
      case (Cons w' ws')
      then have u: "unat (slot + 4) = unat slot + 4" using Cons.prems by (simp add: unat_word_ariths)
      show ?thesis using Cons.prems u by (intro region_disjoint) simp_all
    qed simp
    then have "same_on (region slot 4) (store32 slot w m) (push_args (slot + 4) ws (store32 slot w m))"
      by (rule push_args_same)
    then show ?thesis using 0 by (simp add: load32_same load32_store32)
  next
    case (Suc j)
    then have "unat (slot + 4) = unat slot + 4" using Cons.prems by (cases ws) (simp_all add: unat_word_ariths)
    then show ?thesis using Suc Cons.IH [of "slot + 4" j "store32 slot w m"] Cons.prems by (simp add: algebra_simps)
  qed
qed simp

section \<open>What printk shows\<close>

lemma print_loop_eq:
  "bytes_at m (buf + of_nat i) (u @ [0]) \<Longrightarrow> 0 \<notin> set u \<Longrightarrow> length u < n \<Longrightarrow>
    print_loop m buf i n c = (case put_all kputchar u c of Inl e \<Rightarrow> Inl e | Inr c' \<Rightarrow> Inr (i + length u, c'))"
proof (induction u arbitrary: i n c)
  case Nil
  then show ?case by (cases n) auto
next
  case (Cons b u)
  then obtain k where n: "n = Suc k" by (cases n) auto
  have "bytes_at m (buf + of_nat (Suc i)) (u @ [0])" using Cons.prems(1) by (simp add: algebra_simps)
  then show ?case using Cons.IH [of "Suc i" k] Cons.prems n by (auto split: sum.split)
qed

definition shown :: "u8 list \<Rightarrow> u8 list" where
  "shown t = takeWhile (\<lambda>b. b \<noteq> 0) (take 1023 t)"

lemma bytes_at_shown: "bytes_at m p (take 1023 t @ [0]) \<Longrightarrow> bytes_at m p (shown t @ [0])"
proof -
  assume b: "bytes_at m p (take 1023 t @ [0])"
  let ?u = "take 1023 t @ [0]"
  have "takeWhile (\<lambda>b. b \<noteq> 0) ?u = shown t"
    unfolding shown_def by (rule takeWhile_tail) simp
  moreover obtain v where "dropWhile (\<lambda>b. b \<noteq> 0) ?u = 0 # v"
    by (cases "dropWhile (\<lambda>b. b \<noteq> 0) ?u") (auto dest: hd_dropWhile simp: dropWhile_eq_Cons_conv)
  ultimately have "?u = (shown t @ [0]) @ v" using takeWhile_dropWhile_id [of "\<lambda>b. b \<noteq> 0" ?u] by simp
  then show ?thesis using b by (metis bytes_at_append)
qed

lemma printk_ok:
  assumes "console_wf (con s)" "cstr (ram s) (load32 (ram s) slot) f" "format (ram s) null_str f (slot + 4) = Some (t, fp)"
    "clear_of (region buf 1024) ((load32 (ram s) slot, Suc (length f)) # fp)" "buf \<noteq> 0" "null_str \<noteq> 0"
    "unat buf + 1024 \<le> 2 ^ 32" "unat buf + length t < 2 ^ 32"
  shows "\<exists>s'. printk null_str buf slot s = Some (Returned (length (shown t), s')) \<and> console_wf (con s') \<and>
    console_abs (con s') = fold term_put (shown t) (console_abs (con s)) \<and>
    same_on (- region buf 1024) (ram s) (ram s') \<and> intr s' = intr s"
proof -
  have cap: "capacity buf 1024 = 1024" using assms(7) by (simp add: capacity_def)
  let ?m = "put_bytes buf (take 1023 t @ [0]) (ram s)"
  have fmt: "vsnprintf null_str buf 1024 (load32 (ram s) slot) (slot + 4) (ram s) = Some (of_nat (length t), ?m)"
    using vsnprintf_eq [OF assms(3,2,5,6,8), of 1024] assms(4) by (simp add: cap)
  have "length (take 1023 t @ [0 :: u8]) \<le> 2 ^ 32" by simp
  then have u: "bytes_at ?m (buf + of_nat 0) (shown t @ [0])"
    using bytes_at_shown [OF bytes_at_put_bytes] by simp
  have nz: "0 \<notin> set (shown t)" "length (shown t) < 1024"
    using set_takeWhileD [of 0 "\<lambda>b. b \<noteq> 0" "take 1023 t"] length_takeWhile_le [of "\<lambda>b. b \<noteq> 0" "take 1023 t"]
    by (auto simp: shown_def)
  obtain c where c: "put_all kputchar (shown t) (con s) = Inr c" "console_wf c"
    "console_abs c = fold term_put (shown t) (console_abs (con s))"
    using tty.put_all_ok [OF assms(1)] by blast
  have "print_loop ?m buf 0 1024 (con s) = Inr (length (shown t), c)" using print_loop_eq [OF u nz] c(1) by simp
  moreover have "region buf (length (take 1023 t @ [0 :: u8])) \<subseteq> region buf 1024" by (rule region_mono) simp
  then have "same_on (- region buf 1024) (ram s) ?m" by (intro same_on_put_bytes) auto
  ultimately show ?thesis
    unfolding printk_def using fmt c(2,3) by (simp add: va_start_def)
qed

lemma call_printk_ok:
  assumes "console_wf (con s)" "cstr (ram s) fmt f"
    "format (push_args (pk_slot P) (fmt # args) (ram s)) (pk_null P) f (pk_slot P + 4) = Some (t, fp)"
    "clear_of (region (pk_buf P) 1024) ((fmt, Suc (length f)) # fp)"
    "region fmt (Suc (length f)) \<inter> region (pk_slot P) (4 * Suc (length args)) = {}" "pk_buf P \<noteq> 0" "pk_null P \<noteq> 0"
    "unat (pk_buf P) + 1024 \<le> 2 ^ 32" "unat (pk_buf P) + length t < 2 ^ 32" "unat (pk_slot P) + 4 * Suc (length args) \<le> 2 ^ 32"
  shows "\<exists>s'. call_printk P fmt args s = Some (Returned (length (shown t), s')) \<and> console_wf (con s') \<and>
    console_abs (con s') = fold term_put (shown t) (console_abs (con s)) \<and>
    same_on (- (region (pk_buf P) 1024 \<union> region (pk_slot P) (4 * Suc (length args)))) (ram s) (ram s') \<and> intr s' = intr s"
proof -
  let ?m = "push_args (pk_slot P) (fmt # args) (ram s)"
  let ?s = "s\<lparr>ram := ?m\<rparr>"
  have ld: "load32 ?m (pk_slot P) = fmt" using push_args_load [of "pk_slot P" "fmt # args" 0 "ram s"] assms(10) by simp
  have "same_on (region fmt (Suc (length f))) (ram s) ?m" using assms(5) by (intro push_args_same) simp
  then have "cstr ?m fmt f" using assms(2) cstr_same by blast
  then obtain s' where s': "printk (pk_null P) (pk_buf P) (pk_slot P) ?s = Some (Returned (length (shown t), s'))"
    "console_wf (con s')" "console_abs (con s') = fold term_put (shown t) (console_abs (con s))"
    "same_on (- region (pk_buf P) 1024) ?m (ram s')" "intr s' = intr s"
    using printk_ok [of ?s "pk_slot P" f "pk_null P" t fp "pk_buf P"] assms ld by auto
  have "same_on (- (region (pk_buf P) 1024 \<union> region (pk_slot P) (4 * Suc (length args)))) (ram s) ?m"
    by (intro push_args_same) auto
  moreover have "same_on (- (region (pk_buf P) 1024 \<union> region (pk_slot P) (4 * Suc (length args)))) ?m (ram s')"
    using s'(4) by (rule same_on_subset) blast
  ultimately show ?thesis using s' by (auto simp: call_printk_def intro: same_on_trans)
qed

section \<open>Directives of the messages\<close>

lemma directive_s:
  assumes "load32 m args = p" "p \<noteq> 0" "cstr m p u" "length u < 2 ^ 31"
  shows "spec_directive m null_str (115 # s) args = Some (u, s, args + 4, [(args, 4), (p, Suc (length u))])"
  using assms cstr_read_cstr [OF assms(3)]
  by (simp add: spec_directive_def spec_flags_def is_flag_def spec_width_def spec_precision_def spec_qualifier_def
      spec_conv_def spec_string_def padded_def isdigit_nat INT_MAX_def)

definition decimal :: "u32 \<Rightarrow> u8 list" where
  "decimal v = number_text (scast v) 10 (- 1) (- 1) SIGN"

lemma directive_d:
  "spec_directive m null_str (100 # s) args = Some (decimal (load32 m args), s, args + 4, [(args, 4)])"
  by (simp add: spec_directive_def spec_flags_def is_flag_def spec_width_def spec_precision_def spec_qualifier_def
      spec_conv_def spec_num_def get_num_def isdigit_nat decimal_def SIGN_def)

definition asc :: "string \<Rightarrow> u8 list" where
  "asc = map of_char"

section \<open>Messages\<close>

definition panic_text :: "u8 list" where
  "panic_text = asc ''>>> Kernel panic. Have a nice day. <<<'' @ [10]"

definition bug_format :: "u8 list" where
  "bug_format = asc ''BUG: %s (%s:%d)'' @ [10]"

definition exception_format :: "u8 list" where
  "exception_format = asc ''exception: %d'' @ [10]"

definition bug_text :: "u8 list \<Rightarrow> u8 list \<Rightarrow> u32 \<Rightarrow> u8 list" where
  "bug_text cnd fl line = asc ''BUG: '' @ cnd @ asc '' ('' @ fl @ asc '':'' @ decimal line @ asc '')'' @ [10]"

definition exception_text :: "u32 \<Rightarrow> u8 list" where
  "exception_text n = asc ''exception: '' @ decimal n @ [10]"

text \<open>The bytes a message may overwrite, constants that lie elsewhere, and a usable image.\<close>

definition scratch :: "print_image \<Rightarrow> addr set" where
  "scratch P = region (pk_buf P) 1024 \<union> region (pk_slot P) 16"

definition literal_at :: "print_image \<Rightarrow> mem \<Rightarrow> addr \<Rightarrow> u8 list \<Rightarrow> bool" where
  "literal_at P m p u \<longleftrightarrow> p \<noteq> 0 \<and> cstr m p u \<and> length u < 2 ^ 31 \<and> region p (Suc (length u)) \<inter> scratch P = {}"

definition frame_ok :: "print_image \<Rightarrow> bool" where
  "frame_ok P \<longleftrightarrow> pk_buf P \<noteq> 0 \<and> pk_null P \<noteq> 0 \<and> unat (pk_buf P) + 1024 \<le> 2 ^ 32 \<and> unat (pk_slot P) + 16 \<le> 2 ^ 32 \<and>
     region (pk_slot P) 16 \<inter> region (pk_buf P) 1024 = {}"

definition printable :: "print_image \<Rightarrow> mem \<Rightarrow> bool" where
  "printable P m \<longleftrightarrow> frame_ok P \<and>
     literal_at P m (lit_panic P) panic_text \<and> literal_at P m (lit_bug P) bug_format \<and>
     literal_at P m (lit_exception P) exception_format \<and> literal_at P m (lit_true P) (asc ''true'')"

lemma literal_same: "literal_at P m p u \<Longrightarrow> same_on (- scratch P) m m' \<Longrightarrow> literal_at P m' p u"
  using cstr_same [of p u m m'] same_on_subset [of "- scratch P" m m' "region p (Suc (length u))"]
  by (auto simp: literal_at_def)

lemma printable_same: "printable P m \<Longrightarrow> same_on (- scratch P) m m' \<Longrightarrow> printable P m'"
  unfolding printable_def by (blast intro: literal_same)

lemma printable_frame: "printable P m \<Longrightarrow> frame_ok P"
  by (simp add: printable_def)

lemma decimal_bounds: "length (decimal v) \<le> 65" "0 \<notin> set (decimal v)"
proof -
  let ?n = "scast v :: u64"
  have bits: "\<not> bit SIGN 0" "bit SIGN 1" "\<not> bit SIGN 2" "\<not> bit SIGN 3" "\<not> bit SIGN 4" "\<not> bit SIGN 5" "SIGN \<noteq> 0"
    by (simp_all add: SIGN_def)
  have d: "decimal v = (if ?n <s 0 then [45] else []) @ number_digits (if ?n <s 0 then - ?n else ?n) 10 SIGN"
    using bits by (simp add: decimal_def number_text_def number_signs_def number_prefix_def flag_bits Let_def)
  then show "length (decimal v) \<le> 65" using number_digits_length [of "if ?n <s 0 then - ?n else ?n" 10 SIGN] by (simp split: if_splits)
  show "0 \<notin> set (decimal v)" unfolding d using number_digits_read(3) [of 10] by simp
qed

lemma shown_all: "length t < 1024 \<Longrightarrow> 0 \<notin> set t \<Longrightarrow> shown t = t"
  by (auto simp: shown_def takeWhile_eq_all_conv)

text \<open>One message: a constant format, up to three arguments, a text of less than 1024 bytes.\<close>

lemma message:
  assumes "console_wf (con s)" "frame_ok P" "literal_at P (ram s) fmt f" "length args \<le> 3"
    "format (push_args (pk_slot P) (fmt # args) (ram s)) (pk_null P) f (pk_slot P + 4) = Some (t, fp)"
    "clear_of (region (pk_buf P) 1024) fp" "length t < 1024" "0 \<notin> set t"
  shows "\<exists>s'. call_printk P fmt args s = Some (Returned (length t, s')) \<and> console_wf (con s') \<and>
    console_abs (con s') = fold term_put t (console_abs (con s)) \<and>
    same_on (- scratch P) (ram s) (ram s') \<and> intr s' = intr s"
proof -
  have slots: "region (pk_slot P) (4 * Suc (length args)) \<subseteq> region (pk_slot P) 16" using assms(4) by (intro region_mono) simp
  have pr: "pk_buf P \<noteq> 0" "pk_null P \<noteq> 0" "unat (pk_buf P) + 1024 \<le> 2 ^ 32" "unat (pk_slot P) + 4 * Suc (length args) \<le> 2 ^ 32"
    using assms(2,4) by (auto simp: frame_ok_def)
  have c: "cstr (ram s) fmt f" "region fmt (Suc (length f)) \<inter> region (pk_slot P) (4 * Suc (length args)) = {}"
    "region fmt (Suc (length f)) \<inter> region (pk_buf P) 1024 = {}"
    using assms(3) slots by (auto simp: literal_at_def scratch_def)
  obtain s' where s': "call_printk P fmt args s = Some (Returned (length t, s'))" "console_wf (con s')"
    "console_abs (con s') = fold term_put t (console_abs (con s))" "intr s' = intr s"
    "same_on (- (region (pk_buf P) 1024 \<union> region (pk_slot P) (4 * Suc (length args)))) (ram s) (ram s')"
    using call_printk_ok [OF assms(1) c(1) assms(5) _ c(2) pr(1,2,3) _ pr(4)] c(3) pr(3) assms(6-8) shown_all [of t] by auto
  have "same_on (- scratch P) (ram s) (ram s')"
    using s'(5) by (rule same_on_subset) (use slots in \<open>auto simp: scratch_def\<close>)
  then show ?thesis using s' by blast
qed

lemma slot_cells:
  assumes "frame_ok P"
  shows "region (pk_slot P + 4) 4 \<inter> region (pk_buf P) 1024 = {}" "region (pk_slot P + 8) 4 \<inter> region (pk_buf P) 1024 = {}"
    "region (pk_slot P + 12) 4 \<inter> region (pk_buf P) 1024 = {}"
proof -
  have "region (pk_slot P) 16 = region (pk_slot P) 4 \<union> region (pk_slot P + 4) 4 \<union> region (pk_slot P + 8) 4 \<union> region (pk_slot P + 12) 4"
    using region_add [of "pk_slot P" 4 12] region_add [of "pk_slot P + 4" 4 8] region_add [of "pk_slot P + 8" 4 4] by (simp add: Un_assoc add.commute)
  then show "region (pk_slot P + 4) 4 \<inter> region (pk_buf P) 1024 = {}" "region (pk_slot P + 8) 4 \<inter> region (pk_buf P) 1024 = {}"
    "region (pk_slot P + 12) 4 \<inter> region (pk_buf P) 1024 = {}"
    using assms by (auto simp: frame_ok_def)
qed

lemma pushed_args:
  assumes "frame_ok P" "length ws \<le> 4" "i < length ws"
  shows "load32 (push_args (pk_slot P) ws m) (pk_slot P + 4 * of_nat i) = ws ! i"
  using assms by (intro push_args_load) (auto simp: frame_ok_def)

lemma pushed_literal:
  assumes "literal_at P m p u" "length ws \<le> 4"
  shows "literal_at P (push_args (pk_slot P) ws m) p u"
proof (rule literal_same [OF assms(1)], rule push_args_same)
  show "- scratch P \<inter> region (pk_slot P) (4 * length ws) = {}"
    using region_mono [of "4 * length ws" 16 "pk_slot P"] assms(2) by (auto simp: scratch_def)
qed

lemma format_bug:
  assumes "load32 m a = cnd" "cnd \<noteq> 0" "cstr m cnd cu" "length cu < 2 ^ 31"
    "load32 m b = fl" "fl \<noteq> 0" "cstr m fl fu" "length fu < 2 ^ 31" "a + 4 = b" "b + 4 = c"
  shows "format m null_str bug_format a = Some (bug_text cu fu (load32 m c),
    [(a, 4), (cnd, Suc (length cu)), (b, 4), (fl, Suc (length fu)), (c, 4)])"
  by (simp add: bug_format_def bug_text_def asc_def format_steps
      directive_s [OF assms(1-4), unfolded assms(9)] directive_s [OF assms(5-8), unfolded assms(10)] directive_d)

lemma format_d:
  "37 \<notin> set pre \<Longrightarrow> format m null_str (pre @ [37, 100, 10]) a = Some (pre @ decimal (load32 m a) @ [10], [(a, 4)])"
  by (induction pre) (auto simp: format_steps directive_d)

text \<open>A message with one number at the end of its line.\<close>

lemma message_d:
  assumes "console_wf (con s)" "frame_ok P" "literal_at P (ram s) fmt (pre @ [37, 100, 10])"
    "37 \<notin> set pre" "0 \<notin> set pre" "length pre \<le> 900"
  shows "\<exists>s'. call_printk P fmt [v] s = Some (Returned (length (pre @ decimal v @ [10]), s')) \<and> console_wf (con s') \<and>
    console_abs (con s') = fold term_put (pre @ decimal v @ [10]) (console_abs (con s)) \<and>
    same_on (- scratch P) (ram s) (ram s') \<and> intr s' = intr s"
proof (rule message [OF assms(1-3)])
  have "load32 (push_args (pk_slot P) [fmt, v] (ram s)) (pk_slot P + 4) = v"
    using pushed_args [OF assms(2), of "[fmt, v]" 1 "ram s"] by (simp del: push_args.simps)
  then show "format (push_args (pk_slot P) (fmt # [v]) (ram s)) (pk_null P) (pre @ [37, 100, 10]) (pk_slot P + 4) =
      Some (pre @ decimal v @ [10], [(pk_slot P + 4, 4)])"
    using format_d [OF assms(4)] by (simp del: push_args.simps)
qed (use assms(5,6) decimal_bounds [of v] slot_cells [OF assms(2)] in auto)

lemma plain_panic: "37 \<notin> set panic_text" "0 \<notin> set panic_text" "length panic_text < 1024"
  by (simp_all add: panic_text_def asc_def)

lemma kernel_panic_ok:
  assumes "console_wf (con s)" "printable P (ram s)"
  shows "\<exists>s'. kernel_panic P s = Some (Halted s') \<and> console_wf (con s') \<and>
    console_abs (con s') = fold term_put panic_text (console_abs (con s)) \<and>
    same_on (- scratch P) (ram s) (ram s') \<and> intr s' = irq_disable (intr s)"
proof -
  have lit: "literal_at P (ram s) (lit_panic P) panic_text" using assms(2) by (simp add: printable_def)
  obtain s' where "call_printk P (lit_panic P) [] s = Some (Returned (length panic_text, s'))" "console_wf (con s')"
    "console_abs (con s') = fold term_put panic_text (console_abs (con s))" "same_on (- scratch P) (ram s) (ram s')" "intr s' = intr s"
    using message [OF assms(1) printable_frame [OF assms(2)] lit, of "[]" panic_text "[]"] plain_panic format_plain by auto
  then show ?thesis by (auto simp: kernel_panic_def run_bind_def)
qed

lemma bug_text_bounds:
  assumes "0 \<notin> set cu" "0 \<notin> set fu" "length cu + length fu \<le> 900"
  shows "length (bug_text cu fu line) < 1024" "0 \<notin> set (bug_text cu fu line)"
  using assms decimal_bounds [of line] by (auto simp: bug_text_def asc_def)

lemma kernel_bug_ok:
  assumes "console_wf (con s)" "printable P (ram s)" "literal_at P (ram s) cnd cu" "literal_at P (ram s) fl fu"
    "length cu + length fu \<le> 900"
  shows "\<exists>s'. kernel_bug P cnd fl line s = Some (Halted s') \<and> console_wf (con s') \<and>
    console_abs (con s') = fold term_put (bug_text cu fu line @ panic_text) (console_abs (con s)) \<and>
    same_on (- scratch P) (ram s) (ram s') \<and> intr s' = irq_disable (intr s)"
proof -
  let ?ws = "[lit_bug P, cnd, fl, line]"
  define m where "m = push_args (pk_slot P) ?ws (ram s)"
  have lit: "literal_at P (ram s) (lit_bug P) bug_format" using assms(2) by (simp add: printable_def)
  have fr: "frame_ok P" using assms(2) by (rule printable_frame)
  have ld: "load32 m (pk_slot P + 4) = cnd" "load32 m (pk_slot P + 8) = fl" "load32 m (pk_slot P + 12) = line"
    using pushed_args [OF fr, of ?ws 1] pushed_args [OF fr, of ?ws 2] pushed_args [OF fr, of ?ws 3]
    by (simp_all add: m_def del: push_args.simps)
  have lc: "literal_at P m cnd cu" "literal_at P m fl fu" 
    using assms(3,4) by (simp_all add: m_def pushed_literal del: push_args.simps)
  have "cnd \<noteq> 0" "cstr m cnd cu" "length cu < 2 ^ 31" "fl \<noteq> 0" "cstr m fl fu" "length fu < 2 ^ 31"
    using lc by (simp_all add: literal_at_def)
  then have fmt: "format m (pk_null P) bug_format (pk_slot P + 4) = Some (bug_text cu fu line,
      [(pk_slot P + 4, 4), (cnd, Suc (length cu)), (pk_slot P + 8, 4), (fl, Suc (length fu)), (pk_slot P + 12, 4)])"
    using format_bug [of m "pk_slot P + 4" cnd cu "pk_slot P + 8" fl fu "pk_slot P + 12" "pk_null P"] ld by simp
  have "0 \<notin> set cu" "0 \<notin> set fu" using assms(3,4) by (auto simp: literal_at_def cstr_bytes_at)
  note bounds = bug_text_bounds [OF this assms(5), of line]
  have "clear_of (region (pk_buf P) 1024)
      [(pk_slot P + 4, 4), (cnd, Suc (length cu)), (pk_slot P + 8, 4), (fl, Suc (length fu)), (pk_slot P + 12, 4)]"
    using slot_cells [OF fr] assms(3,4) by (auto simp: literal_at_def scratch_def)
  then obtain s1 where s1: "call_printk P (lit_bug P) [cnd, fl, line] s = Some (Returned (length (bug_text cu fu line), s1))"
    "console_wf (con s1)" "intr s1 = intr s" "same_on (- scratch P) (ram s) (ram s1)"
    "console_abs (con s1) = fold term_put (bug_text cu fu line) (console_abs (con s))"
    using message [OF assms(1) fr lit _ fmt [unfolded m_def] _ bounds] by auto
  obtain s2 where s2: "kernel_panic P s1 = Some (Halted s2 :: 'a run)" "console_wf (con s2)"
    "console_abs (con s2) = fold term_put panic_text (console_abs (con s1))"
    "same_on (- scratch P) (ram s1) (ram s2)" "intr s2 = irq_disable (intr s1)"
    using kernel_panic_ok [OF s1(2) printable_same [OF assms(2) s1(4)]] by blast
  have "kernel_bug P cnd fl line s = Some (Halted s2 :: 'a run)" using s1(1) s2(1) by (simp add: kernel_bug_def run_bind_def)
  then show ?thesis using s1 s2 same_on_trans [OF s1(4) s2(4)] by auto
qed

lemma default_exc_handler_ok:
  assumes "console_wf (con s)" "printable P (ram s)" "literal_at P (ram s) (lit_file P) fu" "length fu \<le> 890"
  shows "\<exists>s'. default_exc_handler P c s = Some (Halted s') \<and> console_wf (con s') \<and>
    console_abs (con s') =
      fold term_put (exception_text (x_exc c) @ bug_text (asc ''true'') fu 79 @ panic_text) (console_abs (con s)) \<and>
    same_on (- scratch P) (ram s) (ram s') \<and> intr s' = irq_disable (intr s)"
proof -
  let ?pre = "asc ''exception: ''"
  have lit: "literal_at P (ram s) (lit_exception P) (?pre @ [37, 100, 10])"
    using assms(2) by (simp add: printable_def exception_format_def asc_def)
  have t: "?pre @ decimal (x_exc c) @ [10] = exception_text (x_exc c)" by (simp add: exception_text_def)
  obtain s1 where s1: "call_printk P (lit_exception P) [x_exc c] s = Some (Returned (length (exception_text (x_exc c)), s1))"
    "console_wf (con s1)" "intr s1 = intr s" "same_on (- scratch P) (ram s) (ram s1)"
    "console_abs (con s1) = fold term_put (exception_text (x_exc c)) (console_abs (con s))"
    using message_d [OF assms(1) printable_frame [OF assms(2)] lit, of "x_exc c"] unfolding t by (auto simp: asc_def)
  note pr = printable_same [OF assms(2) s1(4)]
  have lits: "literal_at P (ram s1) (lit_true P) (asc ''true'')" "literal_at P (ram s1) (lit_file P) fu"
    using pr literal_same [OF assms(3) s1(4)] by (simp_all add: printable_def)
  have "length (asc ''true'') + length fu \<le> 900" using assms(4) by (simp add: asc_def)
  then obtain s2 where s2: "kernel_bug P (lit_true P) (lit_file P) 79 s1 = Some (Halted s2 :: kmachine run)"
    "console_wf (con s2)" "same_on (- scratch P) (ram s1) (ram s2)" "intr s2 = irq_disable (intr s1)"
    "console_abs (con s2) = fold term_put (bug_text (asc ''true'') fu 79 @ panic_text) (console_abs (con s1))"
    using kernel_bug_ok [OF s1(2) pr lits] by blast
  have "default_exc_handler P c s = Some (Halted s2)"
    using s1(1) s2(1) by (simp add: default_exc_handler_def BUG_ON_def run_bind_def)
  then show ?thesis using s1 s2 same_on_trans [OF s1(4) s2(3)] by auto
qed

section \<open>Properties\<close>

text \<open>A machine with the literals of the messages in its memory.\<close>

definition demo_print_image :: print_image where
  "demo_print_image = \<lparr>pk_null = 0x8000, pk_buf = 0x1000, pk_slot = 0x2000, lit_panic = 0x3000, lit_bug = 0x4000,
     lit_exception = 0x5000, lit_true = 0x6000, lit_file = 0x7000,
     lit_hello = 0x7800\<rparr>"

definition demo_irq :: irq_state where
  "demo_irq = \<lparr>irq_mask = 0xfffb, spurious_irq_mask = 0, idt = [], idt_ptr = \<lparr>limit = 0, base = 0\<rparr>, idtr = None,
     irq_handler = [], flags = 0x202, io = []\<rparr>"

definition demo_machine :: kmachine where
  "demo_machine = \<lparr>con = demo_console, intr = demo_irq, ram = put_bytes 0x3000 (panic_text @ [0]) (put_bytes 0x4000 (bug_format @ [0])
       (put_bytes 0x5000 (exception_format @ [0]) (put_bytes 0x6000 (asc ''true'' @ [0]) (put_bytes 0x7000 (asc ''a.c'' @ [0]) (\<lambda>_. 0)))))\<rparr>"

lemma demo_cstrs:
  "cstr (ram demo_machine) 0x3000 panic_text" "cstr (ram demo_machine) 0x4000 bug_format"
  "cstr (ram demo_machine) 0x5000 exception_format" "cstr (ram demo_machine) 0x6000 (asc ''true'')"
  "cstr (ram demo_machine) 0x7000 (asc ''a.c'')"
  by code_simp+

lemma demo_scratch: "a \<in> scratch demo_print_image \<longleftrightarrow> 0x1000 \<le> unat a \<and> unat a < 0x1400 \<or> 0x2000 \<le> unat a \<and> unat a < 0x2010"
  by (simp add: scratch_def demo_print_image_def region_nowrap)

lemma demo_literals:
  assumes "cstr (ram demo_machine) p u" "0x3000 \<le> unat p" "unat p + 100 \<le> 2 ^ 32" "length u < 100"
  shows "literal_at demo_print_image (ram demo_machine) p u"
proof -
  have "p \<noteq> 0" using assms(2) by auto
  moreover have "region p (Suc (length u)) \<inter> scratch demo_print_image = {}"
    using assms(2-4) by (auto simp: demo_scratch region_nowrap)
  ultimately show ?thesis using assms(1,4) by (simp add: literal_at_def)
qed

lemma demo_printable:
  "printable demo_print_image (ram demo_machine)" "literal_at demo_print_image (ram demo_machine) (lit_file demo_print_image) (asc ''a.c'')"
proof -
  have len: "length panic_text < 100" "length bug_format < 100" "length exception_format < 100" "length (asc ''true'') < 100"
    "length (asc ''a.c'') < 100"
    by (simp_all add: panic_text_def bug_format_def exception_format_def asc_def)
  note lits = demo_cstrs [THEN demo_literals]
  have "region (0x2000 :: addr) 16 \<inter> region 0x1000 1024 = {}" by (auto simp: region_nowrap)
  then show "printable demo_print_image (ram demo_machine)"
    using lits(1-4) len by (simp add: printable_def frame_ok_def demo_print_image_def)
  show "literal_at demo_print_image (ram demo_machine) (lit_file demo_print_image) (asc ''a.c'')"
    using lits(5) len by (simp add: demo_print_image_def)
qed

text \<open>
  C10. \<open>printk\<close> returns and shows on the console the text of the format, cut to 1023 bytes and at its
  first NUL byte, exactly as the terminal of the console's specification prints it, and returns the
  number of bytes shown; the console stays well formed, only the local array changes in memory,
  and the interrupt state is untouched.
\<close>

theorem printk_prints:
  assumes "console_wf (con s)" "cstr (ram s) (load32 (ram s) slot) f" "format (ram s) null_str f (slot + 4) = Some (t, fp)"
    "clear_of (region buf 1024) ((load32 (ram s) slot, Suc (length f)) # fp)" "buf \<noteq> 0" "null_str \<noteq> 0"
    "unat buf + 1024 \<le> 2 ^ 32" "unat buf + length t < 2 ^ 32"
  shows "\<exists>s'. printk null_str buf slot s = Some (Returned (length (shown t), s')) \<and> length (shown t) \<le> 1023 \<and>
    console_wf (con s') \<and> console_abs (con s') = fold term_put (shown t) (console_abs (con s)) \<and>
    same_on (- region buf 1024) (ram s) (ram s') \<and> intr s' = intr s"
proof -
  have "length (shown t) \<le> 1023"
    using length_takeWhile_le [of "\<lambda>b. b \<noteq> 0" "take 1023 t"] by (auto simp: shown_def)
  then show ?thesis using printk_ok [OF assms] by blast
qed

theorem printk_prints_witness:
  "\<exists>s'. printk 0x2020 0x1000 0x2FFC (demo_machine\<lparr>ram := store32 0x2FFC 0x2000 demo_mem\<rparr>) = Some (Returned (9, s')) \<and>
     console_abs (con s') = fold term_put [97, 98, 61, 45, 48, 48, 48, 55, 33] (console_abs demo_console)"
proof -
  let ?t = "[97, 98, 61, 45, 48, 48, 48, 55, 33] :: u8 list" and ?f = "[37, 115, 61, 37, 48, 53, 100, 33] :: u8 list"
  let ?s = "demo_machine\<lparr>ram := store32 0x2FFC 0x2000 demo_mem\<rparr>"
  have slot: "load32 (ram ?s) 0x2FFC = 0x2000" by (simp add: load32_store32)
  have loads: "load32 (ram ?s) 0x3000 = 0x2010" "cstr (ram ?s) 0x2010 [97, 98]" "cstr (ram ?s) (load32 (ram ?s) 0x2FFC) ?f"
    "load32 (ram ?s) 0x3004 = - 7"
    unfolding slot by code_simp+
  have d: "spec_directive (ram ?s) 0x2020 [48, 53, 100, 33] 0x3004 = Some ([45, 48, 48, 48, 55], [33], 0x3008, [(0x3004, 4)])"
    by code_simp
  have fmt: "format (ram ?s) 0x2020 ?f (0x2FFC + 4) = Some (?t, [(0x3000, 4), (0x2010, 3), (0x3004, 4)])"
    using directive_s [OF loads(1) _ loads(2), of "0x2020"] d by (simp add: format_steps)
  have clear: "clear_of (region 0x1000 1024) ((load32 (ram ?s) 0x2FFC, Suc (length ?f)) # [(0x3000, 4), (0x2010, 3), (0x3004, 4)])"
    unfolding slot by (auto simp: region_nowrap)
  have "shown ?t = ?t" by (simp add: shown_def)
  moreover have "console_wf (con ?s)" using demo_console_wf by (simp add: demo_machine_def)
  ultimately show ?thesis
    using printk_prints [OF _ loads(3) fmt clear] by (auto simp: demo_machine_def)
qed

text \<open>
  C13. Reports before the end: \<open>__kernel_bug\<close> shows the failed condition, the file and the line and
  then the panic message, and the machine halts with interrupts disabled; a \<open>BUG_ON\<close> whose condition
  is false does nothing; and an exception shows its number first and ends the same way. No message
  writes to memory outside the argument cells and the array of \<open>printk\<close>.
\<close>

theorem kernel_bug_reports:
  assumes "console_wf (con s)" "printable P (ram s)" "literal_at P (ram s) cnd cu" "literal_at P (ram s) (lit_file P) fu"
    "length cu + length fu \<le> 900" "length fu \<le> 890"
  shows "(\<exists>s'. BUG_ON P True cnd (lit_file P) line s = Some (Halted s') \<and>
      console_abs (con s') = fold term_put (bug_text cu fu line @ panic_text) (console_abs (con s)) \<and>
      flags (intr s') AND IF_FLAG = 0 \<and> same_on (- scratch P) (ram s) (ram s')) \<and>
    BUG_ON P False cnd (lit_file P) line s = Some (Returned s) \<and>
    (\<exists>s'. default_exc_handler P c s = Some (Halted s') \<and>
      console_abs (con s') =
        fold term_put (exception_text (x_exc c) @ bug_text (asc ''true'') fu 79 @ panic_text) (console_abs (con s)) \<and>
      flags (intr s') AND IF_FLAG = 0 \<and> same_on (- scratch P) (ram s) (ram s'))"
proof -
  have off: "flags (irq_disable i) AND IF_FLAG = 0" for i by (rule bit_eqI) (simp add: irq_disable_def bit_simps)
  show ?thesis
    using kernel_bug_ok [OF assms(1-5), of line, where ?'a = kmachine] default_exc_handler_ok [OF assms(1,2,4,6), of c] off
    by (auto simp: BUG_ON_def)
qed

theorem kernel_bug_reports_witness:
  "\<exists>s'. BUG_ON demo_print_image True 0x6000 (lit_file demo_print_image) 67 demo_machine = Some (Halted s') \<and>
     console_abs (con s') = fold term_put (bug_text (asc ''true'') (asc ''a.c'') 67 @ panic_text) (console_abs demo_console) \<and>
     flags (intr s') AND IF_FLAG = 0"
proof -
  have "console_wf (con demo_machine)" using demo_console_wf by (simp add: demo_machine_def)
  moreover have "literal_at demo_print_image (ram demo_machine) 0x6000 (asc ''true'')"
    using demo_printable(1) by (simp add: printable_def frame_ok_def demo_print_image_def)
  moreover have "con demo_machine = demo_console" by (simp add: demo_machine_def)
  ultimately show ?thesis
    using kernel_bug_reports [of demo_machine demo_print_image "0x6000" "asc ''true''" "asc ''a.c''" 67] demo_printable
    by (auto simp: asc_def)
qed

end
