(* ===== verification/InitMain.thy ===== *)
theory InitMain
  imports Sched Printk
begin

text \<open>
  The system as a whole (\<open>init/main.c\<close>, called by \<open>kernel/boot.S\<close> after \<open>init\<close>): \<open>main\<close> starts nine
  tasks and then works as the tenth; every task prints a line, waits for an interrupt and calls the
  scheduler. The model composes the initialisation, the formatter and console, the clock interrupt
  and the scheduler.

  The state joins the scheduler's state, the machine the messages are printed on, and the number of
  \<open>task_run\<close> calls \<open>main\<close> has made, which is where \<open>main\<close> continues when it gets the processor
  back. A step is what one task does between two switches. Parameters of the model (\<open>env\<close>): the
  addresses of tasks and of the cells and literals \<open>printk\<close> uses on each stack, the devices, the context
  of the interrupt that ends a \<open>hlt\<close>, and \<open>e_work\<close>, what the compiled code of a task does to its
  registers and its stack before it calls the scheduler.
\<close>

section \<open>Data\<close>

record env =
  e_sched :: image
  e_kernel :: kernel_image
  e_frames :: "nat \<Rightarrow> print_image"
  e_tasks :: "nat \<Rightarrow> addr"
  e_dev :: device
  e_wake :: "kmachine \<Rightarrow> irq_context"
  e_work :: "kstate \<Rightarrow> kstate"

record system =
  kern :: kstate
  mach :: kmachine
  started :: nat

datatype sys_fault = PANIC panic | CONSOLE console_fault | IRQ irq_fault | INIT init_fault | STOPPED kmachine

section \<open>Operations\<close>

definition cpu_halt :: "env \<Rightarrow> kmachine \<Rightarrow> sys_fault + kmachine" where
  "cpu_halt E s =
     (case default_irq_handler (e_dev E) (kernel_code (e_kernel E)) (e_wake E s) (intr s) of
        Inl e \<Rightarrow> Inl (IRQ e) | Inr i \<Rightarrow> Inr (s\<lparr>intr := i\<rparr>))"

definition call_schedule :: "env \<Rightarrow> system \<Rightarrow> sys_fault + system" where
  "call_schedule E S =
     (case schedule (e_sched E) (e_work E (kern S)) of Inl e \<Rightarrow> Inl (PANIC e) | Inr \<sigma> \<Rightarrow> Inr (S\<lparr>kern := \<sigma>\<rparr>))"

definition worker :: "env \<Rightarrow> nat \<Rightarrow> system \<Rightarrow> (sys_fault + system) option" where
  "worker E pid S =
     Option.bind (call_printk (e_frames E pid) (lit_hello (e_frames E pid)) [of_nat pid] (mach S)) (\<lambda>r.
       case r of Faulted e \<Rightarrow> Some (Inl (CONSOLE e)) | Halted s \<Rightarrow> Some (Inl (STOPPED s))
       | Returned (_, s) \<Rightarrow>
           (case cpu_halt E s of Inl e \<Rightarrow> Some (Inl e) | Inr s \<Rightarrow> Some (call_schedule E (S\<lparr>mach := s\<rparr>))))"

text \<open>One \<open>task_run\<close> of \<open>main\<close>; the nine calls come in the order of the tasks.\<close>

definition main_start :: "env \<Rightarrow> system \<Rightarrow> (sys_fault + system) option" where
  "main_start E S =
     (case task_run (e_sched E) (e_tasks E (Suc (started S))) (e_work E (kern S)) of
        Inl e \<Rightarrow> Some (Inl (PANIC e))
      | Inr \<sigma> \<Rightarrow> Some (Inr (S\<lparr>kern := \<sigma>, started := Suc (started S)\<rparr>)))"

definition main_step :: "env \<Rightarrow> system \<Rightarrow> (sys_fault + system) option" where
  "main_step E S = (if started S < 9 then main_start E S else worker E 0 S)"

text \<open>\<open>TASK(n, worker)\<close>: the task with the structure at \<open>e_tasks E n\<close> calls \<open>worker(n)\<close> in an endless loop.\<close>

definition sys_step :: "env \<Rightarrow> system \<Rightarrow> (sys_fault + system) option" where
  "sys_step E S =
     (if current (kern S) = init_task (e_sched E) then main_step E S
      else Option.bind (List.find (\<lambda>n. e_tasks E n = current (kern S)) [1..<10]) (\<lambda>n. worker E n S))"

fun sys_run :: "env \<Rightarrow> nat \<Rightarrow> system \<Rightarrow> (sys_fault + system) option" where
  "sys_run E 0 S = Some (Inr S)"
| "sys_run E (Suc n) S =
     Option.bind (sys_step E S) (\<lambda>r. case r of Inl e \<Rightarrow> Some (Inl e) | Inr S' \<Rightarrow> sys_run E n S')"

definition boot :: "env \<Rightarrow> system \<Rightarrow> sys_fault + system" where
  "boot E S =
     (case init (e_kernel E) (machine.truncate (mach S)) of Inl e \<Rightarrow> Inl (INIT e)
      | Inr m \<Rightarrow> Inr (S\<lparr>mach := machine.extend m (machine.more (mach S))\<rparr>))"

section \<open>The abstract round of the tasks\<close>

text \<open>Process numbers only: the running one in front of those that wait, and the number of started tasks.\<close>

fun round_step :: "nat list \<times> nat \<Rightarrow> nat list \<times> (nat list \<times> nat)" where
  "round_step ([], k) = ([], ([], k))"
| "round_step (p # q, k) = (if p = 0 \<and> k < 9 then ([], (Suc k # q @ [0], Suc k)) else ([p], (q @ [p], k)))"

fun rounds :: "nat \<Rightarrow> nat list \<times> nat \<Rightarrow> nat list \<times> (nat list \<times> nat)" where
  "rounds 0 a = ([], a)"
| "rounds (Suc n) a = (let (out, a') = round_step a; (out', a'') = rounds n a' in (out @ out', a''))"

definition hello_text :: "nat \<Rightarrow> u8 list" where
  "hello_text pid = asc ''hello from pid '' @ decimal (of_nat pid) @ [10]"

definition hello_format :: "u8 list" where
  "hello_format = asc ''hello from pid %d'' @ [10]"

section \<open>Assumptions on the image and the invariant\<close>

definition addr_of :: "env \<Rightarrow> nat \<Rightarrow> addr" where
  "addr_of E p = (if p = 0 then init_task (e_sched E) else e_tasks E p)"

text \<open>Compiled code works on the registers and the stack of the running task and leaves room for one frame.\<close>

definition on_stack :: "stacks \<Rightarrow> (kstate \<Rightarrow> kstate) \<Rightarrow> kstate \<Rightarrow> bool" where
  "on_stack R f \<sigma> \<longleftrightarrow> (\<exists>c m. f \<sigma> = \<sigma>\<lparr>cpu := c, cells := m\<rparr> \<and> (\<forall>a. a \<notin> R (current \<sigma>) \<longrightarrow> m a = cells \<sigma> a) \<and>
     frame_cells (esp c - 32) \<subseteq> R (current \<sigma>))"

definition env_ok :: "env \<Rightarrow> stacks \<Rightarrow> bool" where
  "env_ok E R \<longleftrightarrow> separate R \<and> inj_on (addr_of E) {..9} \<and>
     (\<forall>n \<in> {1..9}. task_node (task_list (e_sched E)) (e_tasks E n) \<and> start_cells (e_tasks E n) \<subseteq> R (e_tasks E n)) \<and>
     (\<forall>\<sigma> xs. kinv (e_sched E) R \<sigma> xs \<longrightarrow> on_stack R (e_work E) \<sigma>) \<and>
     (\<forall>s. irq (e_wake E s) = CLOCK_IRQ) \<and>
     clock_handler_addr (e_kernel E) \<noteq> NULL \<and> clock_handler_addr (e_kernel E) \<noteq> unhandled_interrupt_addr (e_kernel E)"

definition hello_ok :: "env \<Rightarrow> mem \<Rightarrow> bool" where
  "hello_ok E m \<longleftrightarrow> (\<forall>i \<le> 9. frame_ok (e_frames E i) \<and>
     (\<forall>j \<le> 9. literal_at (e_frames E j) m (lit_hello (e_frames E i)) hello_format))"

definition mach_ok :: "env \<Rightarrow> kmachine \<Rightarrow> bool" where
  "mach_ok E s \<longleftrightarrow> console_wf (con s) \<and> irq_ready (e_kernel E) (intr s) \<and> hello_ok E (ram s)"

fun sys_ok :: "env \<Rightarrow> stacks \<Rightarrow> system \<Rightarrow> nat list \<times> nat \<Rightarrow> bool" where
  "sys_ok E R S ([], k) \<longleftrightarrow> False"
| "sys_ok E R S (p # q, k) \<longleftrightarrow>
     kinv (e_sched E) R (kern S) (map (addr_of E) q) \<and> current (kern S) = addr_of E p \<and> set (p # q) = {..k} \<and>
     started S = k \<and> k \<le> 9 \<and> mach_ok E (mach S)"

section \<open>One step\<close>

lemma literal_same_other:
  assumes "literal_at P m p u" "literal_at Q m p u" "same_on (- scratch P) m m'"
  shows "literal_at Q m' p u"
proof -
  have "same_on (region p (Suc (length u))) m m'" using assms(1,3) by (auto simp: literal_at_def elim!: same_on_subset)
  then show ?thesis using assms(2) cstr_same by (auto simp: literal_at_def)
qed

lemma hello_ok_same:
  assumes "hello_ok E m" "same_on (- scratch (e_frames E n)) m m'" "n \<le> 9"
  shows "hello_ok E m'"
  unfolding hello_ok_def
proof (intro allI impI conjI)
  fix i j :: nat assume "i \<le> 9" "j \<le> 9"
  then show "literal_at (e_frames E j) m' (lit_hello (e_frames E i)) hello_format"
    using assms by (intro literal_same_other [OF _ _ assms(2)]) (auto simp: hello_ok_def)
qed (use assms(1) in \<open>auto simp: hello_ok_def\<close>)

lemma worker_prints:
  assumes "mach_ok E s" "n \<le> 9"
  shows "\<exists>s'. call_printk (e_frames E n) (lit_hello (e_frames E n)) [of_nat n] s = Some (Returned (length (hello_text n), s')) \<and>
    mach_ok E s' \<and> console_abs (con s') = fold term_put (hello_text n) (console_abs (con s))"
proof -
  let ?P = "e_frames E n" and ?pre = "asc ''hello from pid ''"
  have "hello_format = ?pre @ [37, 100, 10]" by (simp add: hello_format_def asc_def)
  then have lit: "frame_ok ?P" "literal_at ?P (ram s) (lit_hello ?P) (?pre @ [37, 100, 10])"
    using assms by (auto simp: mach_ok_def hello_ok_def)
  have wf: "console_wf (con s)" using assms(1) by (simp add: mach_ok_def)
  have "37 \<notin> set ?pre" "0 \<notin> set ?pre" "length ?pre \<le> 900" by (simp_all add: asc_def)
  from message_d [OF wf lit this, of "of_nat n"]
  obtain s' where s': "call_printk ?P (lit_hello ?P) [of_nat n] s = Some (Returned (length (hello_text n), s'))" "console_wf (con s')"
    "console_abs (con s') = fold term_put (hello_text n) (console_abs (con s))" "same_on (- scratch ?P) (ram s) (ram s')" "intr s' = intr s"
    unfolding hello_text_def by blast
  moreover have "mach_ok E s'" using assms s' hello_ok_same by (auto simp: mach_ok_def)
  ultimately show ?thesis by blast
qed

lemma cpu_halt_ok:
  assumes "env_ok E R" "mach_ok E s"
  shows "\<exists>s'. cpu_halt E s = Inr s' \<and> mach_ok E s' \<and> con s' = con s"
proof -
  have "\<exists>i. default_irq_handler (e_dev E) (kernel_code (e_kernel E)) (e_wake E s) (intr s) = Inr i \<and>
      irq_ready (e_kernel E) i \<and> flags i = flags (intr s)"
    using assms by (intro clock_tick) (auto simp: env_ok_def mach_ok_def CLOCK_IRQ_def)
  then show ?thesis using assms(2) by (auto simp: cpu_halt_def mach_ok_def)
qed

lemma work_kinv:
  assumes "env_ok E R" "kinv (e_sched E) R \<sigma> xs"
  shows "kinv (e_sched E) R (e_work E \<sigma>) xs" "current (e_work E \<sigma>) = current \<sigma>"
proof -
  obtain c m where "e_work E \<sigma> = \<sigma>\<lparr>cpu := c, cells := m\<rparr>" "\<And>a. a \<notin> R (current \<sigma>) \<Longrightarrow> m a = cells \<sigma> a"
    "frame_cells (esp c - 32) \<subseteq> R (current \<sigma>)"
    using assms by (auto simp: env_ok_def on_stack_def)
  then show "kinv (e_sched E) R (e_work E \<sigma>) xs" "current (e_work E \<sigma>) = current \<sigma>"
    using compute_contexts(1) [OF _ assms(2), of m c] assms(1) by (auto simp: env_ok_def)
qed

lemma worker_ok:
  assumes "env_ok E R" "sys_ok E R S (p # q, k)" "q \<noteq> []"
  shows "\<exists>S'. worker E p S = Some (Inr S') \<and> sys_ok E R S' (q @ [p], k) \<and>
    console_abs (con (mach S')) = fold term_put (hello_text p) (console_abs (con (mach S)))"
proof -
  obtain n q' where q: "q = n # q'" using assms(3) by (cases q) auto
  have kset: "set (p # q) = {..k}" "k \<le> 9" using assms(2) by auto
  then have "p \<in> {..k}" by auto
  with kset have p9: "p \<le> 9" "set (p # q) = {..k}" "k \<le> 9" by auto
  obtain s1 where s1: "call_printk (e_frames E p) (lit_hello (e_frames E p)) [of_nat p] (mach S) =
      Some (Returned (length (hello_text p), s1))" "mach_ok E s1"
    "console_abs (con s1) = fold term_put (hello_text p) (console_abs (con (mach S)))"
    using worker_prints [of E "mach S" p] assms(2) p9(1) by auto
  obtain s2 where s2: "cpu_halt E s1 = Inr s2" "mach_ok E s2" "con s2 = con s1" using cpu_halt_ok [OF assms(1) s1(2)] by blast
  have kw: "kinv (e_sched E) R (e_work E (kern S)) (addr_of E n # map (addr_of E) q')" "current (e_work E (kern S)) = addr_of E p"
    using work_kinv [OF assms(1), of "kern S" "map (addr_of E) q"] assms(2) by (auto simp: q)
  obtain \<sigma> where \<sigma>: "schedule (e_sched E) (e_work E (kern S)) = Inr \<sigma>" "current \<sigma> = addr_of E n"
    "kinv (e_sched E) R \<sigma> (map (addr_of E) q' @ [addr_of E p])"
    using yield_contexts [OF _ kw(1)] assms(1) kw(2) by (auto simp: env_ok_def)
  let ?S = "S\<lparr>mach := s2, kern := \<sigma>\<rparr>"
  have "worker E p S = Some (Inr ?S)" using s1(1) s2(1) \<sigma>(1) by (simp add: worker_def call_schedule_def)
  moreover have "sys_ok E R ?S (q @ [p], k)" using assms(2) s2(2) \<sigma> p9 by (auto simp: q)
  ultimately show ?thesis using s1(3) s2(3) by (intro exI [of _ ?S]) simp
qed

lemma next_task_fresh:
  assumes "env_ok E R" "sys_ok E R S (0 # q, k)" "k < 9"
  shows "fresh_task (e_sched E) R (e_work E (kern S)) (e_tasks E (Suc k))"
proof -
  let ?t = "e_tasks E (Suc k)" and ?\<sigma> = "e_work E (kern S)" and ?xs = "map (addr_of E) q"
  have st: "set (0 # q) = {..k}" "current (kern S) = addr_of E 0" "kinv (e_sched E) R (kern S) ?xs" using assms(2) by auto
  note kw = work_kinv [OF assms(1) st(3)]
  have t: "?t = addr_of E (Suc k)" by (simp add: addr_of_def)
  have inj: "inj_on (addr_of E) {..9}" using assms(1) by (simp add: env_ok_def)
  have ne: "addr_of E (Suc k) \<noteq> addr_of E i" if "i \<in> set (0 # q)" for i
  proof -
    have "i \<in> {..k}" using that unfolding st(1) .
    then have "i \<le> k" by simp
    then show ?thesis using inj_onD [OF inj, of "Suc k" i] assms(3) by auto
  qed
  show ?thesis
    unfolding fresh_task_def
  proof (intro conjI allI impI)
    show "task_node (task_list (e_sched E)) ?t" "start_cells ?t \<subseteq> R ?t" using assms(1,3) by (auto simp: env_ok_def)
    show "?t \<noteq> current ?\<sigma>" using kw(2) st(2) ne [of 0] t by simp
    show "?t \<notin> set xs" if "node_list (task_list (e_sched E)) ?\<sigma> xs" for xs
      using node_list_unique [OF that kinv_node_list [OF kw(1)]] ne t by auto
  qed
qed

lemma main_start_ok:
  assumes "env_ok E R" "sys_ok E R S (0 # q, k)" "k < 9"
  shows "\<exists>S'. main_start E S = Some (Inr S') \<and> sys_ok E R S' (Suc k # q @ [0], Suc k) \<and> mach S' = mach S"
proof -
  let ?t = "e_tasks E (Suc k)" and ?\<sigma> = "e_work E (kern S)" and ?xs = "map (addr_of E) q"
  have st: "set (0 # q) = {..k}" "started S = k" "current (kern S) = addr_of E 0" "kinv (e_sched E) R (kern S) ?xs"
    using assms(2) by auto
  note kw = work_kinv [OF assms(1) st(4)]
  have t: "?t = addr_of E (Suc k)" by (simp add: addr_of_def)
  have "separate R" using assms(1) by (simp add: env_ok_def)
  from spawn_contexts [OF this kw(1) next_task_fresh [OF assms]]
  obtain \<sigma> where \<sigma>: "task_run (e_sched E) ?t ?\<sigma> = Inr \<sigma>" "kinv (e_sched E) R \<sigma> (?xs @ [current ?\<sigma>])" "current \<sigma> = ?t"
    by blast
  let ?S = "S\<lparr>kern := \<sigma>, started := Suc k\<rparr>"
  have "main_start E S = Some (Inr ?S)" using \<sigma>(1) st(2) by (simp add: main_start_def)
  moreover have e: "set (Suc k # q @ [0]) = insert (Suc k) (set (0 # q))" by auto
  have "set (Suc k # q @ [0]) = {..Suc k}" unfolding e st(1) by (simp add: atMost_Suc)
  moreover have "kinv (e_sched E) R \<sigma> (map (addr_of E) (q @ [0]))" using \<sigma>(2) kw(2) st(3) by simp
  moreover have "current \<sigma> = addr_of E (Suc k)" using \<sigma>(3) unfolding t .
  moreover have "mach_ok E (mach S)" using assms(2) by simp
  ultimately have "main_start E S = Some (Inr ?S)" "sys_ok E R ?S (Suc k # q @ [0], Suc k)"
    using assms(3) by (simp_all only: sys_ok.simps) simp_all
  then show ?thesis by (intro exI [of _ ?S]) simp
qed

lemma find_task:
  assumes "inj_on (addr_of E) {..9}" "0 < p" "p \<le> 9"
  shows "List.find (\<lambda>n. e_tasks E n = addr_of E p) [1..<10] = Some p"
proof -
  have "e_tasks E n = addr_of E p \<longleftrightarrow> n = p" if "n \<in> set [1..<10]" for n
    using inj_onD [OF assms(1), of n p] that assms(2,3) by (auto simp: addr_of_def)
  then have "List.find (\<lambda>n. e_tasks E n = addr_of E p) [1..<10] = List.find (\<lambda>n. n = p) [1..<10]"
    by (intro find_cong) auto
  also have "\<dots> = Some p"
  proof -
    have "List.find (\<lambda>n. n = p) [1..<10] = Some n \<Longrightarrow> n = p" for n by (auto simp: find_Some_iff)
    moreover have "List.find (\<lambda>n. n = p) [1..<10] \<noteq> None" using assms(2,3) by (auto simp: find_None_iff)
    ultimately show ?thesis by auto
  qed
  finally show ?thesis .
qed

text \<open>A step is a \<open>task_run\<close> of \<open>main\<close> or the work of the running task while others wait.\<close>

lemma sys_step_cases:
  assumes "env_ok E R" "sys_ok E R S (p # q, k)"
  obtains (start) "p = 0" "k < 9" "sys_step E S = main_start E S"
  | (work) "\<not> (p = 0 \<and> k < 9)" "q \<noteq> []" "sys_step E S = worker E p S"
proof (cases "p = 0 \<and> k < 9")
  case True
  then show thesis using assms(2) start by (simp add: sys_step_def main_step_def addr_of_def)
next
  case False
  have st: "current (kern S) = addr_of E p" "set (p # q) = {..k}" "k \<le> 9" "started S = k" using assms(2) by auto
  have inj: "inj_on (addr_of E) {..9}" using assms(1) by (simp add: env_ok_def)
  have "p \<in> {..k}" using st(2) by auto
  then have p: "p \<le> 9" using st(3) by simp
  have "q \<noteq> []"
  proof
    assume "q = []"
    then have e: "{p} = {..k}" using st(2) by simp
    have "0 \<in> {..k}" "k \<in> {..k}" by simp_all
    then have "p = 0" "k = p" unfolding e [symmetric] by simp_all
    then show False using False by simp
  qed
  moreover have "sys_step E S = worker E p S"
  proof (cases "p = 0")
    case True
    then show ?thesis using False st by (simp add: sys_step_def main_step_def addr_of_def)
  next
    case pos: False
    have "addr_of E p \<noteq> init_task (e_sched E)" using inj_onD [OF inj, of p 0] pos p by (auto simp: addr_of_def)
    then show ?thesis using find_task [OF inj _ p] pos st(1) by (simp add: sys_step_def)
  qed
  ultimately show thesis using work False by blast
qed

lemma step_ok:
  assumes "env_ok E R" "sys_ok E R S a"
  shows "\<exists>S'. sys_step E S = Some (Inr S') \<and> sys_ok E R S' (snd (round_step a)) \<and>
    console_abs (con (mach S')) = fold term_put (concat (map hello_text (fst (round_step a)))) (console_abs (con (mach S)))"
proof -
  obtain p q k where a: "a = (p # q, k)" using assms(2) by (cases a rule: round_step.cases) auto
  show ?thesis
    using assms(1) assms(2) [unfolded a]
  proof (cases rule: sys_step_cases)
    case start
    then show ?thesis using main_start_ok [OF assms(1), of S q k] assms(2) by (auto simp: a)
  next
    case work
    then have rs: "round_step a = ([p], (q @ [p], k))" by (auto simp: a)
    show ?thesis unfolding rs work(3) using worker_ok [OF assms(1) assms(2) [unfolded a] work(2)] by simp
  qed
qed

lemma run_ok:
  "env_ok E R \<Longrightarrow> sys_ok E R S a \<Longrightarrow> \<exists>S'. sys_run E n S = Some (Inr S') \<and> sys_ok E R S' (snd (rounds n a)) \<and>
    console_abs (con (mach S')) = fold term_put (concat (map hello_text (fst (rounds n a)))) (console_abs (con (mach S)))"
proof (induction n arbitrary: S a)
  case (Suc n)
  obtain S1 where S1: "sys_step E S = Some (Inr S1)" "sys_ok E R S1 (snd (round_step a))"
    "console_abs (con (mach S1)) = fold term_put (concat (map hello_text (fst (round_step a)))) (console_abs (con (mach S)))"
    using step_ok [OF Suc.prems] by blast
  obtain S2 where "sys_run E n S1 = Some (Inr S2)" "sys_ok E R S2 (snd (rounds n (snd (round_step a))))"
    "console_abs (con (mach S2)) = fold term_put (concat (map hello_text (fst (rounds n (snd (round_step a)))))) (console_abs (con (mach S1)))"
    using Suc.IH [OF Suc.prems(1) S1(2)] by blast
  then show ?case using S1 by (simp add: split_beta Let_def)
qed simp

section \<open>The order of the lines\<close>

definition startup_pids :: "nat list" where
  "startup_pids = concat (map (\<lambda>k. rev [1..<Suc k]) [1..<10])"

definition round_pids :: "nat list" where
  "round_pids = [0, 9, 8, 7, 6, 5, 4, 3, 2, 1]"

lemma rounds_add: "rounds (m + n) a = (fst (rounds m a) @ fst (rounds n (snd (rounds m a))), snd (rounds n (snd (rounds m a))))"
  by (induction m arbitrary: a) (simp_all add: split_beta Let_def)

lemma rounds_startup: "rounds 54 ([0], 0) = (startup_pids, (round_pids, 9))"
  by code_simp

lemma rounds_once: "rounds 10 (round_pids, 9) = (round_pids, (round_pids, 9))"
  by code_simp

lemma rounds_repeat: "rounds (10 * r) (round_pids, 9) = (concat (replicate r round_pids), (round_pids, 9))"
proof (induction r)
  case (Suc r)
  have "10 * Suc r = 10 + 10 * r" by simp
  then show ?case using Suc rounds_once by (simp only: rounds_add) simp
qed simp

lemma rounds_all: "rounds (54 + 10 * r) ([0], 0) = (startup_pids @ concat (replicate r round_pids), (round_pids, 9))"
  by (simp only: rounds_add rounds_startup rounds_repeat fst_conv snd_conv)

section \<open>Booting\<close>

lemma boot_ok:
  assumes "kinit (e_sched E) R (kern S)" "started S = 0" "hello_ok E (ram (mach S))"
    "length (console_buffer (con (mach S))) = 2000" "intr (mach S) = irq_boot (irq_image.truncate (e_kernel E)) f"
  shows "\<exists>S0. boot E S = Inr S0 \<and> sys_ok E R S0 ([0], 0) \<and> console_pos (con (mach S0)) = 0 \<and>
    console_buffer (con (mach S0)) = replicate 2000 (console_entry 0 7 0)"
proof -
  have t: "machine.truncate (mach S) = \<lparr>con = con (mach S), intr = irq_boot (irq_image.truncate (e_kernel E)) f\<rparr>"
    using assms(5) by (simp add: machine.truncate_def)
  obtain m where m: "init (e_kernel E) (machine.truncate (mach S)) = Inr m" "console_wf (con m)" "console_pos (con m) = 0"
    "console_buffer (con m) = replicate 2000 (console_entry 0 7 0)" "irq_ready (e_kernel E) (intr m)"
    using init_ready [OF assms(4), of "e_kernel E" f] by (auto simp: t)
  let ?S = "S\<lparr>mach := machine.extend m (machine.more (mach S))\<rparr>"
  have f: "con (mach ?S) = con m" "intr (mach ?S) = intr m" "ram (mach ?S) = ram (mach S)"
    by (cases "mach S"; simp add: machine.extend_def)+
  have "kinv (e_sched E) R (kern S) []" "current (kern S) = init_task (e_sched E)"
    using assms(1) kinit_kinv by (auto simp: kinit_def)
  then have "sys_ok E R ?S ([0], 0)" using assms(2,3) m f by (auto simp: mach_ok_def addr_of_def)
  moreover have "boot E S = Inr ?S" using m(1) by (simp add: boot_def)
  ultimately show ?thesis using m f by (intro exI [of _ ?S]) simp
qed

section \<open>Properties\<close>

text \<open>
  C1. The whole kernel: after \<open>init\<close> the screen is blank, \<open>main\<close> and the tasks run for ever without a
  fault, whatever the compiled code does on its own stack and whatever the devices return, and
  the lines appear in one order: while \<open>main\<close> starts the tasks, task \<open>k\<close> and then the earlier ones
  down to task 1 print after each start, and from then on \<open>main\<close> and the tasks from 9 down to
  1 print in turn, for ever.
\<close>

theorem kernel_prints_rounds:
  assumes "env_ok E R" "kinit (e_sched E) R (kern S)" "started S = 0" "hello_ok E (ram (mach S))"
    "length (console_buffer (con (mach S))) = 2000" "intr (mach S) = irq_boot (irq_image.truncate (e_kernel E)) f"
  shows "\<exists>S0. boot E S = Inr S0 \<and> console_buffer (con (mach S0)) = replicate 2000 (console_entry 0 7 0) \<and>
    (\<forall>n. \<exists>S'. sys_run E n S0 = Some (Inr S') \<and> console_wf (con (mach S'))) \<and>
    (\<forall>r. \<exists>S'. sys_run E (54 + 10 * r) S0 = Some (Inr S') \<and>
      console_abs (con (mach S')) =
        fold term_put (concat (map hello_text (startup_pids @ concat (replicate r round_pids)))) (console_abs (con (mach S0))))"
proof -
  obtain S0 where S0: "boot E S = Inr S0" "sys_ok E R S0 ([0], 0)"
    "console_buffer (con (mach S0)) = replicate 2000 (console_entry 0 7 0)"
    using boot_ok [OF assms(2-6)] by blast
  have wf: "console_wf (con (mach S'))" if "sys_ok E R S' a" for S' a
    using that by (cases a rule: round_step.cases) (auto simp: mach_ok_def)
  have "\<exists>S'. sys_run E n S0 = Some (Inr S') \<and> console_wf (con (mach S'))" for n
    using run_ok [OF assms(1) S0(2), of n] wf by blast
  moreover have "\<exists>S'. sys_run E (54 + 10 * r) S0 = Some (Inr S') \<and> console_abs (con (mach S')) =
        fold term_put (concat (map hello_text (startup_pids @ concat (replicate r round_pids)))) (console_abs (con (mach S0)))" for r
    using run_ok [OF assms(1) S0(2), of "54 + 10 * r"] unfolding rounds_all fst_conv by blast
  ultimately show ?thesis using S0(1,3) by blast
qed

text \<open>A concrete system: nine task structures at multiples of \<open>0x10000\<close>, code that keeps the registers.\<close>

definition demo_task :: "nat \<Rightarrow> addr" where
  "demo_task n = of_nat (n * 65536)"

definition demo_env :: env where
  "demo_env = \<lparr>e_sched = demo_image, e_kernel = demo_kernel_image, e_frames = (\<lambda>_. demo_print_image), e_tasks = demo_task,
     e_dev = (\<lambda>_ _. 0), e_wake = (\<lambda>_. demo_context 0), e_work = (\<lambda>\<sigma>. \<sigma>)\<rparr>"

definition demo_rooms :: stacks where
  "demo_rooms t = (if t = 2000 then frame_cells 5000 else if t \<in> demo_task ` {1..9} then start_cells t else {})"

definition demo_system :: system where
  "demo_system = \<lparr>kern = demo_state,
     mach = \<lparr>con = demo_console, intr = irq_boot (irq_image.truncate demo_kernel_image) 2,
             ram = put_bytes 0x7800 (hello_format @ [0]) (\<lambda>_. 0)\<rparr>, started = 0\<rparr>"

lemma unat_demo_task: "n \<le> 9 \<Longrightarrow> unat (demo_task n) = n * 65536"
  by (simp only: demo_task_def unat_of_nat) simp

lemma start_cells_region: "start_cells t \<subseteq> region t 4104"
  by (simp add: start_cells_def frame_cells_def start_offsets region_numeral)

lemma frame_cells_region: "frame_cells 5000 \<subseteq> region 4000 2000"
  using region_numeral [of _ 2000 "4000 :: addr"] by (simp add: frame_cells_def region_nowrap)

lemma demo_rooms_separate: "separate demo_rooms"
  unfolding separate_def
proof (intro allI impI)
  fix s t :: addr assume ne: "s \<noteq> t"
  have tasks: "start_cells (demo_task i) \<inter> start_cells (demo_task j) = {}" if "i < j" "j \<le> 9" for i j
  proof -
    have "region (demo_task i) 4104 \<inter> region (demo_task j) 4104 = {}"
      using that by (intro region_disjoint) (simp_all add: unat_demo_task)
    then show ?thesis using start_cells_region by blast
  qed
  have boot: "frame_cells 5000 \<inter> start_cells u = {}" if u: "u \<in> demo_task ` {1..9}" for u
  proof -
    obtain i where that: "u = demo_task i" "i \<in> {1..9}" using u by blast
    have "region 4000 2000 \<inter> region (demo_task i) 4104 = {}"
      using that by (intro region_disjoint) (simp_all add: unat_demo_task)
    then show ?thesis using start_cells_region frame_cells_region that(1) by blast
  qed
  have pair: "start_cells s \<inter> start_cells t = {}" if st: "s \<in> demo_task ` {1..9}" "t \<in> demo_task ` {1..9}"
  proof -
    obtain i j where "s = demo_task i" "t = demo_task j" "i \<le> 9" "j \<le> 9" using st by auto
    then show ?thesis using tasks [of i j] tasks [of j i] ne by (cases i j rule: linorder_cases) auto
  qed
  show "demo_rooms s \<inter> demo_rooms t = {}"
    unfolding demo_rooms_def using ne boot [of s] boot [of t] pair
    by (cases "s = 2000"; cases "t = 2000") (simp_all add: Int_commute)
qed

lemma demo_addr_inj: "inj_on (addr_of demo_env) {..9}"
proof (rule inj_onI)
  fix i j :: nat assume ij: "i \<in> {..9}" "j \<in> {..9}" "addr_of demo_env i = addr_of demo_env j"
  have u: "unat (addr_of demo_env n) = (if n = 0 then 2000 else n * 65536)" if "n \<le> 9" for n
    using that by (simp add: addr_of_def demo_env_def demo_image_def unat_demo_task)
  have "unat (addr_of demo_env i) = unat (addr_of demo_env j)" using ij(3) by simp
  then show "i = j" using ij(1,2) by (auto simp: u split: if_splits)
qed

lemma demo_task_neq: "n \<in> {1..9} \<Longrightarrow> demo_task n \<noteq> 1000 \<and> demo_task n \<noteq> 2000 \<and> demo_task n \<noteq> 0"
  using unat_demo_task [of n] by (auto simp: word_unat_eq_iff)

lemma demo_env_ok: "env_ok demo_env demo_rooms"
  unfolding env_ok_def
proof (intro conjI ballI allI impI)
  fix n :: nat assume n: "n \<in> {1..9}"
  then show "task_node (task_list (e_sched demo_env)) (e_tasks demo_env n)"
    using demo_task_neq by (simp add: task_node_def demo_env_def demo_image_def NULL_def)
  show "start_cells (e_tasks demo_env n) \<subseteq> demo_rooms (e_tasks demo_env n)"
    using n demo_task_neq [OF n] by (auto simp: demo_env_def demo_rooms_def)
next
  fix \<sigma> xs assume "kinv (e_sched demo_env) demo_rooms \<sigma> xs"
  then show "on_stack demo_rooms (e_work demo_env) \<sigma>"
    unfolding on_stack_def by (intro exI [of _ "cpu \<sigma>"] exI [of _ "cells \<sigma>"]) (simp add: demo_env_def kinv_def)
qed (use demo_rooms_separate demo_addr_inj in \<open>simp_all add: demo_env_def demo_context_def CLOCK_IRQ_def
  demo_kernel_image_def demo_irq_image_def irq_image.extend_def NULL_def\<close>)

lemma demo_hello_ok: "hello_ok demo_env (ram (mach demo_system))"
proof -
  have "cstr (ram (mach demo_system)) 0x7800 hello_format" by code_simp
  moreover have "length hello_format = 18" by (simp add: hello_format_def asc_def)
  moreover have "region (0x7800 :: addr) 19 \<inter> scratch demo_print_image = {}" by (auto simp: demo_scratch region_nowrap)
  ultimately have "literal_at demo_print_image (ram (mach demo_system)) 0x7800 hello_format" by (simp add: literal_at_def)
  then show ?thesis
    using demo_printable(1) by (simp add: hello_ok_def demo_env_def printable_def) (simp add: demo_print_image_def)
qed

theorem kernel_prints_rounds_witness:
  "\<exists>S0 S'. boot demo_env demo_system = Inr S0 \<and> sys_run demo_env 64 S0 = Some (Inr S') \<and>
     console_abs (con (mach S')) =
       fold term_put (concat (map hello_text (startup_pids @ round_pids))) (console_abs (con (mach S0)))"
proof -
  have "kinit (e_sched demo_env) demo_rooms (kern demo_system)"
    using demo_kinit by (simp add: kinit_def demo_env_def demo_system_def demo_rooms_def demo_stacks_def demo_image_def)
  then obtain S0 where "boot demo_env demo_system = Inr S0"
    "\<forall>r. \<exists>S'. sys_run demo_env (54 + 10 * r) S0 = Some (Inr S') \<and> console_abs (con (mach S')) =
       fold term_put (concat (map hello_text (startup_pids @ concat (replicate r round_pids)))) (console_abs (con (mach S0)))"
    using kernel_prints_rounds [OF demo_env_ok, of demo_system 2] demo_hello_ok
    by (auto simp: demo_system_def demo_console_def demo_env_def)
  from this(1) this(2) [rule_format, of 1] show ?thesis by auto
qed

end
