(* ===== verification/TaskPlaces.thy ===== *)
theory TaskPlaces
  imports InitMain
begin

text \<open>
  Where the tasks of \<open>init/main.c\<close> run: \<open>DECLARE_TASK\<close> (\<open>include/sched.h\<close>) gives each structure the entry
  point of its task, no operation changes it, and the run of the whole system resumes every task with the
  registers it had when it called the scheduler. This justifies that \<open>sys_step\<close> picks the code to
  run by the running task alone.
\<close>

section \<open>Declared tasks\<close>

text \<open>The members that the initialiser does not name are zero.\<close>

definition DECLARE_TASK :: "addr \<Rightarrow> task_struct" where
  "DECLARE_TASK ent = \<lparr>sp = 0, entry = ent, state = 0, ret = 0\<rparr>"

lemma switch_to_entry: "entry (task (switch_to new old \<sigma>) t) = entry (task \<sigma> t)"
  by (simp add: switch_to_def switch_save_def switch_restore_def pushl_def popl_def upd_task_def Let_def)

lemma pushl_entry: "task (pushl r \<sigma>) = task \<sigma>"
  by (simp add: pushl_def)

lemma schedule_entry: "schedule L \<sigma> = Inr \<sigma>' \<Longrightarrow> entry (task \<sigma>' t) = entry (task \<sigma> t)"
  by (auto simp: schedule_def Let_def switch_to_entry pushl_entry sched_simps split: if_splits)

lemma stack_init_entry: "entry (task (stack_init L t' \<sigma>) t) = entry (task \<sigma> t)"
  by (simp add: stack_init_def stack_store_def upd_task_def Let_def)

lemma task_run_entry:
  assumes "task_run L t' \<sigma> = Inr \<sigma>'"
  shows "entry (task \<sigma>' t) = entry (task \<sigma> t)"
proof -
  have "entry (task (task_init L t' (entry (task \<sigma> t')) a n \<sigma>) t) = entry (task \<sigma> t)" for a n
    by (simp add: task_init_def Let_def sched_simps stack_init_entry)
  then show ?thesis using schedule_entry assms by (simp add: task_run_def)
qed

section \<open>What a step does to the registers\<close>

lemma work_saved:
  assumes "env_ok E R" "kinv (e_sched E) R \<sigma> xs"
  shows "x \<in> set xs \<Longrightarrow> saved_context (e_work E \<sigma>) x = saved_context \<sigma> x" "task (e_work E \<sigma>) = task \<sigma>"
proof -
  obtain c m where "e_work E \<sigma> = \<sigma>\<lparr>cpu := c, cells := m\<rparr>" "\<And>a. a \<notin> R (current \<sigma>) \<Longrightarrow> m a = cells \<sigma> a"
    "frame_cells (esp c - 32) \<subseteq> R (current \<sigma>)"
    using assms by (auto simp: env_ok_def on_stack_def)
  then show "x \<in> set xs \<Longrightarrow> saved_context (e_work E \<sigma>) x = saved_context \<sigma> x" "task (e_work E \<sigma>) = task \<sigma>"
    using compute_contexts(2) [OF _ assms(2), of m c] assms(1) by (auto simp: env_ok_def)
qed

text \<open>The task that stops has its registers saved, the waiting ones keep theirs.\<close>

definition handed_over :: "env \<Rightarrow> system \<Rightarrow> system \<Rightarrow> addr list \<Rightarrow> bool" where
  "handed_over E S S' xs \<longleftrightarrow>
     saved_context (kern S') (current (kern S)) = return_context (e_sched E) (e_work E (kern S)) \<and>
     (\<forall>x \<in> set xs. x \<noteq> current (kern S') \<longrightarrow> saved_context (kern S') x = saved_context (kern S) x) \<and>
     (\<forall>t. entry (task (kern S') t) = entry (task (kern S) t))"

lemma start_effect:
  assumes "env_ok E R" "sys_ok E R S (0 # q, k)" "k < 9" "main_start E S = Some (Inr S')"
  shows "started S' = Suc k" "current (kern S') = e_tasks E (Suc k)"
    "cpu (kern S') = entry_context (e_tasks E (Suc k)) (entry (task (kern S) (e_tasks E (Suc k))))"
    "cells (kern S') (esp (cpu (kern S'))) = exit_point_addr (e_sched E)" "handed_over E S S' (map (addr_of E) q)"
proof -
  let ?\<sigma> = "e_work E (kern S)"
  have st: "started S = k" "kinv (e_sched E) R (kern S) (map (addr_of E) q)" using assms(2) by auto
  note kw = work_kinv [OF assms(1) st(2)]
  note ws = work_saved [OF assms(1) st(2)]
  have "separate R" using assms(1) by (simp add: env_ok_def)
  from spawn_contexts [OF this kw(1) next_task_fresh [OF assms(1-3)]]
  obtain \<sigma> where \<sigma>: "task_run (e_sched E) (e_tasks E (Suc k)) ?\<sigma> = Inr \<sigma>" "current \<sigma> = e_tasks E (Suc k)"
    "cpu \<sigma> = entry_context (e_tasks E (Suc k)) (entry (task ?\<sigma> (e_tasks E (Suc k))))"
    "cells \<sigma> (e_tasks E (Suc k) + 4100) = exit_point_addr (e_sched E)" "saved_context \<sigma> (current ?\<sigma>) = return_context (e_sched E) ?\<sigma>"
    "\<forall>x \<in> set (map (addr_of E) q). saved_context \<sigma> x = saved_context ?\<sigma> x" by blast
  have S': "S' = S\<lparr>kern := \<sigma>, started := Suc k\<rparr>" using assms(4) \<sigma>(1) st(1) by (simp add: main_start_def)
  show "started S' = Suc k" "current (kern S') = e_tasks E (Suc k)"
    "cpu (kern S') = entry_context (e_tasks E (Suc k)) (entry (task (kern S) (e_tasks E (Suc k))))"
    "cells (kern S') (esp (cpu (kern S'))) = exit_point_addr (e_sched E)"
    using \<sigma>(2-4) by (simp_all add: S' ws(2) entry_context_def)
  show "handed_over E S S' (map (addr_of E) q)"
    using \<sigma>(5,6) kw(2) ws task_run_entry [OF \<sigma>(1)] by (simp add: handed_over_def S')
qed

lemma worker_effect:
  assumes "env_ok E R" "sys_ok E R S (p # n # q, k)" "worker E p S = Some (Inr S')"
  shows "started S' = k" "current (kern S') = addr_of E n" "cpu (kern S') = saved_context (kern S) (addr_of E n)"
    "handed_over E S S' (map (addr_of E) (n # q))"
proof -
  let ?\<sigma> = "e_work E (kern S)"
  have st: "started S = k" "kinv (e_sched E) R (kern S) (addr_of E n # map (addr_of E) q)" using assms(2) by auto
  note kw = work_kinv [OF assms(1) st(2)]
  note ws = work_saved [OF assms(1) st(2)]
  have "separate R" using assms(1) by (simp add: env_ok_def)
  from yield_contexts [OF this kw(1)]
  obtain \<sigma> where \<sigma>: "schedule (e_sched E) ?\<sigma> = Inr \<sigma>" "current \<sigma> = addr_of E n" "cpu \<sigma> = saved_context ?\<sigma> (addr_of E n)"
    "saved_context \<sigma> (current ?\<sigma>) = return_context (e_sched E) ?\<sigma>"
    "\<forall>x \<in> set (map (addr_of E) q). saved_context \<sigma> x = saved_context ?\<sigma> x" by blast
  have run: "worker E p S = Some (Inr S')" by (rule assms(3))
  then obtain r where r: "call_printk (e_frames E p) (lit_hello (e_frames E p)) [of_nat p] (mach S) = Some r"
    by (auto simp: worker_def bind_eq_Some_conv)
  obtain i s1 where s1: "r = Returned (i, s1)" using run r by (cases r) (auto simp: worker_def)
  obtain s where "cpu_halt E s1 = Inr s" using run r s1 by (cases "cpu_halt E s1") (auto simp: worker_def)
  then have S': "S' = S\<lparr>mach := s, kern := \<sigma>\<rparr>" using run r s1 \<sigma>(1) by (simp add: worker_def call_schedule_def)
  show "started S' = k" "current (kern S') = addr_of E n" "cpu (kern S') = saved_context (kern S) (addr_of E n)"
    using \<sigma>(2,3) st(1) ws(1) by (simp_all add: S')
  show "handed_over E S S' (map (addr_of E) (n # q))"
    using \<sigma>(2,4,5) kw(2) ws schedule_entry [OF \<sigma>(1)] by (auto simp: handed_over_def S')
qed

text \<open>One step of the whole system: the next task starts, or a waiting one continues.\<close>

lemma step_effect:
  assumes "env_ok E R" "sys_ok E R S (p # q, k)" "sys_step E S = Some (Inr S')"
  shows "handed_over E S S' (map (addr_of E) q)"
    "started S' \<noteq> k \<Longrightarrow> started S' = Suc k \<and> k < 9 \<and> current (kern S') = e_tasks E (Suc k) \<and>
       cpu (kern S') = entry_context (e_tasks E (Suc k)) (entry (task (kern S) (e_tasks E (Suc k)))) \<and>
       cells (kern S') (esp (cpu (kern S'))) = exit_point_addr (e_sched E)"
    "current (kern S') \<in> set (map (addr_of E) q) \<Longrightarrow> cpu (kern S') = saved_context (kern S) (current (kern S'))"
proof -
  have st: "current (kern S) = addr_of E p" "started S = k" "set (p # q) = {..k}" "k \<le> 9" using assms(2) by auto
  have inj: "inj_on (addr_of E) {..9}" using assms(1) by (simp add: env_ok_def)
  have q: "i \<le> k" if "i \<in> set (p # q)" for i using that unfolding st(3) by simp
  from assms(1,2) have "handed_over E S S' (map (addr_of E) q) \<and>
    (started S' \<noteq> k \<longrightarrow> started S' = Suc k \<and> k < 9 \<and> current (kern S') = e_tasks E (Suc k) \<and>
       cpu (kern S') = entry_context (e_tasks E (Suc k)) (entry (task (kern S) (e_tasks E (Suc k)))) \<and>
       cells (kern S') (esp (cpu (kern S'))) = exit_point_addr (e_sched E)) \<and>
    (current (kern S') \<in> set (map (addr_of E) q) \<longrightarrow> cpu (kern S') = saved_context (kern S) (current (kern S')))"
  proof (cases rule: sys_step_cases)
    case start
    note se = start_effect [OF assms(1) assms(2) [unfolded start(1)] start(2)] 
    have run: "main_start E S = Some (Inr S')" using assms(3) start(3) by simp
    have addr: "e_tasks E (Suc k) = addr_of E (Suc k)" by (simp add: addr_of_def)
    have "addr_of E (Suc k) \<noteq> addr_of E i" if "i \<in> set q" for i
      using inj_onD [OF inj, of "Suc k" i] q [of i] that start(2) by fastforce
    then have "current (kern S') \<notin> set (map (addr_of E) q)" using se(2) [OF run] addr by auto
    then show ?thesis using se [OF run] start(2) by blast
  next
    case work
    then obtain n q' where n: "q = n # q'" by (cases q) auto
    note we = worker_effect [OF assms(1) assms(2) [unfolded n], of S']
    show ?thesis using we assms(3) work(3) by (simp add: n)
  qed
  then show "handed_over E S S' (map (addr_of E) q)"
    "started S' \<noteq> k \<Longrightarrow> started S' = Suc k \<and> k < 9 \<and> current (kern S') = e_tasks E (Suc k) \<and>
       cpu (kern S') = entry_context (e_tasks E (Suc k)) (entry (task (kern S) (e_tasks E (Suc k)))) \<and>
       cells (kern S') (esp (cpu (kern S'))) = exit_point_addr (e_sched E)"
    "current (kern S') \<in> set (map (addr_of E) q) \<Longrightarrow> cpu (kern S') = saved_context (kern S) (current (kern S'))"
    by blast+
qed

section \<open>Runs\<close>

lemma sys_run_add:
  "sys_run E (m + n) S = Option.bind (sys_run E m S) (\<lambda>r. case r of Inl e \<Rightarrow> Some (Inl e) | Inr S' \<Rightarrow> sys_run E n S')"
proof (induction m arbitrary: S)
  case (Suc m)
  show ?case by (cases "sys_step E S") (auto simp: Suc split: sum.split)
qed simp

lemma sys_run_state:
  assumes "env_ok E R" "sys_ok E R S a" "sys_run E m S = Some (Inr T)"
  shows "sys_ok E R T (snd (rounds m a))"
  using run_ok [OF assms(1,2), of m] assms(3) by auto

lemma sys_run_entry:
  assumes "env_ok E R" "sys_ok E R S a" "sys_run E m S = Some (Inr T)"
  shows "entry (task (kern T) t) = entry (task (kern S) t)"
  using assms(2,3)
proof (induction m arbitrary: S a)
  case (Suc m)
  obtain p q k where a: "a = (p # q, k)" using Suc.prems(1) by (cases a rule: round_step.cases) auto
  obtain S1 where S1: "sys_step E S = Some (Inr S1)" "sys_ok E R S1 (snd (round_step a))" using step_ok [OF assms(1) Suc.prems(1)] by blast
  have "entry (task (kern S1) t) = entry (task (kern S) t)"
    using step_effect(1) [OF assms(1) Suc.prems(1) [unfolded a] S1(1)] by (simp add: handed_over_def)
  then show ?case using Suc.IH [OF S1(2)] Suc.prems(2) S1(1) by simp
qed simp

lemma round_step_queue:
  assumes "env_ok E R" "sys_ok E R S (p # q, k)"
  obtains p1 q1 k1 where "snd (round_step (p # q, k)) = (p1 # q1, k1)" "p \<in> set q1" "set q \<subseteq> set (p1 # q1)"
  using assms
proof (cases rule: sys_step_cases)
  case start
  then show ?thesis using that [of "Suc k" "q @ [0]" "Suc k"] by auto
next
  case work
  then have "snd (round_step (p # q, k)) = (hd q # tl q @ [p], k)" by auto
  then show ?thesis using that [of "hd q" "tl q @ [p]" k] work(2) by (cases q) auto
qed

text \<open>A waiting task gets back what is saved for it.\<close>

lemma wait_then_resume:
  assumes "env_ok E R" "sys_ok E R S (p # q, k)" "x \<in> set (map (addr_of E) q)" "sys_run E d S = Some (Inr T)" "current (kern T) = x"
    "\<And>i U. i < d \<Longrightarrow> sys_run E i S = Some (Inr U) \<Longrightarrow> current (kern U) \<noteq> x"
  shows "cpu (kern T) = saved_context (kern S) x"
  using assms(2-)
proof (induction d arbitrary: S p q k)
  case 0
  then have "kinv (e_sched E) R (kern S) (map (addr_of E) q)" by simp
  then show ?case using 0 by (simp add: kinv_def sched_inv_def)
next
  case (Suc d)
  obtain S1 where S1: "sys_step E S = Some (Inr S1)" "sys_ok E R S1 (snd (round_step (p # q, k)))"
    using step_ok [OF assms(1) Suc.prems(1)] by blast
  note eff = step_effect [OF assms(1) Suc.prems(1) S1(1)]
  have run: "sys_run E d S1 = Some (Inr T)" using Suc.prems(3) S1(1) by simp
  have before: "current (kern U) \<noteq> x" if "i < d" "sys_run E i S1 = Some (Inr U)" for i U
    using Suc.prems(5) [of "Suc i" U] that S1(1) by simp
  show ?case
  proof (cases "current (kern S1) = x")
    case True
    then have "d = 0" using before [of 0 S1] by (cases d) simp_all
    then show ?thesis using run eff(3) True Suc.prems(2) by simp
  next
    case False
    obtain p1 q1 k1 where r: "snd (round_step (p # q, k)) = (p1 # q1, k1)" "set q \<subseteq> set (p1 # q1)"
      by (rule round_step_queue [OF assms(1) Suc.prems(1)])
    moreover have "current (kern S1) = addr_of E p1" using S1(2) unfolding r(1) by simp
    ultimately have x: "x \<in> set (map (addr_of E) q1)" using False Suc.prems(2) by auto
    have "cpu (kern T) = saved_context (kern S1) x" by (rule Suc.IH [OF S1(2) [unfolded r(1)] x run Suc.prems(4)]) (rule before)
    then show ?thesis using eff(1) False Suc.prems(2) unfolding handed_over_def by metis
  qed
qed

section \<open>Properties\<close>


definition demo_declared :: system where
  "demo_declared = demo_system\<lparr>kern := demo_state\<lparr>task := (\<lambda>t. if t = 2000 then task demo_state t else DECLARE_TASK (t + 0x2000))\<rparr>\<rparr>"


end
