(* ===== verification/HList.thy ===== *)
theory HList
  imports LinkedList
begin

text \<open>
  The hash lists of \<open>include/list.h\<close>: singly headed lists whose nodes point back to the pointer
  that points to them. A pointer to a pointer is the address of a cell; the cell of a head
  (\<open>first\<close>) and the cell of a node (\<open>next\<close>) are the first members of their structures, so their
  addresses are those of the structures. The heap maps cells to the pointers stored there and
  nodes to their \<open>pprev\<close>.

  \<open>hseg\<close> describes the nodes from a cell on; each operation is a change of that list, and the
  iteration macros visit it.
\<close>

section \<open>Data\<close>

record hlist_heap =
  cell :: "addr \<Rightarrow> addr"
  pprev :: "addr \<Rightarrow> addr"

definition put_cell :: "addr \<Rightarrow> addr \<Rightarrow> 'a hlist_heap_scheme \<Rightarrow> 'a hlist_heap_scheme" where
  "put_cell p v \<sigma> = \<sigma>\<lparr>cell := (cell \<sigma>)(p := v)\<rparr>"

definition put_pprev :: "addr \<Rightarrow> addr \<Rightarrow> 'a hlist_heap_scheme \<Rightarrow> 'a hlist_heap_scheme" where
  "put_pprev n v \<sigma> = \<sigma>\<lparr>pprev := (pprev \<sigma>)(n := v)\<rparr>"

section \<open>Operations\<close>

definition INIT_HLIST_HEAD :: "addr \<Rightarrow> 'a hlist_heap_scheme \<Rightarrow> 'a hlist_heap_scheme" where
  "INIT_HLIST_HEAD h \<sigma> = put_cell h NULL \<sigma>"

definition INIT_HLIST_NODE :: "addr \<Rightarrow> 'a hlist_heap_scheme \<Rightarrow> 'a hlist_heap_scheme" where
  "INIT_HLIST_NODE h \<sigma> =
     (let \<sigma> = put_cell h NULL \<sigma> in
      put_pprev h NULL \<sigma>)"

definition hlist_unhashed :: "addr \<Rightarrow> 'a hlist_heap_scheme \<Rightarrow> bool" where
  "hlist_unhashed h \<sigma> \<longleftrightarrow> pprev \<sigma> h = NULL"

definition hlist_unhashed_lockless :: "addr \<Rightarrow> 'a hlist_heap_scheme \<Rightarrow> bool" where
  "hlist_unhashed_lockless h \<sigma> \<longleftrightarrow> pprev \<sigma> h = NULL"

definition hlist_empty :: "addr \<Rightarrow> 'a hlist_heap_scheme \<Rightarrow> bool" where
  "hlist_empty h \<sigma> \<longleftrightarrow> cell \<sigma> h = NULL"

definition raw_hlist_del :: "addr \<Rightarrow> 'a hlist_heap_scheme \<Rightarrow> 'a hlist_heap_scheme" where
  "raw_hlist_del n \<sigma> =
     (let nxt = cell \<sigma> n;
          ppr = pprev \<sigma> n;
          \<sigma> = put_cell ppr nxt \<sigma> in
      if nxt \<noteq> NULL then put_pprev nxt ppr \<sigma> else \<sigma>)"

definition hlist_del :: "addr \<Rightarrow> 'a hlist_heap_scheme \<Rightarrow> 'a hlist_heap_scheme" where
  "hlist_del n \<sigma> =
     (let \<sigma> = raw_hlist_del n \<sigma>;
          \<sigma> = put_cell n LIST_POISON1 \<sigma> in
      put_pprev n LIST_POISON2 \<sigma>)"

definition hlist_del_init :: "addr \<Rightarrow> 'a hlist_heap_scheme \<Rightarrow> 'a hlist_heap_scheme" where
  "hlist_del_init n \<sigma> =
     (if \<not> hlist_unhashed n \<sigma> then
        (let \<sigma> = raw_hlist_del n \<sigma> in
         INIT_HLIST_NODE n \<sigma>)
      else \<sigma>)"

definition hlist_add_head :: "addr \<Rightarrow> addr \<Rightarrow> 'a hlist_heap_scheme \<Rightarrow> 'a hlist_heap_scheme" where
  "hlist_add_head n h \<sigma> =
     (let first = cell \<sigma> h;
          \<sigma> = put_cell n first \<sigma>;
          \<sigma> = (if first \<noteq> NULL then put_pprev first n \<sigma> else \<sigma>);
          \<sigma> = put_cell h n \<sigma> in
      put_pprev n h \<sigma>)"

definition hlist_add_before :: "addr \<Rightarrow> addr \<Rightarrow> 'a hlist_heap_scheme \<Rightarrow> 'a hlist_heap_scheme" where
  "hlist_add_before n nxt \<sigma> =
     (let \<sigma> = put_pprev n (pprev \<sigma> nxt) \<sigma>;
          \<sigma> = put_cell n nxt \<sigma>;
          \<sigma> = put_pprev nxt n \<sigma> in
      put_cell (pprev \<sigma> n) n \<sigma>)"

definition hlist_add_behind :: "addr \<Rightarrow> addr \<Rightarrow> 'a hlist_heap_scheme \<Rightarrow> 'a hlist_heap_scheme" where
  "hlist_add_behind n prv \<sigma> =
     (let \<sigma> = put_cell n (cell \<sigma> prv) \<sigma>;
          \<sigma> = put_cell prv n \<sigma>;
          \<sigma> = put_pprev n prv \<sigma> in
      if cell \<sigma> n \<noteq> NULL then put_pprev (cell \<sigma> n) n \<sigma> else \<sigma>)"

definition hlist_add_fake :: "addr \<Rightarrow> 'a hlist_heap_scheme \<Rightarrow> 'a hlist_heap_scheme" where
  "hlist_add_fake n \<sigma> = put_pprev n n \<sigma>"

definition hlist_fake :: "addr \<Rightarrow> 'a hlist_heap_scheme \<Rightarrow> bool" where
  "hlist_fake h \<sigma> \<longleftrightarrow> pprev \<sigma> h = h"

definition hlist_is_singular_node :: "addr \<Rightarrow> addr \<Rightarrow> 'a hlist_heap_scheme \<Rightarrow> bool" where
  "hlist_is_singular_node n h \<sigma> \<longleftrightarrow> cell \<sigma> n = NULL \<and> pprev \<sigma> n = h"

definition hlist_move_list :: "addr \<Rightarrow> addr \<Rightarrow> 'a hlist_heap_scheme \<Rightarrow> 'a hlist_heap_scheme" where
  "hlist_move_list old new \<sigma> =
     (let \<sigma> = put_cell new (cell \<sigma> old) \<sigma>;
          \<sigma> = (if cell \<sigma> new \<noteq> NULL then put_pprev (cell \<sigma> new) new \<sigma> else \<sigma>) in
      put_cell old NULL \<sigma>)"

section \<open>Iteration\<close>

text \<open>The body of a loop is a change of the heap (and of what extends it); \<open>off\<close> is the offset of the node in its structure.\<close>

type_synonym 'a hbody = "addr \<Rightarrow> 'a hlist_heap_scheme \<Rightarrow> 'a hlist_heap_scheme"

partial_function (option) hlist_loop :: "'a hbody \<Rightarrow> addr \<Rightarrow> 'a hlist_heap_scheme \<Rightarrow> 'a hlist_heap_scheme option" where
  "hlist_loop body pos \<sigma> =
     (if pos = NULL then Some \<sigma> else let \<sigma>' = body pos \<sigma> in hlist_loop body (cell \<sigma>' pos) \<sigma>')"

definition hlist_for_each :: "'a hbody \<Rightarrow> addr \<Rightarrow> 'a hlist_heap_scheme \<Rightarrow> 'a hlist_heap_scheme option" where
  "hlist_for_each body head \<sigma> = hlist_loop body (cell \<sigma> head) \<sigma>"

partial_function (option) hlist_safe_loop :: "'a hbody \<Rightarrow> addr \<Rightarrow> 'a hlist_heap_scheme \<Rightarrow> 'a hlist_heap_scheme option" where
  "hlist_safe_loop body pos \<sigma> =
     (if pos = NULL then Some \<sigma> else let n = cell \<sigma> pos in hlist_safe_loop body n (body pos \<sigma>))"

definition hlist_for_each_safe :: "'a hbody \<Rightarrow> addr \<Rightarrow> 'a hlist_heap_scheme \<Rightarrow> 'a hlist_heap_scheme option" where
  "hlist_for_each_safe body head \<sigma> = hlist_safe_loop body (cell \<sigma> head) \<sigma>"

definition hlist_entry :: "addr \<Rightarrow> u32 \<Rightarrow> addr" where
  "hlist_entry ptr off = container_of ptr off"

definition hlist_entry_safe :: "addr \<Rightarrow> u32 \<Rightarrow> addr" where
  "hlist_entry_safe ptr off = (if ptr \<noteq> NULL then hlist_entry ptr off else NULL)"

partial_function (option) hentry_loop :: "'a hbody \<Rightarrow> u32 \<Rightarrow> addr \<Rightarrow> 'a hlist_heap_scheme \<Rightarrow> 'a hlist_heap_scheme option" where
  "hentry_loop body off pos \<sigma> =
     (if pos = NULL then Some \<sigma>
      else let \<sigma>' = body pos \<sigma> in hentry_loop body off (hlist_entry_safe (cell \<sigma>' (pos + off)) off) \<sigma>')"

definition hlist_for_each_entry :: "'a hbody \<Rightarrow> u32 \<Rightarrow> addr \<Rightarrow> 'a hlist_heap_scheme \<Rightarrow> 'a hlist_heap_scheme option" where
  "hlist_for_each_entry body off head \<sigma> = hentry_loop body off (hlist_entry_safe (cell \<sigma> head) off) \<sigma>"

definition hlist_for_each_entry_continue :: "'a hbody \<Rightarrow> u32 \<Rightarrow> addr \<Rightarrow> 'a hlist_heap_scheme \<Rightarrow> 'a hlist_heap_scheme option" where
  "hlist_for_each_entry_continue body off pos \<sigma> = hentry_loop body off (hlist_entry_safe (cell \<sigma> (pos + off)) off) \<sigma>"

definition hlist_for_each_entry_from :: "'a hbody \<Rightarrow> u32 \<Rightarrow> addr \<Rightarrow> 'a hlist_heap_scheme \<Rightarrow> 'a hlist_heap_scheme option" where
  "hlist_for_each_entry_from body off pos \<sigma> = hentry_loop body off pos \<sigma>"

partial_function (option) hentry_safe_loop :: "'a hbody \<Rightarrow> u32 \<Rightarrow> addr \<Rightarrow> 'a hlist_heap_scheme \<Rightarrow> 'a hlist_heap_scheme option" where
  "hentry_safe_loop body off pos \<sigma> =
     (if pos = NULL then Some \<sigma>
      else let n = cell \<sigma> (pos + off) in hentry_safe_loop body off (hlist_entry_safe n off) (body pos \<sigma>))"

definition hlist_for_each_entry_safe :: "'a hbody \<Rightarrow> u32 \<Rightarrow> addr \<Rightarrow> 'a hlist_heap_scheme \<Rightarrow> 'a hlist_heap_scheme option" where
  "hlist_for_each_entry_safe body off head \<sigma> = hentry_safe_loop body off (hlist_entry_safe (cell \<sigma> head) off) \<sigma>"

section \<open>The nodes of a list\<close>

fun hseg :: "'a hlist_heap_scheme \<Rightarrow> addr \<Rightarrow> addr list \<Rightarrow> bool" where
  "hseg \<sigma> c [] \<longleftrightarrow> cell \<sigma> c = NULL"
| "hseg \<sigma> c (x # xs) \<longleftrightarrow> x \<noteq> NULL \<and> cell \<sigma> c = x \<and> pprev \<sigma> x = c \<and> hseg \<sigma> x xs"

definition hlist :: "'a hlist_heap_scheme \<Rightarrow> addr \<Rightarrow> addr list \<Rightarrow> bool" where
  "hlist \<sigma> h xs \<longleftrightarrow> hseg \<sigma> h xs \<and> distinct (h # xs)"

lemma heap_updates [simp]:
  "cell (put_cell p v \<sigma>) = (cell \<sigma>)(p := v)" "pprev (put_cell p v \<sigma>) = pprev \<sigma>"
  "cell (put_pprev p v \<sigma>) = cell \<sigma>" "pprev (put_pprev p v \<sigma>) = (pprev \<sigma>)(p := v)"
  by (simp_all add: put_cell_def put_pprev_def)

lemma hseg_cong:
  "\<forall>x \<in> set (c # xs). cell \<sigma>' x = cell \<sigma> x \<Longrightarrow> \<forall>x \<in> set xs. pprev \<sigma>' x = pprev \<sigma> x \<Longrightarrow> hseg \<sigma>' c xs = hseg \<sigma> c xs"
  by (induction xs arbitrary: c) auto

text \<open>The first part of a list, up to the cell that holds the rest.\<close>

fun hpart :: "'a hlist_heap_scheme \<Rightarrow> addr \<Rightarrow> addr list \<Rightarrow> bool" where
  "hpart \<sigma> c [] \<longleftrightarrow> True"
| "hpart \<sigma> c (x # xs) \<longleftrightarrow> x \<noteq> NULL \<and> cell \<sigma> c = x \<and> pprev \<sigma> x = c \<and> hpart \<sigma> x xs"

lemma hseg_append: "hseg \<sigma> c (xs @ ys) \<longleftrightarrow> hpart \<sigma> c xs \<and> hseg \<sigma> (last (c # xs)) ys"
  by (induction xs arbitrary: c) auto

lemma hpart_cong:
  "\<forall>x \<in> set (butlast (c # xs)). cell \<sigma>' x = cell \<sigma> x \<Longrightarrow> \<forall>x \<in> set xs. pprev \<sigma>' x = pprev \<sigma> x \<Longrightarrow> hpart \<sigma>' c xs = hpart \<sigma> c xs"
  by (induction xs arbitrary: c) (auto split: if_splits)

lemma last_notin_butlast: "distinct xs \<Longrightarrow> xs \<noteq> [] \<Longrightarrow> last xs \<notin> set (butlast xs)"
  by (induction xs rule: rev_induct) auto

text \<open>All insertions link a node in behind a cell, all removals unlink one; this is what they do to the list.\<close>

lemma insert_ok:
  fixes \<sigma> \<sigma>' :: "'a hlist_heap_scheme"
  assumes "hlist \<sigma> h (as @ bs)" "a = last (h # as)" "n \<notin> set (h # as @ bs)" "n \<noteq> NULL"
    "cell \<sigma>' = (cell \<sigma>)(n := cell \<sigma> a, a := n)"
    "pprev \<sigma>' = (if cell \<sigma> a = NULL then pprev \<sigma> else (pprev \<sigma>)(cell \<sigma> a := n))(n := a)"
  shows "hlist \<sigma>' h (as @ n # bs)"
proof -
  have d: "distinct (h # as @ bs)" and part: "hpart \<sigma> h as" and seg: "hseg \<sigma> a bs"
    using assms(1,2) by (auto simp: hlist_def hseg_append)
  have a: "a \<in> set (h # as)" "a \<notin> set (butlast (h # as))" "a \<noteq> n"
    using assms(2,3) d last_notin_butlast [of "h # as"] last_in_set [of "h # as"] by (auto split: if_splits)
  have "set (butlast (h # as)) \<subseteq> set (h # as)" by (auto dest: in_set_butlastD)
  then have "hpart \<sigma>' h as"
    using part a(2) assms(3,5,6) d seg by (subst hpart_cong [of h as \<sigma>' \<sigma>]) (cases bs; auto)+
  moreover have "hseg \<sigma>' a (n # bs)"
  proof (cases bs)
    case Nil
    then show ?thesis using seg assms(4-6) a(3) by simp
  next
    case (Cons b bs')
    have "hseg \<sigma> b bs'" "cell \<sigma> a = b" "b \<noteq> NULL" using seg Cons by auto
    moreover have "hseg \<sigma>' b bs' = hseg \<sigma> b bs'"
      using Cons d a(1) assms(3,5,6) \<open>cell \<sigma> a = b\<close> by (intro hseg_cong) auto
    moreover have "b \<noteq> n" using Cons assms(3) by auto
    ultimately show ?thesis using Cons assms(4-6) a(3) by simp
  qed
  moreover have "distinct (h # as @ n # bs)" using d assms(3) by auto
  ultimately show ?thesis using assms(2) by (simp add: hlist_def hseg_append)
qed

lemma remove_ok:
  fixes \<sigma> \<sigma>' :: "'a hlist_heap_scheme"
  assumes "hlist \<sigma> h (as @ y # bs)" "a = last (h # as)"
    "cell \<sigma>' = (cell \<sigma>)(a := cell \<sigma> y, y := v)"
    "pprev \<sigma>' = (if cell \<sigma> y = NULL then pprev \<sigma> else (pprev \<sigma>)(cell \<sigma> y := a))(y := w)"
  shows "hlist \<sigma>' h (as @ bs)"
proof -
  have d: "distinct (h # as @ y # bs)" and part: "hpart \<sigma> h as" and seg: "hseg \<sigma> a (y # bs)"
    using assms(1,2) by (auto simp: hlist_def hseg_append)
  have a: "a \<in> set (h # as)" "a \<notin> set (butlast (h # as))" "a \<noteq> y"
    using assms(2) d last_notin_butlast [of "h # as"] last_in_set [of "h # as"] by (auto split: if_splits)
  have "set (butlast (h # as)) \<subseteq> set (h # as)" by (auto dest: in_set_butlastD)
  then have "hpart \<sigma>' h as"
    using part a(2) assms(3,4) d seg by (subst hpart_cong [of h as \<sigma>' \<sigma>]) (cases bs; auto)+
  moreover have "hseg \<sigma>' a bs"
  proof (cases bs)
    case Nil
    then show ?thesis using seg assms(3) a(3) by simp
  next
    case (Cons b bs')
    have "hseg \<sigma> b bs'" "cell \<sigma> y = b" "b \<noteq> NULL" using seg Cons by auto
    moreover have "hseg \<sigma>' b bs' = hseg \<sigma> b bs'"
      using Cons d a(1) assms(3,4) \<open>cell \<sigma> y = b\<close> by (intro hseg_cong) auto
    moreover have "b \<noteq> y" using Cons d by auto
    ultimately show ?thesis using Cons assms(3,4) a(3) by simp
  qed
  moreover have "distinct (h # as @ bs)" using d by auto
  ultimately show ?thesis using assms(2) by (simp add: hlist_def hseg_append)
qed

lemma hlist_split:
  assumes "hlist \<sigma> h (as @ y # bs)"
  shows "pprev \<sigma> y = last (h # as)" "cell \<sigma> (last (h # as)) = y" "y \<noteq> NULL" "last (h # as) \<noteq> y" "cell \<sigma> y \<noteq> y"
    "cell \<sigma> y = (if bs = [] then NULL else hd bs)"
proof -
  have d: "distinct (h # as @ y # bs)" and seg: "hseg \<sigma> (last (h # as)) (y # bs)"
    using assms by (auto simp: hlist_def hseg_append)
  then show "pprev \<sigma> y = last (h # as)" "cell \<sigma> (last (h # as)) = y" "y \<noteq> NULL" by auto
  show "last (h # as) \<noteq> y" using d last_in_set [of "h # as"] by (auto split: if_splits)
  show e: "cell \<sigma> y = (if bs = [] then NULL else hd bs)" using seg by (cases bs) auto
  show "cell \<sigma> y \<noteq> y" unfolding e using d \<open>y \<noteq> NULL\<close> by (cases bs) auto
qed

lemma hlist_add_head_ok:
  assumes "hlist \<sigma> h xs" "n \<notin> set (h # xs)" "n \<noteq> NULL"
  shows "hlist (hlist_add_head n h \<sigma>) h (n # xs)"
  using insert_ok [of \<sigma> h "[]" xs h n "hlist_add_head n h \<sigma>"] assms
  by (auto simp: hlist_add_head_def Let_def fun_upd_twist)

lemma hlist_add_behind_ok:
  assumes "hlist \<sigma> h (as @ y # bs)" "n \<notin> set (h # as @ y # bs)" "n \<noteq> NULL"
  shows "hlist (hlist_add_behind n y \<sigma>) h (as @ y # n # bs)"
proof -
  have ny: "y \<noteq> n" and nb: "cell \<sigma> y \<noteq> n" using assms(2,3) hlist_split(6) [OF assms(1)] by (cases bs; auto)+
  have "cell (hlist_add_behind n y \<sigma>) = (cell \<sigma>)(n := cell \<sigma> y, y := n)"
    "pprev (hlist_add_behind n y \<sigma>) = (if cell \<sigma> y = NULL then pprev \<sigma> else (pprev \<sigma>)(cell \<sigma> y := n))(n := y)"
    using ny nb by (auto simp: hlist_add_behind_def Let_def)
  then show ?thesis using insert_ok [of \<sigma> h "as @ [y]" bs y n "hlist_add_behind n y \<sigma>"] assms by simp
qed

lemma hlist_add_before_ok:
  assumes "hlist \<sigma> h (as @ y # bs)" "n \<notin> set (h # as @ y # bs)" "n \<noteq> NULL"
  shows "hlist (hlist_add_before n y \<sigma>) h (as @ n # y # bs)"
proof -
  let ?a = "last (h # as)"
  have ny: "y \<noteq> n" using assms(2) by auto
  have "cell (hlist_add_before n y \<sigma>) = (cell \<sigma>)(n := cell \<sigma> ?a, ?a := n)"
    "pprev (hlist_add_before n y \<sigma>) = (if cell \<sigma> ?a = NULL then pprev \<sigma> else (pprev \<sigma>)(cell \<sigma> ?a := n))(n := ?a)"
    using ny hlist_split [OF assms(1)] by (auto simp: hlist_add_before_def Let_def)
  then show ?thesis using insert_ok [of \<sigma> h as "y # bs" ?a n "hlist_add_before n y \<sigma>"] assms by simp
qed

lemma raw_hlist_del_fields:
  assumes "hlist \<sigma> h (as @ y # bs)"
  shows "cell (raw_hlist_del y \<sigma>) = (cell \<sigma>)(last (h # as) := cell \<sigma> y)"
    "pprev (raw_hlist_del y \<sigma>) = (if cell \<sigma> y = NULL then pprev \<sigma> else (pprev \<sigma>)(cell \<sigma> y := last (h # as)))"
  using hlist_split(1) [OF assms] by (simp_all add: raw_hlist_del_def Let_def)

lemma hlist_del_ok:
  assumes "hlist \<sigma> h (as @ y # bs)"
  shows "hlist (hlist_del y \<sigma>) h (as @ bs)" "cell (hlist_del y \<sigma>) y = LIST_POISON1" "pprev (hlist_del y \<sigma>) y = LIST_POISON2"
proof -
  show "hlist (hlist_del y \<sigma>) h (as @ bs)"
    by (rule remove_ok [OF assms refl, of _ LIST_POISON1 LIST_POISON2])
      (simp_all add: hlist_del_def Let_def raw_hlist_del_fields [OF assms])
qed (simp_all add: hlist_del_def Let_def)

lemma hlist_del_init_ok:
  assumes "hlist \<sigma> h (as @ y # bs)" "h \<noteq> NULL"
  shows "hlist (hlist_del_init y \<sigma>) h (as @ bs)" "hlist_unhashed y (hlist_del_init y \<sigma>)"
    "hlist_del_init y (hlist_del_init y \<sigma>) = hlist_del_init y \<sigma>"
proof -
  have "\<forall>x \<in> set xs. x \<noteq> NULL" if "hseg \<sigma> c xs" for c xs using that by (induction xs arbitrary: c) auto
  then have "last (h # as) \<noteq> NULL" using assms last_in_set [of as] by (auto simp: hlist_def)
  then have "\<not> hlist_unhashed y \<sigma>" using hlist_split(1) [OF assms(1)] by (simp add: hlist_unhashed_def)
  then have eq: "hlist_del_init y \<sigma> = INIT_HLIST_NODE y (raw_hlist_del y \<sigma>)" by (simp add: hlist_del_init_def)
  show "hlist (hlist_del_init y \<sigma>) h (as @ bs)"
    by (rule remove_ok [OF assms(1) refl, of _ NULL NULL])
      (simp_all add: eq INIT_HLIST_NODE_def Let_def raw_hlist_del_fields [OF assms(1)])
  show un: "hlist_unhashed y (hlist_del_init y \<sigma>)" by (simp add: eq INIT_HLIST_NODE_def Let_def hlist_unhashed_def)
  show "hlist_del_init y (hlist_del_init y \<sigma>) = hlist_del_init y \<sigma>" using un by (simp add: hlist_del_init_def [of y "hlist_del_init y \<sigma>"])
qed

lemma hlist_move_list_ok:
  assumes "hlist \<sigma> old xs" "new \<notin> set (old # xs)"
  shows "hlist (hlist_move_list old new \<sigma>) new xs" "hlist (hlist_move_list old new \<sigma>) old []"
proof -
  let ?\<sigma> = "hlist_move_list old new \<sigma>"
  show "hlist ?\<sigma> old []" by (simp add: hlist_def hlist_move_list_def Let_def)
  show "hlist ?\<sigma> new xs"
  proof (cases xs)
    case Nil
    then show ?thesis using assms by (auto simp: hlist_def hlist_move_list_def Let_def)
  next
    case (Cons x ys)
    have x: "x \<noteq> NULL" "cell \<sigma> old = x" "hseg \<sigma> x ys" "distinct (old # x # ys)" using assms(1) Cons by (auto simp: hlist_def)
    have "hseg ?\<sigma> x ys = hseg \<sigma> x ys"
      using x assms(2) Cons by (intro hseg_cong) (auto simp: hlist_move_list_def Let_def)
    then show ?thesis using x assms(2) Cons by (auto simp: hlist_def hlist_move_list_def Let_def)
  qed
qed

section \<open>Iteration\<close>

lemma hlist_loop_fold:
  assumes "\<And>p \<tau>. cell (body p \<tau>) = cell \<tau>"
  shows "hseg \<sigma> c xs \<Longrightarrow> cell \<sigma>' = cell \<sigma> \<Longrightarrow> hlist_loop body (cell \<sigma>' c) \<sigma>' = Some (fold body xs \<sigma>')"
proof (induction xs arbitrary: c \<sigma>')
  case Nil
  then show ?case by (simp add: hlist_loop.simps)
next
  case (Cons x xs)
  have "hlist_loop body (cell \<sigma>' c) \<sigma>' = hlist_loop body (cell (body x \<sigma>') x) (body x \<sigma>')"
    using Cons.prems by (subst hlist_loop.simps) (simp add: Let_def)
  then show ?case using Cons.IH [of x "body x \<sigma>'"] Cons.prems assms by simp
qed

lemma hentry_loop_fold:
  assumes "\<And>p \<tau>. cell (body p \<tau>) = cell \<tau>"
  shows "hseg \<sigma> c xs \<Longrightarrow> off \<notin> set xs \<Longrightarrow> cell \<sigma>' = cell \<sigma> \<Longrightarrow>
    hentry_loop body off (hlist_entry_safe (cell \<sigma>' c) off) \<sigma>' = Some (fold body (map (\<lambda>p. hlist_entry p off) xs) \<sigma>')"
proof (induction xs arbitrary: c \<sigma>')
  case Nil
  then show ?case by (simp add: hlist_entry_safe_def hentry_loop.simps)
next
  case (Cons x xs)
  let ?e = "hlist_entry x off"
  have e: "?e \<noteq> NULL" "?e + off = x" "hlist_entry_safe (cell \<sigma>' c) off = ?e"
    using Cons.prems by (auto simp: hlist_entry_def container_of_def hlist_entry_safe_def NULL_def)
  have "hentry_loop body off ?e \<sigma>' = hentry_loop body off (hlist_entry_safe (cell (body ?e \<sigma>') x) off) (body ?e \<sigma>')"
    using e(1,2) by (subst hentry_loop.simps) (simp add: Let_def)
  then show ?case using Cons.IH [of x "body ?e \<sigma>'"] Cons.prems assms e(3) by simp
qed

lemma hlist_del_init_head:
  assumes "hlist \<sigma> h (x # xs)" "h \<noteq> NULL"
  shows "hlist (hlist_del_init x \<sigma>) h xs" "cell (hlist_del_init x \<sigma>) h = cell \<sigma> x" "hlist_unhashed x (hlist_del_init x \<sigma>)"
    "z \<notin> set xs \<Longrightarrow> hlist_unhashed z \<sigma> \<Longrightarrow> hlist_unhashed z (hlist_del_init x \<sigma>)"
proof -
  have ok: "hlist \<sigma> h ([] @ x # xs)" using assms(1) by simp
  show "hlist (hlist_del_init x \<sigma>) h xs" "hlist_unhashed x (hlist_del_init x \<sigma>)"
    using hlist_del_init_ok [OF ok assms(2)] by simp_all
  have "\<not> hlist_unhashed x \<sigma>" "h \<noteq> x" using hlist_split [OF ok] assms(2) by (auto simp: hlist_unhashed_def)
  then show "cell (hlist_del_init x \<sigma>) h = cell \<sigma> x"
    using raw_hlist_del_fields [OF ok] by (simp add: hlist_del_init_def INIT_HLIST_NODE_def Let_def)
  assume "z \<notin> set xs" "hlist_unhashed z \<sigma>"
  moreover have "cell \<sigma> x = NULL \<or> cell \<sigma> x \<in> set xs" using hlist_split(6) [OF ok] by (cases xs) auto
  ultimately show "hlist_unhashed z (hlist_del_init x \<sigma>)"
    using raw_hlist_del_fields [OF ok] by (auto simp: hlist_del_init_def INIT_HLIST_NODE_def Let_def hlist_unhashed_def)
qed

lemma hlist_safe_drain:
  "hlist \<sigma> h xs \<Longrightarrow> h \<noteq> NULL \<Longrightarrow> Z \<inter> set xs = {} \<Longrightarrow> \<forall>z \<in> Z. hlist_unhashed z \<sigma> \<Longrightarrow>
    \<exists>\<sigma>'. hlist_safe_loop hlist_del_init (cell \<sigma> h) \<sigma> = Some \<sigma>' \<and> hlist \<sigma>' h [] \<and> (\<forall>z \<in> Z \<union> set xs. hlist_unhashed z \<sigma>')"
proof (induction xs arbitrary: \<sigma> Z)
  case Nil
  then have "cell \<sigma> h = NULL" by (simp add: hlist_def)
  then show ?case using Nil by (subst hlist_safe_loop.simps) simp
next
  case (Cons x xs)
  note del = hlist_del_init_head [OF Cons.prems(1,2)]
  have x: "cell \<sigma> h = x" "x \<noteq> NULL" "x \<notin> set xs" using Cons.prems(1) by (auto simp: hlist_def)
  have "hlist_safe_loop hlist_del_init (cell \<sigma> h) \<sigma> = hlist_safe_loop hlist_del_init (cell (hlist_del_init x \<sigma>) h) (hlist_del_init x \<sigma>)"
    using x del(2) by (subst hlist_safe_loop.simps) (simp add: Let_def)
  moreover have "\<forall>z \<in> insert x Z. hlist_unhashed z (hlist_del_init x \<sigma>)" using Cons.prems(3,4) del(3,4) by auto
  ultimately show ?case using Cons.IH [OF del(1) Cons.prems(2), of "insert x Z"] Cons.prems(3) x(3) by auto
qed

section \<open>Properties\<close>

text \<open>
  C38. Hash lists: a new node goes to the front, before or behind a given node; a removed node is
  poisoned by \<open>hlist_del\<close> and reinitialised by \<open>hlist_del_init\<close>, for which a second removal does
  nothing; moving hands the whole list to another head; and the iteration macros return after
  visiting each node once in order, the safe variant also when its body removes the node.
\<close>

theorem hlist_operations:
  assumes "hlist \<sigma> h (as @ y # bs)" "h \<noteq> NULL" "n \<notin> set (h # as @ y # bs)" "n \<noteq> NULL"
  shows "hlist (hlist_add_head n h \<sigma>) h (n # as @ y # bs) \<and>
    hlist (hlist_add_before n y \<sigma>) h (as @ n # y # bs) \<and> hlist (hlist_add_behind n y \<sigma>) h (as @ y # n # bs) \<and>
    hlist (hlist_del y \<sigma>) h (as @ bs) \<and> cell (hlist_del y \<sigma>) y = LIST_POISON1 \<and> pprev (hlist_del y \<sigma>) y = LIST_POISON2 \<and>
    hlist (hlist_del_init y \<sigma>) h (as @ bs) \<and> hlist_unhashed y (hlist_del_init y \<sigma>) \<and>
    hlist_del_init y (hlist_del_init y \<sigma>) = hlist_del_init y \<sigma> \<and>
    hlist (hlist_move_list h n \<sigma>) n (as @ y # bs) \<and> hlist (hlist_move_list h n \<sigma>) h [] \<and>
    (hlist_is_singular_node y h \<sigma> \<longleftrightarrow> as = [] \<and> bs = []) \<and> \<not> hlist_empty h \<sigma> \<and>
    (off \<notin> set (as @ y # bs) \<and> (\<forall>p \<tau>. cell (body p \<tau>) = cell \<tau>) \<longrightarrow>
      hlist_for_each body h \<sigma> = Some (fold body (as @ y # bs) \<sigma>) \<and>
      hlist_for_each_entry body off h \<sigma> = Some (fold body (map (\<lambda>p. hlist_entry p off) (as @ y # bs)) \<sigma>)) \<and>
    (\<exists>\<sigma>'. hlist_for_each_safe hlist_del_init h \<sigma> = Some \<sigma>' \<and> hlist \<sigma>' h [] \<and> (\<forall>z \<in> set (as @ y # bs). hlist_unhashed z \<sigma>'))"
proof (intro conjI impI)
  have d: "distinct (h # as @ y # bs)" and seg: "hseg \<sigma> h (as @ y # bs)" using assms(1) by (simp_all add: hlist_def)
  have nz: "\<forall>x \<in> set xs. x \<noteq> NULL" if "hseg \<sigma> c xs" for c xs using that by (induction xs arbitrary: c) auto
  show "hlist_is_singular_node y h \<sigma> \<longleftrightarrow> as = [] \<and> bs = []"
  proof -
    have "last (h # as) = h \<longleftrightarrow> as = []" using d last_in_set [of as] by auto
    moreover have "hd bs \<noteq> NULL" if "bs \<noteq> []" using nz [OF seg] that by auto
    ultimately show ?thesis using hlist_split(1,6) [OF assms(1)] by (auto simp: hlist_is_singular_node_def)
  qed
  show "\<not> hlist_empty h \<sigma>" using seg nz [OF seg] by (cases as) (auto simp: hlist_empty_def)
  show "hlist_for_each body h \<sigma> = Some (fold body (as @ y # bs) \<sigma>)"
    "hlist_for_each_entry body off h \<sigma> = Some (fold body (map (\<lambda>p. hlist_entry p off) (as @ y # bs)) \<sigma>)"
    if "off \<notin> set (as @ y # bs) \<and> (\<forall>p \<tau>. cell (body p \<tau>) = cell \<tau>)"
    using that hlist_loop_fold [OF _ seg refl, of body] hentry_loop_fold [OF _ seg _ refl, of body off]
    by (simp_all add: hlist_for_each_def hlist_for_each_entry_def)
  show "\<exists>\<sigma>'. hlist_for_each_safe hlist_del_init h \<sigma> = Some \<sigma>' \<and> hlist \<sigma>' h [] \<and> (\<forall>z \<in> set (as @ y # bs). hlist_unhashed z \<sigma>')"
    using hlist_safe_drain [OF assms(1,2), of "{}"] by (simp add: hlist_for_each_safe_def)
qed (use assms in \<open>simp_all only: hlist_add_head_ok hlist_add_before_ok hlist_add_behind_ok hlist_del_ok hlist_del_init_ok
  hlist_move_list_ok not_False_eq_True\<close>)

definition sample_hheap :: hlist_heap where
  "sample_hheap = \<lparr>cell = (\<lambda>_. 0)(100 := 8, 8 := 16, 16 := 24), pprev = (\<lambda>_. 0)(8 := 100, 16 := 8, 24 := 16)\<rparr>"

lemma sample_hlist: "hlist sample_hheap 100 ([8] @ 16 # [24])"
  by (simp add: hlist_def sample_hheap_def NULL_def)

theorem hlist_operations_witness:
  "hlist (hlist_add_before 32 16 sample_hheap) 100 [8, 32, 16, 24] \<and> hlist (hlist_del 16 sample_hheap) 100 [8, 24]"
  using hlist_operations [OF sample_hlist, of 32] by (simp add: NULL_def)

end
