(* ===== verification/Scanf.thy ===== *)
theory Scanf
  imports Printf
begin

text \<open>
  Formatted input (\<open>vsscanf\<close>, \<open>sscanf\<close> of \<open>lib/vsprintf.c\<close>). The local variables of the loop are
  the record \<open>scan\<close>; the address of the local \<open>next\<close>, which the number parsers store to, is the
  parameter \<open>nextp\<close>. One pass through the loop is \<open>scan_step\<close>: \<open>Go\<close> continues with the next pass,
  \<open>Stop\<close> leaves the loop or returns. \<open>None\<close> is as in the theory Printf.
\<close>

section \<open>Data\<close>

record scan =
  s_mem :: mem
  s_str :: addr
  s_fmt :: addr
  s_args :: addr
  s_num :: int
  s_width :: int

datatype pass = Go scan | Stop scan

section \<open>Loops\<close>

partial_function (option) skip_space :: "mem \<Rightarrow> addr \<Rightarrow> addr option" where
  "skip_space m p = (if isspace (m p) then skip_space m (p + 1) else Some p)"

partial_function (option) skip_word :: "mem \<Rightarrow> addr \<Rightarrow> addr option" where
  "skip_word m p = (if \<not> isspace (m p) \<and> m p \<noteq> 0 then skip_word m (p + 1) else Some p)"

text \<open>\<open>do *s++ = *str++; while (field_width-- > 0 && *str)\<close>\<close>

function scan_c_loop :: "mem \<Rightarrow> addr \<Rightarrow> addr \<Rightarrow> int \<Rightarrow> mem \<times> addr \<times> int" where
  "scan_c_loop m s str w =
     (let m = m(s := m str) in
      if w > 0 \<and> m (str + 1) \<noteq> 0 then scan_c_loop m (s + 1) (str + 1) (w - 1) else (m, str + 1, w - 1))"
  by auto
termination by (relation "measure (\<lambda>(m, s, str, w). nat w)") auto

declare scan_c_loop.simps [simp del]

text \<open>\<open>while (*str && !isspace(*str) && field_width--) *s++ = *str++\<close>\<close>

partial_function (option) scan_s_loop :: "mem \<Rightarrow> addr \<Rightarrow> addr \<Rightarrow> int \<Rightarrow> (mem \<times> addr \<times> addr \<times> int) option" where
  "scan_s_loop m s str w =
     (if m str \<noteq> 0 \<and> \<not> isspace (m str)
      then if w \<noteq> 0 then scan_s_loop (m(s := m str)) (s + 1) (str + 1) (w - 1) else Some (m, s, str, w - 1)
      else Some (m, s, str, w))"

section \<open>Conversions\<close>

definition scan_c :: "scan \<Rightarrow> scan" where
  "scan_c st =
     (let s = load32 (s_mem st) (s_args st);
          w = (if s_width st = - 1 then 1 else s_width st);
          (m, str, w) = scan_c_loop (s_mem st) s (s_str st) w
      in st\<lparr>s_mem := m, s_str := str, s_args := s_args st + va_rounded_size 4, s_num := s_num st + 1, s_width := w\<rparr>)"

definition scan_s :: "scan \<Rightarrow> scan option" where
  "scan_s st =
     (let s = load32 (s_mem st) (s_args st);
          w = (if s_width st = - 1 then INT_MAX else s_width st)
      in Option.bind (skip_space (s_mem st) (s_str st)) (\<lambda>str.
         Option.bind (scan_s_loop (s_mem st) s str w) (\<lambda>(m, s, str, w).
           Some (st\<lparr>s_mem := m(s := 0), s_str := str, s_args := s_args st + va_rounded_size 4, s_num := s_num st + 1,
                    s_width := w\<rparr>))))"

definition scan_n :: "addr \<Rightarrow> scan \<Rightarrow> scan" where
  "scan_n buf st =
     st\<lparr>s_mem := store32 (load32 (s_mem st) (s_args st)) (s_str st - buf) (s_mem st), s_args := s_args st + va_rounded_size 4\<rparr>"

text \<open>The \<open>switch (qualifier)\<close>: parse with the function for the type, then store at its width.\<close>

definition scan_store :: "addr \<Rightarrow> int \<Rightarrow> bool \<Rightarrow> u32 \<Rightarrow> addr \<Rightarrow> addr \<Rightarrow> mem \<Rightarrow> mem option" where
  "scan_store nextp q is_sign b str p m =
     (if q = 104 then
        map_option (\<lambda>(v, m). store16 p (ucast v) m)
          (if is_sign then simple_strtol str nextp b m else simple_strtoul str nextp b m)
      else if q = 108 then
        map_option (\<lambda>(v, m). store32 p v m) (if is_sign then simple_strtol str nextp b m else simple_strtoul str nextp b m)
      else if q = 76 then
        map_option (\<lambda>(v, m). store64 p v m) (if is_sign then simple_strtoll str nextp b m else simple_strtoull str nextp b m)
      else if q = 90 then map_option (\<lambda>(v, m). store32 p v m) (simple_strtoul str nextp b m)
      else map_option (\<lambda>(v, m). store32 p v m) (if is_sign then simple_strtol str nextp b m else simple_strtoul str nextp b m))"

definition scan_int :: "addr \<Rightarrow> int \<Rightarrow> bool \<Rightarrow> u32 \<Rightarrow> scan \<Rightarrow> pass option" where
  "scan_int nextp q is_sign b st =
     Option.bind (skip_space (s_mem st) (s_str st)) (\<lambda>str.
       if s_mem st str = 0 \<or> \<not> isdigit (s_mem st str) then Some (Stop (st\<lparr>s_str := str\<rparr>))
       else Option.bind (scan_store nextp q is_sign b str (load32 (s_mem st) (s_args st)) (s_mem st)) (\<lambda>m.
         let nxt = load32 m nextp;
             st = st\<lparr>s_mem := m, s_str := str, s_args := s_args st + va_rounded_size 4, s_num := s_num st + 1\<rparr>
         in if nxt = NULL then Some (Stop st) else Some (Go (st\<lparr>s_str := nxt\<rparr>))))"

definition scan_conv :: "addr \<Rightarrow> addr \<Rightarrow> int \<Rightarrow> scan \<Rightarrow> pass option" where
  "scan_conv nextp buf q st =
     (let c = s_mem st (s_fmt st); st = st\<lparr>s_fmt := s_fmt st + 1\<rparr> in
      if c = 99 then Some (Go (scan_c st))
      else if c = 115 then map_option Go (scan_s st)
      else if c = 110 then Some (Go (scan_n buf st))
      else if c = 111 then scan_int nextp q False 8 st
      else if c = 120 \<or> c = 88 then scan_int nextp q False 16 st
      else if c = 100 \<or> c = 105 then scan_int nextp q True 10 st
      else if c = 117 then scan_int nextp q False 10 st
      else if c = 37 then
        (let d = s_mem st (s_str st); st = st\<lparr>s_str := s_str st + 1\<rparr> in Some (if d \<noteq> 37 then Stop st else Go st))
      else Some (Stop st))"

section \<open>The loop\<close>

text \<open>From the \<open>%\<close> on: \<open>s_fmt\<close> is behind it.\<close>

definition scan_directive :: "addr \<Rightarrow> addr \<Rightarrow> scan \<Rightarrow> pass option" where
  "scan_directive nextp buf st =
     (let m = s_mem st in
      if m (s_fmt st) = 42 then
        Option.bind (skip_word m (s_fmt st)) (\<lambda>fmt.
        Option.bind (skip_word m (s_str st)) (\<lambda>str. Some (Go (st\<lparr>s_fmt := fmt, s_str := str\<rparr>))))
      else
        Option.bind (if isdigit (m (s_fmt st)) then skip_atoi m (s_fmt st) else Some (s_width st, s_fmt st)) (\<lambda>(w, fmt).
          let c = m fmt;
              (q, fmt) = (if c = 104 \<or> c = 108 \<or> c = 76 \<or> c = 90 then (uint c, fmt + 1) else (- 1, fmt));
              st = st\<lparr>s_width := w, s_fmt := fmt\<rparr>
          in if m fmt = 0 \<or> m (s_str st) = 0 then Some (Stop st) else scan_conv nextp buf q st))"

definition scan_step :: "addr \<Rightarrow> addr \<Rightarrow> scan \<Rightarrow> pass option" where
  "scan_step nextp buf st =
     (let m = s_mem st in
      Option.bind (if isspace (m (s_fmt st)) then skip_space m (s_fmt st) else Some (s_fmt st)) (\<lambda>fmt.
      Option.bind (if isspace (m (s_fmt st)) then skip_space m (s_str st) else Some (s_str st)) (\<lambda>str.
        if m fmt \<noteq> 37 \<and> m fmt \<noteq> 0 then
          (let st = st\<lparr>s_fmt := fmt + 1, s_str := str + 1\<rparr> in Some (if m fmt \<noteq> m str then Stop st else Go st))
        else if m fmt = 0 then Some (Stop (st\<lparr>s_fmt := fmt, s_str := str\<rparr>))
        else scan_directive nextp buf (st\<lparr>s_fmt := fmt + 1, s_str := str\<rparr>))))"

partial_function (option) scan_loop :: "addr \<Rightarrow> addr \<Rightarrow> scan \<Rightarrow> scan option" where
  "scan_loop nextp buf st =
     (if s_mem st (s_fmt st) \<noteq> 0 \<and> s_mem st (s_str st) \<noteq> 0
      then Option.bind (scan_step nextp buf st) (\<lambda>r. case r of Go st' \<Rightarrow> scan_loop nextp buf st' | Stop st' \<Rightarrow> Some st')
      else Some st)"

definition vsscanf :: "addr \<Rightarrow> addr \<Rightarrow> addr \<Rightarrow> addr \<Rightarrow> mem \<Rightarrow> (int \<times> mem) option" where
  "vsscanf nextp buf fmt args m =
     map_option (\<lambda>st. (s_num st, s_mem st))
       (scan_loop nextp buf \<lparr>s_mem = m, s_str = buf, s_fmt = fmt, s_args = args, s_num = 0, s_width = - 1\<rparr>)"

definition sscanf :: "addr \<Rightarrow> addr \<Rightarrow> addr \<Rightarrow> mem \<Rightarrow> (int \<times> mem) option" where
  "sscanf nextp buf fmt_slot m = vsscanf nextp buf (load32 m fmt_slot) (va_start fmt_slot) m"

section \<open>Numbers\<close>

lemma strtoul_digits:
  assumes "cstr m p (ds @ t)" "\<forall>c \<in> set ds. isdigit c" "t = [] \<or> \<not> isdigit (hd t)"
  shows "simple_strtoul p endp 10 m = Some (of_nat (text_value 10 ds 0), set_endp endp (p + of_nat (length ds)) m)"
proof -
  have dig: "valid_digit 10 c \<longleftrightarrow> isdigit c" for c
    by (auto simp: valid_digit_def digit_val_def isxdigit_nat isdigit_nat unat_toupper islower_nat)
  have "takeWhile (valid_digit 10) (ds @ t) = ds"
    using assms(2,3) by (cases t) (auto simp: dig takeWhile_append2)
  then show ?thesis using ul.strto_loop_eq [OF assms(1), of 10 0] by (simp add: simple_strtoul_def detect_base_def)
qed

lemma skip_space_none: "\<not> isspace (m p) \<Longrightarrow> skip_space m p = Some p"
  by (subst skip_space.simps) simp

lemma skip_space_one: "m p = 32 \<Longrightarrow> \<not> isspace (m (p + 1)) \<Longrightarrow> skip_space m p = Some (p + 1)"
  by (subst skip_space.simps) (simp add: isspace_nat skip_space_none)

text \<open>A decimal number after an optional blank, and the \<open>%u\<close> that reads it.\<close>

definition item_ok :: "u8 list \<times> u8 list \<Rightarrow> bool" where
  "item_ok i \<longleftrightarrow> fst i \<in> {[], [32]} \<and> snd i \<noteq> [] \<and> (\<forall>c \<in> set (snd i). isdigit c)"

lemma skip_item:
  assumes "cstr m p (a @ c # t)" "a \<in> {[], [32]}" "\<not> isspace c"
  shows "(if isspace (m p) then skip_space m p else Some p) = Some (p + of_nat (length a))" "m (p + of_nat (length a)) = c"
    "skip_space m p = Some (p + of_nat (length a))"
proof -
  have "isspace 32" by (simp add: isspace_nat)
  then show "(if isspace (m p) then skip_space m p else Some p) = Some (p + of_nat (length a))" "m (p + of_nat (length a)) = c"
    "skip_space m p = Some (p + of_nat (length a))"
    using assms by (auto simp: skip_space_one skip_space_none)
qed

lemma scan_step_item:
  assumes "cstr (s_mem st) (s_fmt st) (a @ [37, 117] @ f)" "cstr (s_mem st) (s_str st) (a @ d @ t)" "item_ok (a, d)"
    "t = [] \<or> \<not> isdigit (hd t)" "load32 (s_mem st) (s_args st) = p" "region p 4 \<inter> region nextp 4 = {}" "nextp \<noteq> 0"
    "s_str st + of_nat (length (a @ d)) \<noteq> 0"
  shows "scan_step nextp buf st = Some (Go (st\<lparr>
      s_mem := store32 p (of_nat (text_value 10 d 0)) (store32 nextp (s_str st + of_nat (length (a @ d))) (s_mem st)),
      s_str := s_str st + of_nat (length (a @ d)), s_fmt := s_fmt st + of_nat (length (a @ [37, 117 :: u8])),
      s_args := s_args st + 4, s_num := s_num st + 1\<rparr>))"
proof -
  let ?m = "s_mem st" and ?fmt = "s_fmt st + of_nat (length a)" and ?str = "s_str st + of_nat (length a)"
  have a: "a \<in> {[], [32]}" "d \<noteq> []" "\<forall>c \<in> set d. isdigit c" using assms(3) by (auto simp: item_ok_def)
  obtain c d' where d: "d = c # d'" "isdigit c" using a(2,3) by (cases d) auto
  have sp: "\<not> isspace 37" "\<not> isspace c" "c \<noteq> 0" "\<not> isdigit 117" using d(2) by (auto simp: isspace_nat isdigit_nat)
  have f: "(if isspace (?m (s_fmt st)) then skip_space ?m (s_fmt st) else Some (s_fmt st)) = Some ?fmt" "?m ?fmt = 37"
    using skip_item [of ?m "s_fmt st" a 37 "117 # f"] assms(1) a(1) sp(1) by simp_all
  have u: "?m (?fmt + 1) = 117" using assms(1) a(1) by auto
  have s: "skip_space ?m (s_str st) = Some ?str" "?m ?str = c"
    using skip_item [of ?m "s_str st" a c "d' @ t"] assms(2) a(1) sp(2) d(1) by simp_all
  have str: "(if isspace (?m (s_fmt st)) then skip_space ?m (s_str st) else Some (s_str st)) =
      Some (if isspace (?m (s_fmt st)) then ?str else s_str st)" using s(1) by simp
  have afmt: "isspace (?m (s_fmt st)) \<longleftrightarrow> a \<noteq> []" using assms(1) a(1) sp(1) by (auto simp: isspace_nat)
  have str2: "(if isspace (?m (s_fmt st)) then ?str else s_str st) = ?str" unfolding afmt by simp
  have skip: "skip_space ?m ?str = Some ?str" using s(2) sp(2) by (simp add: skip_space_none)
  have dt: "cstr ?m ?str (d @ t)" using assms(2) a(1) by auto
  have nx: "?str + of_nat (length d) = s_str st + of_nat (length (a @ d))" by simp
  let ?m1 = "store32 nextp (s_str st + of_nat (length (a @ d))) ?m"
  have parse: "simple_strtoul ?str nextp 10 ?m = Some (of_nat (text_value 10 d 0), ?m1)"
    using strtoul_digits [OF dt a(3) assms(4), of nextp] assms(7) unfolding nx by (simp add: set_endp_def NULL_def)
  have "same_on (region nextp 4) ?m1 (store32 p (of_nat (text_value 10 d 0)) ?m1)"
    using assms(6) by (intro store32_same) blast
  then have bk: "load32 (store32 p (of_nat (text_value 10 d 0)) ?m1) nextp = s_str st + of_nat (length (a @ d))"
    by (simp add: load32_same load32_store32)
  have fmt2: "?fmt + 1 + 1 = s_fmt st + of_nat (length (a @ [37, 117 :: u8]))" by (simp add: add.assoc)
  show ?thesis
    unfolding scan_step_def Let_def f(1) str str2 bind.bind_lunit
    using f(2) u s(2) sp d(2) skip parse bk assms(5,8) fmt2
    by (simp add: scan_directive_def scan_conv_def scan_int_def scan_store_def Let_def NULL_def)
qed

section \<open>Lists of numbers\<close>

definition items_text :: "(u8 list \<times> u8 list) list \<Rightarrow> u8 list" where
  "items_text its = concat (map (\<lambda>i. fst i @ snd i) its)"

definition items_format :: "(u8 list \<times> u8 list) list \<Rightarrow> u8 list" where
  "items_format its = concat (map (\<lambda>i. fst i @ [37, 117]) its)"

fun args_at :: "mem \<Rightarrow> addr \<Rightarrow> addr list \<Rightarrow> bool" where
  "args_at m a [] \<longleftrightarrow> True"
| "args_at m a (p # ps) \<longleftrightarrow> load32 m a = p \<and> args_at m (a + 4) ps"

lemma args_at_same:
  "same_on (region a (4 * length ps)) m m' \<Longrightarrow> args_at m' a ps = args_at m a ps"
proof (induction ps arbitrary: a)
  case (Cons p ps)
  have "region a (4 * length (p # ps)) = region a 4 \<union> region (a + 4) (4 * length ps)"
    using region_add [of a 4 "4 * length ps"] by simp
  then have "same_on (region a 4) m m'" "same_on (region (a + 4) (4 * length ps)) m m'"
    using Cons.prems by (auto simp: same_on_def)
  then show ?case using Cons.IH by (simp add: load32_same)
qed simp

text \<open>The cells a scan of numbers may write: the local \<open>next\<close> and the targets.\<close>

definition scan_cells :: "addr \<Rightarrow> addr list \<Rightarrow> addr set" where
  "scan_cells nextp ps = region nextp 4 \<union> (\<Union>p \<in> set ps. region p 4)"

lemma scan_numbers:
  assumes "\<forall>i \<in> set its. item_ok i" "\<forall>i \<in> set (tl its). fst i = [32]" "length ps = length its" "nextp \<noteq> 0"
    "cstr (s_mem st) (s_str st) (items_text its)" "cstr (s_mem st) (s_fmt st) (items_format its)" "args_at (s_mem st) (s_args st) ps"
    "sorted_wrt (\<lambda>p q. region p 4 \<inter> region q 4 = {}) ps" "\<forall>p \<in> set ps. region p 4 \<inter> region nextp 4 = {}"
    "region (s_str st) (Suc (length (items_text its))) \<inter> scan_cells nextp ps = {}"
    "region (s_fmt st) (Suc (length (items_format its))) \<inter> scan_cells nextp ps = {}"
    "region (s_args st) (4 * length ps) \<inter> scan_cells nextp ps = {}" "unat (s_str st) + length (items_text its) < 2 ^ 32"
  shows "\<exists>st'. scan_loop nextp buf st = Some st' \<and> s_num st' = s_num st + int (length its) \<and>
    list_all2 (\<lambda>p i. load32 (s_mem st') p = of_nat (text_value 10 (snd i) 0)) ps its \<and>
    same_on (- scan_cells nextp ps) (s_mem st) (s_mem st')"
  using assms
proof (induction its arbitrary: ps st)
  case Nil
  then have "s_mem st (s_fmt st) = 0" by (simp add: items_format_def)
  then show ?case using Nil by (subst scan_loop.simps) simp
next
  case (Cons i its)
  obtain p qs where ps: "ps = p # qs" using Cons.prems(3) by (cases ps) auto
  define n where "n = length (fst i @ snd i)"
  define v where "v = (of_nat (text_value 10 (snd i) 0) :: u32)"
  let ?m = "s_mem st"
  let ?m1 = "store32 p v (store32 nextp (s_str st + of_nat n) ?m)"
  let ?st = "st\<lparr>s_mem := ?m1, s_str := s_str st + of_nat n, s_fmt := s_fmt st + of_nat (length (fst i @ [37, 117 :: u8])),
      s_args := s_args st + 4, s_num := s_num st + 1\<rparr>"
  have ok: "item_ok (fst i, snd i)" "\<forall>i \<in> set its. item_ok i" "\<forall>i \<in> set its. fst i = [32]" using Cons.prems(1,2) by auto
  have tx: "items_text (i # its) = (fst i @ snd i) @ items_text its" "items_format (i # its) = (fst i @ [37, 117]) @ items_format its"
    by (simp_all add: items_text_def items_format_def)
  have blank: "items_text its = [] \<or> \<not> isdigit (hd (items_text its))"
    using ok(3) by (cases its) (auto simp: items_text_def isdigit_nat)
  have n: "0 < n" "unat (s_str st) + n < 2 ^ 32" using ok(1) Cons.prems(13) by (auto simp: n_def item_ok_def tx(1))
  then have un: "unat (s_str st + of_nat n) = unat (s_str st) + n" by (simp add: unat_word_ariths unat_of_nat)
  then have "s_str st + of_nat n \<noteq> 0" using n(1) by (metis add_is_0 less_not_refl unat_0)
  then have step: "scan_step nextp buf st = Some (Go ?st)"
    using scan_step_item [of st "fst i" "items_format its" "snd i" "items_text its" p nextp buf] Cons.prems ok(1) blank
    by (simp add: n_def v_def tx ps)
  have W: "scan_cells nextp ps = region p 4 \<union> scan_cells nextp qs" by (auto simp: scan_cells_def ps)
  have same1: "same_on A ?m ?m1" if "A \<inter> scan_cells nextp ps = {}" for A
    by (rule same_on_trans [OF store32_same store32_same]) (use that in \<open>auto simp: scan_cells_def ps\<close>)
  have whole: "cstr ?m1 (s_str st) (items_text (i # its))" "cstr ?m1 (s_fmt st) (items_format (i # its))" "args_at ?m1 (s_args st) ps"
    using Cons.prems(5-7) same1 [OF Cons.prems(10)] same1 [OF Cons.prems(11)] same1 [OF Cons.prems(12)]
    by (simp_all only: cstr_same args_at_same)
  have reg: "region (s_str st) (Suc (length (items_text (i # its)))) = region (s_str st) n \<union> region (s_str st + of_nat n) (Suc (length (items_text its)))"
    "region (s_fmt st) (Suc (length (items_format (i # its)))) =
       region (s_fmt st) (length (fst i @ [37, 117 :: u8])) \<union> region (s_fmt ?st) (Suc (length (items_format its)))"
    "region (s_args st) (4 * length ps) = region (s_args st) 4 \<union> region (s_args st + 4) (4 * length qs)"
    using region_add [of "s_str st" n "Suc (length (items_text its))"] region_add [of "s_args st" 4 "4 * length qs"]
      region_add [of "s_fmt st" "length (fst i @ [37, 117 :: u8])" "Suc (length (items_format its))"] by (simp_all add: tx n_def ps add.assoc)
  have "\<exists>st'. scan_loop nextp buf ?st = Some st' \<and> s_num st' = s_num ?st + int (length its) \<and>
      list_all2 (\<lambda>p i. load32 (s_mem st') p = of_nat (text_value 10 (snd i) 0)) qs its \<and>
      same_on (- scan_cells nextp qs) (s_mem ?st) (s_mem st')"
  proof (rule Cons.IH)
    show "cstr (s_mem ?st) (s_str ?st) (items_text its)" "cstr (s_mem ?st) (s_fmt ?st) (items_format its)"
      using whole(1,2) unfolding tx cstr_append by (simp_all add: n_def)
    show "\<forall>i \<in> set (tl its). fst i = [32]" using ok(3) by (cases its) auto
    show "unat (s_str ?st) + length (items_text its) < 2 ^ 32" using Cons.prems(13) un by (simp add: tx(1) n_def)
    show "region (s_str ?st) (Suc (length (items_text its))) \<inter> scan_cells nextp qs = {}"
      "region (s_fmt ?st) (Suc (length (items_format its))) \<inter> scan_cells nextp qs = {}"
      "region (s_args ?st) (4 * length qs) \<inter> scan_cells nextp qs = {}"
      using Cons.prems(10-12) unfolding reg W by auto
  qed (use Cons.prems ok(2) whole(3) in \<open>simp_all add: ps\<close>)
  then obtain st' where st': "scan_loop nextp buf ?st = Some st'" "s_num st' = s_num st + 1 + int (length its)"
    "list_all2 (\<lambda>p i. load32 (s_mem st') p = of_nat (text_value 10 (snd i) 0)) qs its" "same_on (- scan_cells nextp qs) ?m1 (s_mem st')"
    by auto
  have "?m (s_fmt st) \<noteq> 0" "?m (s_str st) \<noteq> 0"
    using Cons.prems(5,6) ok(1) by (auto simp: tx item_ok_def neq_Nil_conv)
  then have "scan_loop nextp buf st = Some st'" using step st'(1) by (subst scan_loop.simps) simp
  moreover have "region p 4 \<subseteq> - scan_cells nextp qs"
    using Cons.prems(8,9) by (auto simp: ps scan_cells_def)
  then have "same_on (region p 4) ?m1 (s_mem st')" by (rule same_on_subset [OF st'(4)])
  then have "load32 (s_mem st') p = v" by (simp add: load32_same load32_store32)
  moreover have "same_on (- scan_cells nextp ps) ?m (s_mem st')"
    by (rule same_on_trans [OF same1 same_on_subset [OF st'(4)]]) (auto simp: W)
  ultimately show ?case using st'(2,3) by (auto simp: ps v_def)
qed

lemma number_digits_decimal:
  "\<forall>c \<in> set (number_digits num 10 ty). isdigit c" "number_digits num 10 ty \<noteq> []" "text_value 10 (number_digits num 10 ty) 0 = unat num"
proof -
  have dig: "valid_digit 10 c \<Longrightarrow> isdigit c" for c
    by (auto simp: valid_digit_def digit_val_def isxdigit_nat isdigit_nat unat_toupper islower_nat split: if_splits)
  show "\<forall>c \<in> set (number_digits num 10 ty). isdigit c" using number_digits_read(1) [of 10 num ty] dig by auto
  show v: "text_value 10 (number_digits num 10 ty) 0 = unat num" using number_digits_read(2) [of 10 num ty] by simp
  show "number_digits num 10 ty \<noteq> []"
  proof
    assume e: "number_digits num 10 ty = []"
    then have "num = 0" using v by (simp add: text_value_def unat_eq_0)
    then show False using e by (simp add: number_digits_def)
  qed
qed

section \<open>Properties\<close>

text \<open>
  C40. Reading numbers back: with the format \<open>"%u %u \<dots> %u"\<close>, \<open>vsscanf\<close> on decimal numerals separated
  by blanks returns how many there are and stores each, modulo \<open>2^32\<close>, through its pointer argument; it
  writes nothing but the targets and its local \<open>next\<close>. Numerals printed by \<open>number\<close> come back as
  the numbers they were printed from.
\<close>

theorem vsscanf_reads_numbers:
  assumes "\<forall>d \<in> set (d0 # ds). d \<noteq> [] \<and> (\<forall>c \<in> set d. isdigit c)" "its = ([], d0) # map (Pair [32]) ds" "length ps = length its"
    "nextp \<noteq> 0" "cstr m buf (items_text its)" "cstr m fmt (items_format its)" "args_at m args ps"
    "sorted_wrt (\<lambda>p q. region p 4 \<inter> region q 4 = {}) ps" "\<forall>p \<in> set ps. region p 4 \<inter> region nextp 4 = {}"
    "clear_of (scan_cells nextp ps) [(buf, Suc (length (items_text its))), (fmt, Suc (length (items_format its))), (args, 4 * length ps)]"
    "unat buf + length (items_text its) < 2 ^ 32"
  shows "\<exists>m'. vsscanf nextp buf fmt args m = Some (int (length its), m') \<and>
    list_all2 (\<lambda>p d. load32 m' p = of_nat (text_value 10 d 0)) ps (d0 # ds) \<and> same_on (- scan_cells nextp ps) m m' \<and>
    (\<forall>vs. d0 # ds = map (\<lambda>v. number_digits (ucast v) 10 0) vs \<longrightarrow> list_all2 (\<lambda>p v. load32 m' p = v) ps vs)"
proof -
  let ?st = "\<lparr>s_mem = m, s_str = buf, s_fmt = fmt, s_args = args, s_num = 0, s_width = - 1\<rparr>"
  have "\<forall>i \<in> set its. item_ok i" "\<forall>i \<in> set (tl its). fst i = [32]" using assms(1,2) by (auto simp: item_ok_def)
  then obtain st' where st': "scan_loop nextp buf ?st = Some st'" "s_num st' = int (length its)"
    "list_all2 (\<lambda>p i. load32 (s_mem st') p = of_nat (text_value 10 (snd i) 0)) ps its" "same_on (- scan_cells nextp ps) m (s_mem st')"
    using scan_numbers [of its ps nextp ?st buf] assms(3-11) by auto
  have all: "list_all2 (\<lambda>p d. load32 (s_mem st') p = of_nat (text_value 10 d 0)) ps (d0 # ds)"
  proof -
    have "d0 # ds = map snd its" by (simp add: assms(2) comp_def)
    then show ?thesis using st'(3) by (simp add: list_all2_map2)
  qed
  have cut: "ucast (ucast v :: u64) = v" for v :: u32 by (rule bit_word_eqI) (simp add: bit_simps)
  have val: "of_nat (text_value 10 (number_digits (ucast v) 10 0) 0) = (v :: u32)" for v
    using number_digits_decimal(3) [of "ucast v" 0] by (simp add: cut)
  have "list_all2 (\<lambda>p v. load32 (s_mem st') p = v) ps vs" if "d0 # ds = map (\<lambda>v. number_digits (ucast v) 10 0) vs" for vs
    using all unfolding that list_all2_map2 val .
  then show ?thesis using st' all by (intro exI [of _ "s_mem st'"]) (simp add: vsscanf_def)
qed

definition demo_scan_mem :: mem where
  "demo_scan_mem = put_bytes 0x1000 [52, 50, 32, 55, 0] (put_bytes 0x1100 [37, 117, 32, 37, 117, 0]
     (store32 0x1200 0x2000 (store32 0x1204 0x2004 (\<lambda>_. 0))))"

lemma demo_scan:
  "cstr demo_scan_mem 0x1000 [52, 50, 32, 55]" "cstr demo_scan_mem 0x1100 [37, 117, 32, 37, 117]"
  "args_at demo_scan_mem 0x1200 [0x2000, 0x2004]"
  by code_simp+

lemma demo_scan_cells: "a \<in> scan_cells 0x3000 [0x2000, 0x2004] \<longleftrightarrow> unat a \<in> {0x3000..<0x3004} \<union> {0x2000..<0x2008}"
  by (auto simp: scan_cells_def region_nowrap)

theorem vsscanf_reads_numbers_witness:
  "\<exists>m'. vsscanf 0x3000 0x1000 0x1100 0x1200 demo_scan_mem = Some (2, m') \<and> load32 m' 0x2000 = 42 \<and> load32 m' 0x2004 = 7"
proof -
  let ?its = "([], [52, 50]) # map (Pair [32]) [[55 :: u8]]"
  have t: "items_text ?its = [52, 50, 32, 55]" "items_format ?its = [37, 117, 32, 37, 117]"
    by (simp_all add: items_text_def items_format_def)
  have clear: "clear_of (scan_cells 0x3000 [0x2000, 0x2004]) 
      [(0x1000, Suc (length [52 :: u8, 50, 32, 55])), (0x1100, Suc (length [37 :: u8, 117, 32, 37, 117])), (0x1200, 8)]"
    by (auto simp: demo_scan_cells region_nowrap disjoint_iff)
  have sep: "region (0x2000 :: addr) 4 \<inter> region 0x2004 4 = {}" "region (0x2000 :: addr) 4 \<inter> region 0x3000 4 = {}"
    "region (0x2004 :: addr) 4 \<inter> region 0x3000 4 = {}"
    by (auto simp: region_nowrap disjoint_iff)
  have v: "text_value 10 [52, 50] 0 = 42" "text_value 10 [55] 0 = 7" by (simp_all add: text_value_def digit_val_def isdigit_nat)
  have "\<forall>d \<in> set ([52, 50] # [[55 :: u8]]). d \<noteq> [] \<and> (\<forall>c \<in> set d. isdigit c)" by (simp add: isdigit_nat)
  from vsscanf_reads_numbers [OF this refl, of "[0x2000, 0x2004]" "0x3000" demo_scan_mem "0x1000" "0x1100" "0x1200", unfolded t]
  show ?thesis using demo_scan clear sep by (simp add: v) blast
qed

section \<open>Deviations from the C library\<close>

lemma scan_c_two:
  assumes "m str = c" "m (str + 1) = d" "d \<noteq> 0" "s \<noteq> str + 1"
  shows "scan_c_loop m s str 1 = (m(s := c, s + 1 := d), str + 2, - 1)"
  using assms by (subst scan_c_loop.simps) (simp add: Let_def, subst scan_c_loop.simps, simp add: Let_def)

text \<open>The first pass over a format that is one conversion character.\<close>

lemma scan_single:
  assumes "cstr m fmt [37, c]" "m buf \<noteq> 0" "c \<noteq> 42" "\<not> isdigit c" "c \<notin> {104, 108, 76, 90}"
  shows "vsscanf nextp buf fmt args m =
    map_option (\<lambda>st. (s_num st, s_mem st)) (Option.bind
      (scan_conv nextp buf (- 1) \<lparr>s_mem = m, s_str = buf, s_fmt = fmt + 1, s_args = args, s_num = 0, s_width = - 1\<rparr>)
      (\<lambda>r. case r of Go st' \<Rightarrow> scan_loop nextp buf st' | Stop st' \<Rightarrow> Some st'))"
proof -
  have f: "m fmt = 37" "m (fmt + 1) = c" "c \<noteq> 0" using assms(1) by auto
  have "\<not> isspace 37" by (simp add: isspace_nat)
  then show ?thesis
    unfolding vsscanf_def using f assms(2-5)
    by (subst scan_loop.simps) (simp add: scan_step_def scan_directive_def Let_def)
qed

text \<open>
  Where \<open>vsscanf\<close> is not the function of the C library: a plain \<open>%c\<close> stores two characters when the
  input has two, one past the single byte its argument points to; and an integer conversion
  that finds no decimal digit first gives up with nothing stored, so \<open>%d\<close> does not read a negative
  number and \<open>%x\<close> no number that starts with a letter.
\<close>

theorem vsscanf_deviations:
  assumes "cstr m fmt [37, c]" "cstr m buf (x # y # t)" "load32 m args = p"
    "region p 2 \<inter> (region fmt 3 \<union> region buf (Suc (Suc (Suc (length t))))) = {}"
  shows "(c = 99 \<longrightarrow> vsscanf nextp buf fmt args m = Some (1, m(p := x, p + 1 := y))) \<and>
    (c \<in> {100, 105, 117, 111, 120, 88} \<and> \<not> isspace x \<and> \<not> isdigit x \<longrightarrow> vsscanf nextp buf fmt args m = Some (0, m)) \<and>
    \<not> isspace 45 \<and> \<not> isdigit 45 \<and> (\<forall>l \<in> {65..70} \<union> {97..102}. \<not> isspace l \<and> \<not> isdigit l)"
proof (intro conjI impI)
  have b: "m buf = x" "x \<noteq> 0" "m (buf + 1) = y" "y \<noteq> 0" using assms(2) by auto
  have f: "m (fmt + 1 + 1) = 0" "m (fmt + 1) = c" using assms(1) by auto
  have two: "region p 2 = {p, p + 1}" using region_Suc [of p 1] region_Suc [of "p + 1" 0] by (simp add: numeral_2_eq_2)
  show "vsscanf nextp buf fmt args m = Some (1, m(p := x, p + 1 := y))" if c: "c = 99"
  proof -
    have "fmt + 2 \<in> region fmt 3" "buf + 1 \<in> region buf (Suc (Suc (Suc (length t))))"
      by (simp add: region_numeral, simp add: region_Suc)
    moreover have "q \<notin> {p, p + 1}" if "q \<in> region fmt 3 \<union> region buf (Suc (Suc (Suc (length t))))" for q
      using assms(4) that unfolding two by blast
    ultimately have "fmt + 2 \<notin> {p, p + 1}" "buf + 1 \<notin> {p, p + 1}" by blast+
    then have ne: "p \<noteq> fmt + 2" "p + 1 \<noteq> fmt + 2" "p \<noteq> buf + 1" by (simp_all only: insert_iff empty_iff de_Morgan_disj) metis+
    have fmt2: "fmt + 1 + 1 = fmt + 2" by simp
    have "scan_c_loop m p buf 1 = (m(p := x, p + 1 := y), buf + 2, - 1)" using b ne(3) by (intro scan_c_two) auto
    moreover have "\<not> isdigit 99" by (simp add: isdigit_nat)
    ultimately show ?thesis
      using scan_single [of m fmt c buf nextp args] assms(1,3) b f ne c
      by (simp add: scan_conv_def scan_c_def Let_def scan_loop.simps fmt2)
  qed
  show "vsscanf nextp buf fmt args m = Some (0, m)"
    if c: "c \<in> {100, 105, 117, 111, 120, 88} \<and> \<not> isspace x \<and> \<not> isdigit x"
  proof -
    have "\<not> isdigit c" "c \<noteq> 42" "c \<notin> {104, 108, 76, 90}" using c by (auto simp: isdigit_nat)
    then have "vsscanf nextp buf fmt args m = map_option (\<lambda>st. (s_num st, s_mem st)) (Option.bind
      (scan_conv nextp buf (- 1) \<lparr>s_mem = m, s_str = buf, s_fmt = fmt + 1, s_args = args, s_num = 0, s_width = - 1\<rparr>)
      (\<lambda>r. case r of Go st' \<Rightarrow> scan_loop nextp buf st' | Stop st' \<Rightarrow> Some st'))"
      using assms(1) b by (intro scan_single) auto
    moreover have "skip_space m buf = Some buf" using b(1) c by (simp add: skip_space_none)
    ultimately show ?thesis using c b f(2) by (auto simp: scan_conv_def scan_int_def Let_def)
  qed
qed (auto simp: isspace_nat isdigit_nat word_le_nat_alt)

theorem vsscanf_deviations_witness:
  "\<exists>m. cstr m 0x1100 [37, 100] \<and> cstr m 0x1000 [45, 53] \<and> vsscanf 0x3000 0x1000 0x1100 0x1200 m = Some (0, m)"
proof -
  let ?m = "put_bytes 0x1000 [45, 53, 0] (put_bytes 0x1100 [37, 100, 0] (store32 0x1200 0x2000 (\<lambda>_. 0)))"
  have c: "cstr ?m 0x1100 [37, 100]" "cstr ?m 0x1000 [45, 53]" "load32 ?m 0x1200 = 0x2000" by code_simp+
  have r: "region (0x2000 :: addr) 2 \<inter> (region 0x1100 3 \<union> region 0x1000 (Suc (Suc (Suc (length ([] :: u8 list)))))) = {}"
    by (auto simp: region_nowrap disjoint_iff)
  have "\<not> isspace 45 \<and> \<not> isdigit 45" by (simp add: isspace_nat isdigit_nat)
  then have "vsscanf 0x3000 0x1000 0x1100 0x1200 ?m = Some (0, ?m)" using vsscanf_deviations [OF c r, of "0x3000"] by blast
  then show ?thesis using c by blast
qed

end
