(* ===== verification/EntryStubs.thy ===== *)
theory EntryStubs
  imports Printk
begin

text \<open>
  The entry points of interrupts and exceptions (\<open>kernel/irq.S\<close>): the instructions of the stubs as
  data, a processor that runs them, and the structures \<open>irq_context\<close> and \<open>exception_context\<close>
  (\<open>include/interrupt.h\<close>) as the C handlers read them from the stack.

  The processor is the machine of the theory Printk with its registers; the stack is in \<open>ram\<close> and
  the flags register is \<open>flags\<close> of the interrupt state. A call runs the model of the C function on the
  structure its argument points to. By the calling convention the compiled code may leave anything
  in \<open>eax\<close>, \<open>ecx\<close>, \<open>edx\<close> and in the stack below its return address: these values are fields of
  \<open>stub_env\<close>, as are the width \<open>push %ds\<close> writes (32 or 16 bits, by processor model), the devices and the
  code behind the handler addresses. That a C function leaves its argument cell alone is an assumption
  the stubs make, since they pop the stack pointer from it. Which exceptions push an error code is
  the processor's documentation (\<open>pushes_error_code\<close>). Interrupts that arrive inside a stub are in the theory NestedIrq.
\<close>

section \<open>Instructions\<close>

datatype reg = EAX | ECX | EDX | EBX | EBP | ESI | EDI | ESP

datatype sreg = CS | DS | ES | FS | GS | SS

datatype csym = Default_irq_handler | Default_exc_handler

datatype label = Common_isr | Common_exc

datatype instr =
    CLD | PUSH sreg | PUSHL reg | PUSHLI u32 | CALL csym | POPL reg | POP sreg | ADDL u32 reg | JMP label | IRETL

definition EXCEPTION_NOCODE :: "u32 \<Rightarrow> instr list" where
  "EXCEPTION_NOCODE exc = [PUSHLI 0, PUSHLI exc, JMP Common_exc]"

definition EXCEPTION :: "u32 \<Rightarrow> instr list" where
  "EXCEPTION exc = [PUSHLI exc, JMP Common_exc]"

definition INTERRUPT :: "u32 \<Rightarrow> instr list" where
  "INTERRUPT n = [PUSHLI n, JMP Common_isr]"

definition common_isr :: "instr list" where
  "common_isr =
     [CLD, PUSH DS, PUSH ES,
      PUSHL EAX, PUSHL ECX, PUSHL EDX, PUSHL EBX, PUSHL EBP, PUSHL ESI, PUSHL EDI,
      PUSHL ESP, CALL Default_irq_handler,
      POPL ESP, POPL EDI, POPL ESI, POPL EBP, POPL EBX, POPL EDX, POPL ECX, POPL EAX,
      POP ES, POP DS, ADDL 4 ESP, IRETL]"

definition COMMON_EXC :: "instr list" where
  "COMMON_EXC =
     [CLD, PUSH DS, PUSH ES,
      PUSHL EAX, PUSHL ECX, PUSHL EDX, PUSHL EBX, PUSHL EBP, PUSHL ESI, PUSHL EDI,
      PUSHL ESP, CALL Default_exc_handler,
      POPL ESP, POPL EDI, POPL ESI, POPL EBP, POPL EBX, POPL EDX, POPL ECX, POPL EAX,
      POP ES, POP DS, ADDL 8 ESP, IRETL]"

definition exc_stubs :: "instr list list" where
  "exc_stubs =
     [EXCEPTION_NOCODE 0x00, EXCEPTION_NOCODE 0x01, EXCEPTION_NOCODE 0x02, EXCEPTION_NOCODE 0x03,
      EXCEPTION_NOCODE 0x04, EXCEPTION_NOCODE 0x05, EXCEPTION_NOCODE 0x06, EXCEPTION_NOCODE 0x07,
      EXCEPTION 0x08, EXCEPTION_NOCODE 0x09, EXCEPTION 0x0A, EXCEPTION 0x0B,
      EXCEPTION 0x0C, EXCEPTION 0x0D, EXCEPTION 0x0E, EXCEPTION_NOCODE 0x0F]"

definition exc_unhand_stub :: "instr list" where
  "exc_unhand_stub = EXCEPTION_NOCODE 0x09"

definition irq_stubs :: "instr list list" where
  "irq_stubs =
     [INTERRUPT 0x00, INTERRUPT 0x01, INTERRUPT 0x02, INTERRUPT 0x03, INTERRUPT 0x04, INTERRUPT 0x05, INTERRUPT 0x06,
      INTERRUPT 0x07, INTERRUPT 0x08, INTERRUPT 0x09, INTERRUPT 0x0a, INTERRUPT 0x0b, INTERRUPT 0x0c, INTERRUPT 0x0d,
      INTERRUPT 0x0e, INTERRUPT 0x0f]"

definition irq_unhand_stub :: "instr list" where
  "irq_unhand_stub = INTERRUPT 0xff"

fun block :: "label \<Rightarrow> instr list" where
  "block Common_isr = common_isr"
| "block Common_exc = COMMON_EXC"

text \<open>The code at an entry point, by the addresses the linker gives the stubs.\<close>

definition code_at :: "('a irq_image_scheme) \<Rightarrow> addr \<Rightarrow> instr list" where
  "code_at L a =
     (case map_of (zip (irq_stub L) irq_stubs @ zip (exc_stub L) exc_stubs @
                   [(irq_unhand L, irq_unhand_stub), (exc_unhand L, exc_unhand_stub)]) a of
        Some b \<Rightarrow> b | None \<Rightarrow> [])"

section \<open>The processor\<close>

record cpu = kmachine +
  gpr :: "reg \<Rightarrow> u32"
  seg :: "sreg \<Rightarrow> u16"
  pc :: u32

datatype stub_run = Resumed cpu | Stopped kmachine | IrqFault irq_fault | ConFault console_fault | Stuck

record stub_env =
  seg_wide :: bool
  ret_addr :: "csym \<Rightarrow> addr"
  stack_used :: nat
  clobbered :: "cpu \<Rightarrow> reg \<Rightarrow> u32"
  leftover :: "cpu \<Rightarrow> mem"
  devices :: device
  handlers :: handler_code
  prints :: print_image

definition DF_FLAG :: u32 where "DF_FLAG = 0x400"

text \<open>\<open>TF\<close>, \<open>NT\<close>, \<open>RF\<close> and \<open>VM\<close>, which every gate clears.\<close>

definition GATE_CLEARS :: u32 where "GATE_CLEARS = 0x34100"

definition push32 :: "u32 \<Rightarrow> cpu \<Rightarrow> cpu" where
  "push32 v x = (let sp = gpr x ESP - 4 in x\<lparr>gpr := (gpr x)(ESP := sp), ram := store32 sp v (ram x)\<rparr>)"

definition push_seg :: "bool \<Rightarrow> u16 \<Rightarrow> cpu \<Rightarrow> cpu" where
  "push_seg wide v x =
     (let sp = gpr x ESP - 4 in
      x\<lparr>gpr := (gpr x)(ESP := sp), ram := (if wide then store32 sp (ucast v) (ram x) else store16 sp v (ram x))\<rparr>)"

definition stack_top :: "cpu \<Rightarrow> u32" where
  "stack_top x = load32 (ram x) (gpr x ESP)"

definition set_flags :: "u32 \<Rightarrow> cpu \<Rightarrow> cpu" where
  "set_flags f x = x\<lparr>intr := (intr x)\<lparr>flags := f\<rparr>\<rparr>"

text \<open>The instructions that fall through. \<open>pushl %esp\<close> stores the value from before the push,
  \<open>popl %esp\<close> loads the popped value. The status flags \<open>addl\<close> sets are gone with the next \<open>iretl\<close>.\<close>

fun step :: "stub_env \<Rightarrow> instr \<Rightarrow> cpu \<Rightarrow> cpu" where
  "step E CLD x = set_flags (flags (intr x) AND NOT DF_FLAG) x"
| "step E (PUSH s) x = push_seg (seg_wide E) (seg x s) x"
| "step E (PUSHL r) x = push32 (gpr x r) x"
| "step E (PUSHLI v) x = push32 v x"
| "step E (POPL r) x = x\<lparr>gpr := (gpr x)(ESP := gpr x ESP + 4, r := stack_top x)\<rparr>"
| "step E (POP s) x = x\<lparr>seg := (seg x)(s := ucast (stack_top x)), gpr := (gpr x)(ESP := gpr x ESP + 4)\<rparr>"
| "step E (ADDL n r) x = x\<lparr>gpr := (gpr x)(r := gpr x r + n)\<rparr>"
| "step E (CALL f) x = push32 (ret_addr E f) x"
| "step E (JMP l) x = x"
| "step E IRETL x =
     (let sp = gpr x ESP; m = ram x in
      set_flags (load32 m (sp + 8))
        (x\<lparr>pc := load32 m sp, seg := (seg x)(CS := ucast (load32 m (sp + 4))), gpr := (gpr x)(ESP := sp + 12)\<rparr>))"

section \<open>Calling the C handlers\<close>

definition load_irq_context :: "mem \<Rightarrow> addr \<Rightarrow> irq_context" where
  "load_irq_context m p =
     \<lparr>edi = load32 m p, esi = load32 m (p + 4), ebp = load32 m (p + 8), ebx = load32 m (p + 12), edx = load32 m (p + 16),
      ecx = load32 m (p + 20), eax = load32 m (p + 24), es = load32 m (p + 28), ds = load32 m (p + 32),
      irq = load32 m (p + 36), eip = load32 m (p + 40), cs = load32 m (p + 44), eflags = load32 m (p + 48)\<rparr>"

definition load_exception_context :: "mem \<Rightarrow> addr \<Rightarrow> exception_context" where
  "load_exception_context m p =
     \<lparr>x_edi = load32 m p, x_esi = load32 m (p + 4), x_ebp = load32 m (p + 8), x_ebx = load32 m (p + 12),
      x_edx = load32 m (p + 16), x_ecx = load32 m (p + 20), x_eax = load32 m (p + 24), x_es = load32 m (p + 28),
      x_ds = load32 m (p + 32), x_exc = load32 m (p + 36), x_err_code = load32 m (p + 40), x_eip = load32 m (p + 44),
      x_cs = load32 m (p + 48), x_eflags = load32 m (p + 52)\<rparr>"

text \<open>The return of a C function: the return address is popped, the rest is left as the convention allows.\<close>

definition c_return :: "stub_env \<Rightarrow> cpu \<Rightarrow> cpu" where
  "c_return E x =
     (let sp = gpr x ESP; n = stack_used E in
      x\<lparr>gpr := (\<lambda>r. if r \<in> {EAX, ECX, EDX} then clobbered E x r else if r = ESP then sp + 4 else gpr x r),
        ram := (\<lambda>a. if a \<in> region (sp - of_nat n) n then leftover E x a else ram x a)\<rparr>)"

fun call_c :: "stub_env \<Rightarrow> csym \<Rightarrow> cpu \<Rightarrow> stub_run + cpu" where
  "call_c E Default_irq_handler x =
     (case default_irq_handler (devices E) (handlers E)
             (load_irq_context (ram x) (load32 (ram x) (gpr x ESP + 4))) (intr x) of
        Inl e \<Rightarrow> Inl (IrqFault e)
      | Inr s \<Rightarrow> Inr (c_return E (x\<lparr>intr := s\<rparr>)))"
| "call_c E Default_exc_handler x =
     (case default_exc_handler (prints E)
             (load_exception_context (ram x) (load32 (ram x) (gpr x ESP + 4))) (kmachine.truncate x) of
        None \<Rightarrow> Inl Stuck
      | Some (Halted s) \<Rightarrow> Inl (Stopped s)
      | Some (Faulted e) \<Rightarrow> Inl (ConFault e)
      | Some (Returned s) \<Rightarrow> Inr (c_return E (x\<lparr>con := con s, intr := intr s, ram := ram s\<rparr>)))"

section \<open>Running a stub\<close>

fun exec :: "stub_env \<Rightarrow> nat \<Rightarrow> instr list \<Rightarrow> cpu \<Rightarrow> stub_run" where
  "exec E 0 b x = Stuck"
| "exec E (Suc n) [] x = Stuck"
| "exec E (Suc n) (i # b) x =
     (let x' = step E i x in
      case i of
        JMP l \<Rightarrow> exec E n (block l) x'
      | IRETL \<Rightarrow> Resumed x'
      | CALL f \<Rightarrow> (case call_c E f x' of Inl r \<Rightarrow> r | Inr x'' \<Rightarrow> exec E n b x'')
      | _ \<Rightarrow> exec E n b x')"

text \<open>What the processor does on its own: it pushes the flags, the code segment, the instruction
  pointer and, for some exceptions, an error code, and goes through the gate.\<close>

definition gate_flags :: "idt_entry \<Rightarrow> u32 \<Rightarrow> u32" where
  "gate_flags g f =
     (let f' = f AND NOT GATE_CLEARS in if attribs g = INT_GATE then f' AND NOT IF_FLAG else f')"

definition deliver :: "nat \<Rightarrow> u32 option \<Rightarrow> cpu \<Rightarrow> cpu" where
  "deliver v err x =
     (let g = idt (intr x) ! v;
          f = flags (intr x);
          y = push32 (pc x) (push32 (ucast (seg x CS)) (push32 f x));
          y = (case err of None \<Rightarrow> y | Some c \<Rightarrow> push32 c y)
      in set_flags (gate_flags g f) (y\<lparr>seg := (seg y)(CS := selector g)\<rparr>))"

text \<open>A stub has no loop: it runs at most 27 instructions.\<close>

definition take_interrupt :: "stub_env \<Rightarrow> ('a irq_image_scheme) \<Rightarrow> nat \<Rightarrow> u32 option \<Rightarrow> cpu \<Rightarrow> stub_run" where
  "take_interrupt E L v err x = exec E 27 (code_at L (gate_offset (idt (intr x) ! v))) (deliver v err x)"

section \<open>Cells of the stack\<close>

lemma of_nat_addr_inject: "a < 2 ^ 32 \<Longrightarrow> b < 2 ^ 32 \<Longrightarrow> (of_nat a :: addr) = of_nat b \<longleftrightarrow> a = b"
  by (auto simp: word_of_nat_eq_iff take_bit_nat_eq_self)

lemma region_offsets_disjoint:
  assumes "a + k \<le> b" "b + n \<le> 2 ^ 32"
  shows "region (p + of_nat a) k \<inter> region (p + of_nat b) n = {}"
proof -
  have "p + of_nat a + of_nat i \<noteq> p + of_nat b + of_nat j" if "i < k" "j < n" for i j
    using that assms of_nat_addr_inject [of "a + i" "b + j"] by (simp add: add.assoc flip: of_nat_add)
  then show ?thesis by (auto simp: region_def)
qed

lemma cell_gap: "(i :: nat) mod 4 = 0 \<Longrightarrow> j mod 4 = 0 \<Longrightarrow> i < j \<Longrightarrow> i + 4 \<le> j"
  by presburger

text \<open>Aligned cells of a stack at most 2 GB deep are the same or apart.\<close>

lemma offsets_apart:
  assumes "i mod 4 = 0" "j mod 4 = 0" "i \<noteq> j" "i < 2 ^ 31" "j < 2 ^ 31"
  shows "region (p + of_nat j) 4 \<inter> region (p + of_nat i) 4 = {}"
proof (cases "i < j")
  case True
  then have "i + 4 \<le> j" using cell_gap assms(1,2) by simp
  then show ?thesis using region_offsets_disjoint [of i 4 j 4 p] assms(5) by auto
next
  case False
  then have "j + 4 \<le> i" using cell_gap assms(1,2,3) by simp
  then show ?thesis using region_offsets_disjoint [of j 4 i 4 p] assms(4) by auto
qed

lemmas cells_apart = offsets_apart [of "numeral a" "numeral b" p for a b p, unfolded of_nat_numeral]

lemma load32_store32_cell:
  assumes "(numeral a :: nat) mod 4 = 0" "(numeral b :: nat) mod 4 = 0" "numeral a \<noteq> (numeral b :: nat)"
    "numeral a < (2 ^ 31 :: nat)" "numeral b < (2 ^ 31 :: nat)"
  shows "load32 (store32 (p + numeral a) v m) (p + numeral b) = load32 m (p + numeral b)"
  by (rule load32_same [OF store32_same [OF cells_apart [OF assms]]])

lemma store16_put_bytes: "store16 p v m = put_bytes p [ucast v, ucast (drop_bit 8 v)] m"
  by (simp add: store16_def)

lemma store16_same: "A \<inter> region p 4 = {} \<Longrightarrow> same_on A m (store16 p v m)"
  unfolding store16_put_bytes using region_mono [of 2 4 p] by (intro same_on_put_bytes) (auto simp: numeral_2_eq_2)

lemma load32_store16_cell:
  assumes "(numeral a :: nat) mod 4 = 0" "(numeral b :: nat) mod 4 = 0" "numeral a \<noteq> (numeral b :: nat)"
    "numeral a < (2 ^ 31 :: nat)" "numeral b < (2 ^ 31 :: nat)"
  shows "load32 (store16 (p + numeral a) v m) (p + numeral b) = load32 m (p + numeral b)"
  by (rule load32_same [OF store16_same [OF cells_apart [OF assms]]])

lemma low_half_store16: "ucast (load32 (store16 p v m) p) = v"
  by (rule bit_word_eqI) (auto simp: load32_def store16_def bit_simps)

lemma low_half_ucast: "ucast (ucast (v :: u16) :: u32) = v"
  by (rule bit_word_eqI) (simp add: bit_simps)

lemmas cell_simps = load32_store32_cell load32_store16_cell load32_store32 low_half_store16 low_half_ucast

section \<open>Saving and restoring\<close>

definition save_regs :: "instr list" where
  "save_regs = [CLD, PUSH DS, PUSH ES, PUSHL EAX, PUSHL ECX, PUSHL EDX, PUSHL EBX, PUSHL EBP, PUSHL ESI, PUSHL EDI]"

definition restore_regs :: "u32 \<Rightarrow> instr list" where
  "restore_regs n =
     [POPL ESP, POPL EDI, POPL ESI, POPL EBP, POPL EBX, POPL EDX, POPL ECX, POPL EAX, POP ES, POP DS, ADDL n ESP, IRETL]"

lemma common_blocks:
  "common_isr = save_regs @ PUSHL ESP # CALL Default_irq_handler # restore_regs 4"
  "COMMON_EXC = save_regs @ PUSHL ESP # CALL Default_exc_handler # restore_regs 8"
  by (simp_all add: common_isr_def COMMON_EXC_def save_regs_def restore_regs_def)

text \<open>The memory when the handler is called, with the stack pointer at \<open>p + 48\<close> before.\<close>

definition put_seg :: "bool \<Rightarrow> addr \<Rightarrow> u16 \<Rightarrow> mem \<Rightarrow> mem" where
  "put_seg wide p v m = (if wide then store32 p (ucast v) m else store16 p v m)"

definition saved :: "stub_env \<Rightarrow> csym \<Rightarrow> addr \<Rightarrow> cpu \<Rightarrow> mem" where
  "saved E f p x =
     store32 (p + 4) (ret_addr E f) (store32 (p + 8) (p + 12)
       (store32 (p + 12) (gpr x EDI) (store32 (p + 16) (gpr x ESI) (store32 (p + 20) (gpr x EBP) (store32 (p + 24) (gpr x EBX)
       (store32 (p + 28) (gpr x EDX) (store32 (p + 32) (gpr x ECX) (store32 (p + 36) (gpr x EAX)
       (put_seg (seg_wide E) (p + 40) (seg x ES) (put_seg (seg_wide E) (p + 44) (seg x DS) (ram x)))))))))))"

definition at_call :: "stub_env \<Rightarrow> csym \<Rightarrow> addr \<Rightarrow> cpu \<Rightarrow> cpu" where
  "at_call E f p x =
     x\<lparr>intr := (intr x)\<lparr>flags := flags (intr x) AND NOT DF_FLAG\<rparr>, gpr := (gpr x)(ESP := p + 4), ram := saved E f p x\<rparr>"

text \<open>Instructions that fall through run one after the other.\<close>

fun straight :: "instr \<Rightarrow> bool" where
  "straight (JMP l) \<longleftrightarrow> False"
| "straight (CALL f) \<longleftrightarrow> False"
| "straight IRETL \<longleftrightarrow> False"
| "straight i \<longleftrightarrow> True"

lemma exec_straight: "list_all straight c \<Longrightarrow> exec E (length c + n) (c @ b) x = exec E n b (fold (step E) c x)"
proof (induction c arbitrary: x)
  case (Cons i c)
  then show ?case by (cases i) (simp_all add: Let_def)
qed simp

lemma steps_save:
  assumes "gpr x ESP = p + 48"
  shows "step E (CALL f) (fold (step E) (save_regs @ [PUSHL ESP]) x) = at_call E f p x"
  using assms
  by (simp add: save_regs_def Let_def push32_def push_seg_def set_flags_def at_call_def saved_def put_seg_def)
    (simp add: add.commute [of p])

lemma exec_save:
  assumes "gpr x ESP = p + 48"
  shows "exec E (12 + n) (save_regs @ PUSHL ESP # CALL f # b) x =
    (case call_c E f (at_call E f p x) of Inl r \<Rightarrow> r | Inr x' \<Rightarrow> exec E n b x')"
proof -
  let ?c = "save_regs @ [PUSHL ESP]"
  have "list_all straight ?c" "length ?c = 11" by (simp_all add: save_regs_def)
  then have "exec E (11 + Suc n) (?c @ CALL f # b) x = exec E (Suc n) (CALL f # b) (fold (step E) ?c x)"
    using exec_straight by metis
  then show ?thesis unfolding exec.simps Let_def instr.case steps_save [OF assms] by simp
qed

definition restored :: "u32 \<Rightarrow> addr \<Rightarrow> cpu \<Rightarrow> cpu" where
  "restored k p x = set_flags (load32 (ram x) (p + 48 + k + 8)) (x\<lparr>
      gpr := (\<lambda>r. case r of EDI \<Rightarrow> load32 (ram x) (p + 12) | ESI \<Rightarrow> load32 (ram x) (p + 16) | EBP \<Rightarrow> load32 (ram x) (p + 20)
        | EBX \<Rightarrow> load32 (ram x) (p + 24) | EDX \<Rightarrow> load32 (ram x) (p + 28) | ECX \<Rightarrow> load32 (ram x) (p + 32)
        | EAX \<Rightarrow> load32 (ram x) (p + 36) | ESP \<Rightarrow> p + 60 + k),
      seg := (seg x)(ES := ucast (load32 (ram x) (p + 40)), DS := ucast (load32 (ram x) (p + 44)),
        CS := ucast (load32 (ram x) (p + 48 + k + 4))),
      pc := load32 (ram x) (p + 48 + k)\<rparr>)"

lemma steps_restore:
  assumes "gpr x ESP = p + 8" "load32 (ram x) (p + 8) = p + 12"
  shows "fold (step E) (restore_regs k) x = restored k p x"
  using assms
  by (simp add: restore_regs_def Let_def stack_top_def set_flags_def restored_def)
    (intro cpu.equality, simp_all add: fun_eq_iff ac_simps split: reg.split sreg.split)

lemma restore_regs_snoc: "restore_regs k = butlast (restore_regs k) @ [IRETL]" "list_all straight (butlast (restore_regs k))"
  "length (butlast (restore_regs k)) = 11"
  by (simp_all add: restore_regs_def)

lemma exec_restore:
  assumes "gpr x ESP = p + 8" "load32 (ram x) (p + 8) = p + 12"
  shows "exec E (12 + n) (restore_regs k) x = Resumed (restored k p x)"
proof -
  let ?c = "butlast (restore_regs k)"
  have "exec E (11 + Suc n) (?c @ [IRETL]) x = exec E (Suc n) [IRETL] (fold (step E) ?c x)"
    using exec_straight [OF restore_regs_snoc(2) [of k], of E "Suc n" "[IRETL]" x] by (simp only: restore_regs_snoc(3))
  moreover have "step E IRETL (fold (step E) ?c x) = restored k p x"
    using steps_restore [OF assms, of E k] restore_regs_snoc(1) by (metis fold_append comp_apply fold_simps(1,2))
  moreover have "exec E (Suc n) [IRETL] z = Resumed (step E IRETL z)" for z by simp
  moreover have "12 + n = 11 + Suc n" by simp
  ultimately show ?thesis using restore_regs_snoc(1) [of k] by metis
qed

lemma saved_cells:
  "load32 (saved E f p x) (p + 8) = p + 12"
  "load32 (saved E f p x) (p + 12) = gpr x EDI" "load32 (saved E f p x) (p + 16) = gpr x ESI"
  "load32 (saved E f p x) (p + 20) = gpr x EBP" "load32 (saved E f p x) (p + 24) = gpr x EBX"
  "load32 (saved E f p x) (p + 28) = gpr x EDX" "load32 (saved E f p x) (p + 32) = gpr x ECX"
  "load32 (saved E f p x) (p + 36) = gpr x EAX"
  "ucast (load32 (saved E f p x) (p + 40)) = seg x ES" "ucast (load32 (saved E f p x) (p + 44)) = seg x DS"
  by (simp_all add: saved_def put_seg_def cell_simps)

lemma put_seg_same: "A \<inter> region p 4 = {} \<Longrightarrow> same_on A m (put_seg wide p v m)"
  by (simp add: put_seg_def store32_same store16_same)

lemma cell_in_frame:
  assumes "a \<le> b" "b + 4 \<le> a + n"
  shows "region (p + of_nat b) 4 \<subseteq> region (p + of_nat a) n"
proof -
  have "a + n = b + 4 + (a + n - (b + 4))" "b = a + (b - a)" using assms by simp_all
  then obtain j k where e: "b = a + j" "n = j + (4 + k)" using assms by (metis add.assoc add_left_cancel)
  show ?thesis
    using region_add [of "p + of_nat a" j "4 + k"] region_add [of "p + of_nat a + of_nat j" 4 k] by (simp add: e add.assoc Un_assoc) blast
qed

lemmas numeral_in_frame = cell_in_frame [of "numeral a" "numeral b" n p for a b n p, unfolded of_nat_numeral]

lemma saved_same: "same_on (- region (p + 4) 44) (ram x) (saved E f p x)"
proof -
  have sub: "- region (p + 4) 44 \<inter> region (p + numeral b) 4 = {}" if "4 \<le> (numeral b :: nat)" "numeral b + 4 \<le> (48 :: nat)" for b
    using numeral_in_frame [of "num.Bit0 (num.Bit0 num.One)" b 44 p] that by auto
  have s32: "same_on (- region (p + 4) 44) m (store32 (p + numeral b) v m') \<longleftrightarrow> same_on (- region (p + 4) 44) m m'"
    if "4 \<le> (numeral b :: nat)" "numeral b + 4 \<le> (48 :: nat)" for b v m m'
    using store32_same [OF sub [OF that], of m' v] by (auto simp: same_on_def)
  have sseg: "same_on (- region (p + 4) 44) m (put_seg w (p + numeral b) v m') \<longleftrightarrow> same_on (- region (p + 4) 44) m m'"
    if "4 \<le> (numeral b :: nat)" "numeral b + 4 \<le> (48 :: nat)" for b v m m' w
    using put_seg_same [OF sub [OF that], of m' w v] by (auto simp: same_on_def)
  show ?thesis unfolding saved_def by (simp add: s32 sseg)
qed

lemma saved_above_offset:
  assumes "48 \<le> k" "k < 2 ^ 31"
  shows "load32 (saved E f p x) (p + of_nat k) = load32 (ram x) (p + of_nat k)"
proof (rule load32_same [OF same_on_subset [OF saved_same]])
  show "region (p + of_nat k) 4 \<subseteq> - region (p + 4) 44"
    using region_offsets_disjoint [of 4 44 k 4 p] assms by auto
qed

lemmas saved_above = saved_above_offset [of "numeral b" for b, unfolded of_nat_numeral]

section \<open>The handler between\<close>

lemma below_disjoint:
  assumes "n + k + 4 \<le> 2 ^ 32"
  shows "region (q + of_nat k) 4 \<inter> region (q - of_nat n) n = {}"
  using region_offsets_disjoint [of 0 n "n + k" 4 "q - of_nat n"] assms by (auto simp: Int_commute)

lemma c_return_offset:
  assumes "4 \<le> k" "k \<le> 96" "gpr x ESP = p + 4" "stack_used E + 100 \<le> 2 ^ 32"
  shows "load32 (ram (c_return E x)) (p + of_nat k) = load32 (ram x) (p + of_nat k)"
proof -
  have "region (p + 4 + of_nat (k - 4)) 4 \<inter> region (p + 4 - of_nat (stack_used E)) (stack_used E) = {}"
    by (rule below_disjoint) (use assms in simp)
  moreover have "p + 4 + of_nat (k - 4) = p + of_nat k" using assms(1) by (simp add: of_nat_diff)
  ultimately show ?thesis
    by (intro load32_same) (auto simp: same_on_def c_return_def Let_def assms(3))
qed

lemmas c_return_loads = c_return_offset [of "numeral b" for b, unfolded of_nat_numeral]

lemma c_return_same: "same_on (- region (gpr x ESP - of_nat (stack_used E)) (stack_used E)) (ram x) (ram (c_return E x))"
  by (simp add: same_on_def c_return_def Let_def)

text \<open>The cells an entry may change: what the stub pushes and what the handler uses below.\<close>

definition entry_cells :: "stub_env \<Rightarrow> addr \<Rightarrow> nat \<Rightarrow> addr set" where
  "entry_cells E sp n = region (sp - of_nat (stack_used E + n)) (stack_used E + n)"

lemma entry_cells_split:
  "entry_cells E (p + of_nat (4 + n)) n = region (p + 4 - of_nat (stack_used E)) (stack_used E) \<union> region (p + 4) n"
proof -
  have "p + of_nat (4 + n) - of_nat (stack_used E + n) = p + 4 - of_nat (stack_used E)" by simp
  then show ?thesis unfolding entry_cells_def region_add by (simp only:) (simp add: algebra_simps)
qed

lemma four_up: "p + 4 + 4 = (p :: addr) + 8"
  by simp

lemma exec_common_isr:
  assumes "gpr x ESP = p + 48" "stack_used E + 100 \<le> 2 ^ 32"
  shows "case default_irq_handler (devices E) (handlers E) (load_irq_context (saved E Default_irq_handler p x) (p + 12))
      ((intr x)\<lparr>flags := flags (intr x) AND NOT DF_FLAG\<rparr>) of
    Inl e \<Rightarrow> exec E (24 + k) common_isr x = IrqFault e
  | Inr s \<Rightarrow> \<exists>m'. same_on (- entry_cells E (p + 48) 44) (ram x) m' \<and> exec E (24 + k) common_isr x = Resumed (x\<lparr>
      intr := s\<lparr>flags := load32 (ram x) (p + 60)\<rparr>, gpr := (gpr x)(ESP := p + 64),
      seg := (seg x)(CS := ucast (load32 (ram x) (p + 56))), pc := load32 (ram x) (p + 52), ram := m'\<rparr>)"
    (is "case ?r of Inl e \<Rightarrow> ?f e | Inr s \<Rightarrow> ?g s")
proof -
  let ?a = "at_call E Default_irq_handler p x"
  have a: "gpr ?a ESP = p + 4" "ram ?a = saved E Default_irq_handler p x" by (simp_all add: at_call_def)
  have run: "exec E (24 + k) common_isr x = (case call_c E Default_irq_handler ?a of Inl r \<Rightarrow> r | Inr x' \<Rightarrow> exec E (12 + k) (restore_regs 4) x')"
    using exec_save [OF assms(1), of E "12 + k" Default_irq_handler "restore_regs 4"] by (simp add: common_blocks)
  have call: "call_c E Default_irq_handler ?a =
      (case ?r of Inl e \<Rightarrow> Inl (IrqFault e) | Inr s \<Rightarrow> Inr (c_return E (?a\<lparr>intr := s\<rparr>)))"
    by (simp only: call_c.simps a four_up saved_cells) (simp add: at_call_def)
  show ?thesis
  proof (cases ?r)
    case (Inl e)
    then show ?thesis using run call by simp
  next
    case (Inr s)
    let ?y = "c_return E (?a\<lparr>intr := s\<rparr>)"
    have esp: "gpr (?a\<lparr>intr := s\<rparr>) ESP = p + 4" using a by simp
    have ld: "load32 (ram ?y) (p + numeral b) = load32 (saved E Default_irq_handler p x) (p + numeral b)"
      if "4 \<le> (numeral b :: nat)" "numeral b \<le> (96 :: nat)" for b
      using c_return_loads [OF that esp assms(2)] a(2) by simp
    have y: "gpr ?y ESP = p + 8" "load32 (ram ?y) (p + 8) = p + 12" using a by (simp add: c_return_def Let_def, simp add: ld saved_cells)
    have cells: "entry_cells E (p + 48) 44 = region (p + 4 - of_nat (stack_used E)) (stack_used E) \<union> region (p + 4) 44"
      using entry_cells_split [of E p 44] by simp
    have same: "same_on (- entry_cells E (p + 48) 44) (ram x) (ram ?y)"
    proof (rule same_on_trans)
      show "same_on (- entry_cells E (p + 48) 44) (ram x) (saved E Default_irq_handler p x)"
        by (rule same_on_subset [OF saved_same]) (simp add: cells)
      show "same_on (- entry_cells E (p + 48) 44) (saved E Default_irq_handler p x) (ram ?y)"
        using c_return_same [of "?a\<lparr>intr := s\<rparr>" E] unfolding esp cells by (simp add: a same_on_def)
    qed
    have "exec E (24 + k) common_isr x = Resumed (x\<lparr>
      intr := s\<lparr>flags := load32 (ram x) (p + 60)\<rparr>, gpr := (gpr x)(ESP := p + 64),
      seg := (seg x)(CS := ucast (load32 (ram x) (p + 56))), pc := load32 (ram x) (p + 52), ram := ram ?y\<rparr>)"
      using run call Inr exec_restore [OF y, of E k 4]
      by (simp add: restored_def ld saved_cells saved_above set_flags_def add.assoc)
        (rule cpu.equality, simp_all add: c_return_def at_call_def Let_def fun_eq_iff split: reg.split sreg.split)
    then show ?thesis using same Inr by auto
  qed
qed

section \<open>From the gate to the handler\<close>

definition stubs_linked :: "('a irq_image_scheme) \<Rightarrow> bool" where
  "stubs_linked L \<longleftrightarrow> length (irq_stub L) = 16 \<and> length (exc_stub L) = 16 \<and>
     distinct (irq_stub L @ exc_stub L @ [irq_unhand L, exc_unhand L])"

lemma stub_lists_map:
  "irq_stubs = map (\<lambda>i. INTERRUPT (of_nat i)) [0..<16]"
  "exc_stubs = map (\<lambda>i. if i \<in> {8, 10, 11, 12, 13, 14} then EXCEPTION (of_nat i) else EXCEPTION_NOCODE (of_nat i)) [0..<16]"
  by (simp_all add: irq_stubs_def exc_stubs_def upt_rec)

lemma stub_lengths: "length irq_stubs = 16" "length exc_stubs = 16"
  by (simp_all add: stub_lists_map)

lemma irq_stubs_nth: "i < 16 \<Longrightarrow> irq_stubs ! i = INTERRUPT (of_nat i)"
  unfolding stub_lists_map by (subst nth_map) simp_all

lemma exc_stubs_nth:
  "i < 16 \<Longrightarrow> exc_stubs ! i = (if i \<in> {8, 10, 11, 12, 13, 14} then EXCEPTION (of_nat i) else EXCEPTION_NOCODE (of_nat i))"
  unfolding stub_lists_map by (subst nth_map) simp_all

lemma code_at_stubs:
  assumes "stubs_linked L"
  shows "i < 16 \<Longrightarrow> code_at L (irq_stub L ! i) = irq_stubs ! i" "i < 16 \<Longrightarrow> code_at L (exc_stub L ! i) = exc_stubs ! i"
    "code_at L (irq_unhand L) = irq_unhand_stub" "code_at L (exc_unhand L) = exc_unhand_stub"
proof -
  have len: "length (irq_stub L) = length irq_stubs" "length (exc_stub L) = length exc_stubs" "length irq_stubs = 16" "length exc_stubs = 16"
    using assms by (simp_all add: stubs_linked_def stub_lengths)
  have d: "distinct (irq_stub L)" "distinct (exc_stub L)" "set (irq_stub L) \<inter> set (exc_stub L) = {}" "irq_unhand L \<noteq> exc_unhand L"
    "irq_unhand L \<notin> set (irq_stub L) \<union> set (exc_stub L)" "exc_unhand L \<notin> set (irq_stub L) \<union> set (exc_stub L)"
    using assms by (auto simp: stubs_linked_def)
  have none: "map_of (zip (irq_stub L) irq_stubs) a = None \<longleftrightarrow> a \<notin> set (irq_stub L)"
    "map_of (zip (exc_stub L) exc_stubs) a = None \<longleftrightarrow> a \<notin> set (exc_stub L)" for a
    using len by (simp_all add: map_of_zip_is_None)
  show "code_at L (irq_stub L ! i) = irq_stubs ! i" if "i < 16"
    using that len d(1) by (simp add: code_at_def map_add_def map_of_zip_nth)
  show "code_at L (exc_stub L ! i) = exc_stubs ! i" if "i < 16"
  proof -
    have "exc_stub L ! i \<notin> set (irq_stub L)" using that len d(3) nth_mem [of i "exc_stub L"] by auto
    then have "map_of (zip (irq_stub L) irq_stubs) (exc_stub L ! i) = None" using none(1) by blast
    moreover have "map_of (zip (exc_stub L) exc_stubs) (exc_stub L ! i) = Some (exc_stubs ! i)"
      using that len d(2) by (intro map_of_zip_nth) simp_all
    ultimately show ?thesis by (simp only: code_at_def map_of_append map_add_def option.case)
  qed
  show "code_at L (irq_unhand L) = irq_unhand_stub" "code_at L (exc_unhand L) = exc_unhand_stub"
  proof -
    have n: "map_of (zip (irq_stub L) irq_stubs) a = None" "map_of (zip (exc_stub L) exc_stubs) a = None"
      if "a \<in> {irq_unhand L, exc_unhand L}" for a
      unfolding none using that d(5,6) by auto
    show "code_at L (irq_unhand L) = irq_unhand_stub" "code_at L (exc_unhand L) = exc_unhand_stub"
      unfolding code_at_def map_of_append map_add_def using n d(4) by simp_all
  qed
qed

text \<open>The processor state an interrupt context describes.\<close>

definition interrupted :: "cpu \<Rightarrow> u32 \<Rightarrow> irq_context \<Rightarrow> bool" where
  "interrupted x n c \<longleftrightarrow> edi c = gpr x EDI \<and> esi c = gpr x ESI \<and> ebp c = gpr x EBP \<and> ebx c = gpr x EBX \<and>
     edx c = gpr x EDX \<and> ecx c = gpr x ECX \<and> eax c = gpr x EAX \<and> ucast (es c) = seg x ES \<and> ucast (ds c) = seg x DS \<and>
     irq c = n \<and> eip c = pc x \<and> cs c = ucast (seg x CS) \<and> eflags c = flags (intr x)"

lemma offset_context:
  "p + 12 + 4 = p + 16" "p + 12 + 8 = p + 20" "p + 12 + 12 = p + 24" "p + 12 + 16 = p + 28" "p + 12 + 20 = p + 32"
  "p + 12 + 24 = p + 36" "p + 12 + 28 = p + 40" "p + 12 + 32 = p + 44" "p + 12 + 36 = p + 48" "p + 12 + 40 = p + 52"
  "p + 12 + 44 = p + 56" "p + 12 + 48 = p + 60" "p + 12 + 52 = (p :: addr) + 64"
  by simp_all

text \<open>The state at \<open>__common_isr\<close>: the processor's three cells and the number are pushed.\<close>

lemma deliver_irq:
  fixes x :: cpu
  defines "p \<equiv> gpr x ESP - 64"
  shows "exec E (26 + k) (INTERRUPT n) (deliver v None x) = exec E (24 + k) common_isr (push32 n (deliver v None x))"
    "push32 n (deliver v None x) = x\<lparr>intr := (intr x)\<lparr>flags := gate_flags (idt (intr x) ! v) (flags (intr x))\<rparr>,
       seg := (seg x)(CS := selector (idt (intr x) ! v)), gpr := (gpr x)(ESP := p + 48),
       ram := store32 (p + 48) n (store32 (p + 52) (pc x) (store32 (p + 56) (ucast (seg x CS)) (store32 (p + 60) (flags (intr x)) (ram x))))\<rparr>"
proof -
  have e: "gpr x ESP = p + 64" by (simp add: p_def)
  show "exec E (26 + k) (INTERRUPT n) (deliver v None x) = exec E (24 + k) common_isr (push32 n (deliver v None x))"
    by (simp add: INTERRUPT_def eval_nat_numeral)
  have s: "p + 64 - 4 = p + 60" "p + 60 - 4 = p + 56" "p + 56 - 4 = p + 52" "p + 52 - 4 = p + 48" by simp_all
  show "push32 n (deliver v None x) = x\<lparr>intr := (intr x)\<lparr>flags := gate_flags (idt (intr x) ! v) (flags (intr x))\<rparr>,
       seg := (seg x)(CS := selector (idt (intr x) ! v)), gpr := (gpr x)(ESP := p + 48),
       ram := store32 (p + 48) n (store32 (p + 52) (pc x) (store32 (p + 56) (ucast (seg x CS)) (store32 (p + 60) (flags (intr x)) (ram x))))\<rparr>"
    by (rule cpu.equality) (simp_all add: deliver_def push32_def set_flags_def Let_def e s)
qed

lemma four_pushed_same:
  "same_on (- region (p + 48) 16) m (store32 (p + 48) a (store32 (p + 52) b (store32 (p + 56) c (store32 (p + 60) d m))))"
proof -
  have sub: "- region (p + 48) 16 \<inter> region (p + numeral k) 4 = {}" if "48 \<le> (numeral k :: nat)" "numeral k + 4 \<le> (64 :: nat)" for k
    using cell_in_frame [of 48 "numeral k" 16 p] that by auto
  show ?thesis
    by (rule same_on_trans [OF same_on_trans [OF same_on_trans [OF store32_same store32_same] store32_same] store32_same]; rule sub) simp_all
qed

lemma enter_irq:
  assumes "code_at L (gate_offset (idt (intr x) ! v)) = INTERRUPT n" "stack_used E + 100 \<le> 2 ^ 32"
  shows "\<exists>c. interrupted x n c \<and>
    (case default_irq_handler (devices E) (handlers E) c
            ((intr x)\<lparr>flags := gate_flags (idt (intr x) ! v) (flags (intr x)) AND NOT DF_FLAG\<rparr>) of
       Inl e \<Rightarrow> take_interrupt E L v None x = IrqFault e
     | Inr s \<Rightarrow> \<exists>m'. take_interrupt E L v None x = Resumed (x\<lparr>intr := s\<lparr>flags := flags (intr x)\<rparr>, ram := m'\<rparr>) \<and>
         same_on (- entry_cells E (gpr x ESP) 60) (ram x) m')"
proof -
  define p where "p = gpr x ESP - 64"
  let ?y = "push32 n (deliver v None x)"
  define c where "c = load_irq_context (saved E Default_irq_handler p ?y) (p + 12)"
  note y = deliver_irq(2) [of n v x, folded p_def]
  have sp: "gpr x ESP = p + 64" by (simp add: p_def)
  have run: "take_interrupt E L v None x = exec E (24 + 1) common_isr ?y" 
    using deliver_irq(1) [of E 1 n v x] assms(1) by (simp add: take_interrupt_def) 
  have ld: "load32 (ram ?y) (p + 48) = n" "load32 (ram ?y) (p + 52) = pc x" "load32 (ram ?y) (p + 56) = ucast (seg x CS)"
    "load32 (ram ?y) (p + 60) = flags (intr x)"
    unfolding y by (simp_all add: cell_simps)
  have c: "interrupted x n c"
    unfolding interrupted_def c_def load_irq_context_def offset_context by (simp add: saved_cells saved_above ld) (simp add: y)
  have cells: "same_on (- entry_cells E (gpr x ESP) 60) (ram x) m'" if "same_on (- entry_cells E (p + 48) 44) (ram ?y) m'" for m'
  proof -
    have "- entry_cells E (gpr x ESP) 60 \<subseteq> - entry_cells E (p + 48) 44" "- entry_cells E (gpr x ESP) 60 \<subseteq> - region (p + 48) 16"
      using entry_cells_split [of E p 44] entry_cells_split [of E p 60] region_add [of "p + 4" 44 16] by (auto simp: sp add.commute [of p])
    then show ?thesis using four_pushed_same [of p] that unfolding y by (simp add: same_on_def subset_iff)
  qed
  have here: "gpr ?y ESP = p + 48" "intr ?y = (intr x)\<lparr>flags := gate_flags (idt (intr x) ! v) (flags (intr x))\<rparr>" by (simp_all add: y)
  have resumed: "?y\<lparr>intr := i, gpr := (gpr ?y)(ESP := p + 64), seg := (seg ?y)(CS := ucast (ucast (seg x CS) :: u32)), pc := pc x, ram := m'\<rparr> =
      x\<lparr>intr := i, ram := m'\<rparr>" for i m'
    unfolding y by (rule cpu.equality) (simp_all add: low_half_ucast fun_eq_iff sp)
  have "case default_irq_handler (devices E) (handlers E) c
            ((intr x)\<lparr>flags := gate_flags (idt (intr x) ! v) (flags (intr x)) AND NOT DF_FLAG\<rparr>) of
       Inl e \<Rightarrow> take_interrupt E L v None x = IrqFault e
     | Inr s \<Rightarrow> \<exists>m'. take_interrupt E L v None x = Resumed (x\<lparr>intr := s\<lparr>flags := flags (intr x)\<rparr>, ram := m'\<rparr>) \<and>
         same_on (- entry_cells E (gpr x ESP) 60) (ram x) m'"
    using exec_common_isr [OF here(1) assms(2), of 1, folded c_def run, unfolded ld here(2) resumed] cells
    by (simp add: split: sum.splits) blast
  then show ?thesis using c by blast
qed

section \<open>Exceptions\<close>

text \<open>The vectors on which the processor pushes an error code, by its documentation; the stub that serves all
  vectors from 16 to 31 is written for exceptions without one.\<close>

definition pushes_error_code :: "nat \<Rightarrow> bool" where
  "pushes_error_code v \<longleftrightarrow> v \<in> {8, 10, 11, 12, 13, 14, 17, 21, 29, 30}"

definition misses_error_code :: "nat \<Rightarrow> bool" where
  "misses_error_code v \<longleftrightarrow> v \<in> {17, 21, 29, 30}"

text \<open>A context with the registers of the interrupted program and the five words above them: the number, the error
  code and what the processor pushed. Where the stub does not expect the error code, the handler reads each word one cell too low.\<close>

definition exception_frame :: "cpu \<Rightarrow> u32 list \<Rightarrow> exception_context \<Rightarrow> bool" where
  "exception_frame x ws c \<longleftrightarrow> x_edi c = gpr x EDI \<and> x_esi c = gpr x ESI \<and> x_ebp c = gpr x EBP \<and> x_ebx c = gpr x EBX \<and>
     x_edx c = gpr x EDX \<and> x_ecx c = gpr x ECX \<and> x_eax c = gpr x EAX \<and> ucast (x_es c) = seg x ES \<and> ucast (x_ds c) = seg x DS \<and>
     [x_exc c, x_err_code c, x_eip c, x_cs c, x_eflags c] = ws"

definition excepted :: "cpu \<Rightarrow> u32 \<Rightarrow> u32 \<Rightarrow> exception_context \<Rightarrow> bool" where
  "excepted x n e c \<longleftrightarrow> exception_frame x [n, e, pc x, ucast (seg x CS), flags (intr x)] c"

definition misread :: "cpu \<Rightarrow> u32 \<Rightarrow> u32 \<Rightarrow> exception_context \<Rightarrow> bool" where
  "misread x n e c \<longleftrightarrow> exception_frame x [n, 0, e, pc x, ucast (seg x CS)] c"

text \<open>The state at \<open>COMMON_EXC\<close> with the stack pointer at \<open>p + 48\<close> and the words \<open>ws\<close> pushed.\<close>

definition pushed :: "addr \<Rightarrow> u32 list \<Rightarrow> mem \<Rightarrow> mem" where
  "pushed p ws m = fold (\<lambda>(k, w) m. store32 (p + 48 + 4 * of_nat k) w m) (rev (zip [0..<length ws] ws)) m"

definition at_common_exc :: "nat \<Rightarrow> u32 list \<Rightarrow> addr \<Rightarrow> cpu \<Rightarrow> cpu" where
  "at_common_exc v ws p x = x\<lparr>intr := (intr x)\<lparr>flags := gate_flags (idt (intr x) ! v) (flags (intr x))\<rparr>,
     seg := (seg x)(CS := selector (idt (intr x) ! v)), gpr := (gpr x)(ESP := p + 48), ram := pushed p ws (ram x)\<rparr>"

lemma pushed_five:
  "pushed p [a, b, c, d, e] m =
     store32 (p + 48) a (store32 (p + 52) b (store32 (p + 56) c (store32 (p + 60) d (store32 (p + 64) e m))))"
  by (simp add: pushed_def upt_rec add.assoc)

lemma pushed_six:
  "pushed p [a, b, c, d, e, f] m =
     store32 (p + 48) a (store32 (p + 52) b (store32 (p + 56) c (store32 (p + 60) d (store32 (p + 64) e (store32 (p + 68) f m)))))"
  by (simp add: pushed_def upt_rec add.assoc)

lemma exec_exc_stub:
  "exec E 27 (EXCEPTION n) z = exec E (24 + 1) COMMON_EXC (push32 n z)"
  "exec E 27 (EXCEPTION_NOCODE n) z = exec E (24 + 0) COMMON_EXC (push32 n (push32 0 z))"
  by (simp_all add: EXCEPTION_def EXCEPTION_NOCODE_def numeral_eq_Suc)

lemma deliver_exc:
  assumes "b = EXCEPTION n \<and> err = Some e \<or> b = EXCEPTION_NOCODE n \<and> err = None \<and> e = 0" "gpr x ESP = p + 68"
  shows "\<exists>k. exec E 27 b (deliver v err x) =
    exec E (24 + k) COMMON_EXC (at_common_exc v [n, e, pc x, ucast (seg x CS), flags (intr x)] p x)"
proof -
  have s: "p + 68 - 4 = p + 64" "p + 64 - 4 = p + 60" "p + 60 - 4 = p + 56" "p + 56 - 4 = p + 52" "p + 52 - 4 = p + 48" by simp_all
  let ?y = "\<lambda>e. at_common_exc v [n, e, pc x, ucast (seg x CS), flags (intr x)] p x"
  have "push32 n (deliver v (Some e) x) = ?y e" "push32 n (push32 0 (deliver v None x)) = ?y 0"
    by (rule cpu.equality; simp add: at_common_exc_def pushed_five deliver_def push32_def set_flags_def Let_def assms(2) s)+
  then show ?thesis using assms(1) exec_exc_stub by metis
qed

lemma deliver_exc_misread:
  assumes "gpr x ESP = p + 72"
  shows "exec E 27 (EXCEPTION_NOCODE n) (deliver v (Some e) x) =
    exec E (24 + 0) COMMON_EXC (at_common_exc v [n, 0, e, pc x, ucast (seg x CS), flags (intr x)] p x)"
proof -
  have s: "p + 72 - 4 = p + 68" "p + 68 - 4 = p + 64" "p + 64 - 4 = p + 60" "p + 60 - 4 = p + 56" "p + 56 - 4 = p + 52" "p + 52 - 4 = p + 48"
    by simp_all
  have "push32 n (push32 0 (deliver v (Some e) x)) = at_common_exc v [n, 0, e, pc x, ucast (seg x CS), flags (intr x)] p x"
    by (rule cpu.equality; simp add: at_common_exc_def pushed_six deliver_def push32_def set_flags_def Let_def assms s)
  then show ?thesis using exec_exc_stub(2) by metis
qed

lemma store32_in_frame:
  assumes "48 \<le> (numeral k :: nat)" "numeral k + 4 \<le> 48 + n"
  shows "same_on (- region (p + 48) n) m (store32 (p + numeral k) w m') \<longleftrightarrow> same_on (- region (p + 48) n) m m'"
proof -
  have "- region (p + 48) n \<inter> region (p + numeral k) 4 = {}" using cell_in_frame [OF assms, of p] by auto
  from store32_same [OF this, of m' w] show ?thesis by (auto simp: same_on_def)
qed

lemma five_or_six:
  assumes "length ws \<in> {5, 6}"
  obtains a b c d e where "ws = [a, b, c, d, e]" | a b c d e f where "ws = [a, b, c, d, e, f]"
  using assms by (auto simp: length_Suc_conv eval_nat_numeral)

lemma pushed_same:
  assumes "length ws \<in> {5, 6}"
  shows "same_on (- region (p + 48) (4 * length ws)) m (pushed p ws m)"
  using assms by (cases rule: five_or_six) (simp_all add: pushed_five pushed_six store32_in_frame)

text \<open>What the handler is called with, and that the stub stops when the handler does.\<close>

lemma exec_common_exc:
  assumes "length ws \<in> {5, 6}"
  shows "\<exists>c m. exception_frame x (take 5 ws) c \<and> same_on (- region (p + 4) (44 + 4 * length ws)) (ram x) m \<and>
    (\<forall>s. default_exc_handler (prints E) c \<lparr>con = con x,
        intr = (intr x)\<lparr>flags := gate_flags (idt (intr x) ! v) (flags (intr x)) AND NOT DF_FLAG\<rparr>, ram = m\<rparr> = Some (Halted s) \<longrightarrow>
      exec E (24 + k) COMMON_EXC (at_common_exc v ws p x) = Stopped s)"
proof -
  define y where "y = at_common_exc v ws p x"
  let ?a = "at_call E Default_exc_handler p y"
  let ?m = "saved E Default_exc_handler p y"
  let ?c = "load_exception_context ?m (p + 12)"
  have y: "gpr y ESP = p + 48" "r \<noteq> ESP \<Longrightarrow> gpr y r = gpr x r" "seg y ES = seg x ES" "seg y DS = seg x DS" "ram y = pushed p ws (ram x)" for r
    by (simp_all add: y_def at_common_exc_def)
  have "map (load32 (pushed p ws (ram x))) [p + 48, p + 52, p + 56, p + 60, p + 64] = take 5 ws"
    using assms by (cases rule: five_or_six) (simp_all add: pushed_five pushed_six cell_simps)
  then have c: "exception_frame x (take 5 ws) ?c"
    unfolding exception_frame_def load_exception_context_def offset_context by (simp add: saved_cells saved_above y)
  have m: "same_on (- region (p + 4) (44 + 4 * length ws)) (ram x) ?m"
  proof (rule same_on_trans)
    have split: "region (p + 4) (44 + 4 * length ws) = region (p + 4) 44 \<union> region (p + 48) (4 * length ws)"
      using region_add [of "p + 4" 44 "4 * length ws"] by (simp add: add.commute [of p])
    show "same_on (- region (p + 4) (44 + 4 * length ws)) (ram x) (ram y)"
      unfolding y(5) by (rule same_on_subset [OF pushed_same [OF assms]]) (simp add: split)
    show "same_on (- region (p + 4) (44 + 4 * length ws)) (ram y) ?m" by (rule same_on_subset [OF saved_same]) (simp add: split)
  qed
  have tr: "kmachine.truncate ?a = \<lparr>con = con x, intr = (intr x)\<lparr>flags := gate_flags (idt (intr x) ! v) (flags (intr x)) AND NOT DF_FLAG\<rparr>, ram = ?m\<rparr>"
    by (simp add: at_call_def kmachine.truncate_def y_def at_common_exc_def)
  have arg: "load_exception_context (ram ?a) (load32 (ram ?a) (gpr ?a ESP + 4)) = ?c"
  proof -
    have "ram ?a = ?m" "gpr ?a ESP = p + 4" by (simp_all add: at_call_def)
    then show ?thesis by (simp only: four_up saved_cells)
  qed
  have "exec E (24 + k) COMMON_EXC y = Stopped s" if "default_exc_handler (prints E) ?c (kmachine.truncate ?a) = Some (Halted s)" for s
    using exec_save [OF y(1), of E "12 + k" Default_exc_handler "restore_regs 8"] that
    by (simp add: common_blocks) (simp only: call_c.simps arg, simp)
  then show ?thesis using c m unfolding tr y_def [symmetric] by blast
qed

lemma literal_kept: "literal_at P m p u \<Longrightarrow> same_on (region p (Suc (length u))) m m' \<Longrightarrow> literal_at P m' p u"
  by (simp add: literal_at_def cstr_same)

definition message_cells :: "print_image \<Rightarrow> nat \<Rightarrow> footprint" where
  "message_cells P n =
     [(lit_panic P, Suc (length panic_text)), (lit_bug P, Suc (length bug_format)), (lit_exception P, Suc (length exception_format)),
      (lit_true P, Suc (length (asc ''true''))), (lit_file P, Suc n)]"

lemma messages_kept:
  assumes "printable P m" "literal_at P m (lit_file P) fu" "clear_of A (message_cells P (length fu))" "same_on (- A) m m'"
  shows "printable P m'" "literal_at P m' (lit_file P) fu"
proof -
  have kept: "same_on (region p n) m m'" if "(p, n) \<in> set (message_cells P (length fu))" for p n
    using assms(3) that by (intro same_on_subset [OF assms(4)]) (auto simp: clear_of_def)
  then show "literal_at P m' (lit_file P) fu" by (intro literal_kept [OF assms(2)]) (simp add: message_cells_def)
  have "literal_at P m' p u" if "literal_at P m p u" "(p, Suc (length u)) \<in> set (message_cells P (length fu))" for p u
    by (rule literal_kept [OF that(1) kept [OF that(2)]])
  then show "printable P m'" using assms(1) by (simp add: printable_def message_cells_def)
qed

section \<open>Properties\<close>

lemma idt_table_offsets:
  assumes "v < 256"
  shows "gate_offset (idt_table L ! v) =
    (if v < 16 then exc_stub L ! v else if v < 32 then exc_unhand L else if v < 48 then irq_stub L ! (v - 32) else irq_unhand L)"
proof -
  consider "v < 16" | "16 \<le> v" "v < 32" | "32 \<le> v" "v < 48" | "48 \<le> v" by linarith
  then show ?thesis by cases (use assms in \<open>auto simp: idt_table_def nth_append\<close>)
qed

text \<open>From the gate of an exception to \<open>COMMON_EXC\<close>, with the words that are on the stack there.\<close>

lemma exception_entered:
  assumes "stubs_linked L" "length (idt s0) = 256" "idt (intr x) = idt (idt_init L s0)" "v < 32"
    "err = (if pushes_error_code v then Some e else None)" "n = (if v < 16 then of_nat v else 9)"
    "d = (if misses_error_code v then 68 else 64)"
  obtains ws p k where "length ws \<in> {5, 6}" "44 + 4 * length ws = d" "gpr x ESP - of_nat d = p + 4" "hd ws = n"
    "take_interrupt E L v err x = exec E (24 + k) COMMON_EXC (at_common_exc v ws p x)"
    "exception_frame x (take 5 ws) = (if misses_error_code v then misread x n e else excepted x n (case err of None \<Rightarrow> 0 | Some e \<Rightarrow> e))"
proof -
  have t: "idt (intr x) = idt_table L" using assms(3) by (simp add: idt_init_eq [OF assms(2)])
  let ?b = "code_at L (gate_offset (idt (intr x) ! v))"
  have low: "?b = exc_stubs ! v" if "v < 16" using that assms(1) idt_table_offsets [of v L] by (simp add: t code_at_stubs)
  have high: "?b = EXCEPTION_NOCODE n" if "\<not> v < 16"
    using that assms(1,4,6) idt_table_offsets [of v L] by (simp add: t code_at_stubs exc_unhand_stub_def)
  show thesis
  proof (cases "misses_error_code v")
    case True
    then have v: "\<not> v < 16" "err = Some e" "d = 68" using assms(5,7) by (auto simp: misses_error_code_def pushes_error_code_def)
    let ?p = "gpr x ESP - 72" and ?ws = "[n, 0, e, pc x, ucast (seg x CS), flags (intr x)]"
    have "exec E 27 (EXCEPTION_NOCODE n) (deliver v (Some e) x) = exec E (24 + 0) COMMON_EXC (at_common_exc v ?ws ?p x)"
      by (rule deliver_exc_misread) simp
    then show thesis
      using that [of ?ws ?p 0] v high True by (simp add: take_interrupt_def fun_eq_iff misread_def)
  next
    case False
    define e' where "e' = (case err of None \<Rightarrow> 0 | Some e \<Rightarrow> e)"
    let ?p = "gpr x ESP - 68" and ?ws = "[n, e', pc x, ucast (seg x CS), flags (intr x)]"
    have "?b = EXCEPTION n \<and> err = Some e' \<or> ?b = EXCEPTION_NOCODE n \<and> err = None \<and> e' = 0"
      using low high assms(4,5,6) False
      by (cases "v < 16") (auto simp: exc_stubs_nth e'_def pushes_error_code_def misses_error_code_def)
    then obtain k where "exec E 27 ?b (deliver v err x) = exec E (24 + k) COMMON_EXC (at_common_exc v ?ws ?p x)"
      using deliver_exc [of ?b n err e' x ?p E v] by auto
    then show thesis
      using that [of ?ws ?p k] False assms(7) by (simp add: take_interrupt_def fun_eq_iff excepted_def e'_def)
  qed
qed

text \<open>
  C12. Interrupts are transparent: with the gates \<open>idt_init\<close> sets, an interrupt on line \<open>i\<close> calls
  \<open>default_irq_handler\<close> with the number \<open>i\<close> and a context that holds every register, segment and
  flag of the interrupted program. When the handler returns, whatever it left in the scratch registers
  and below its stack frame, the program continues where it was with every register, segment and
  flag as before; of the memory only cells below its stack pointer have changed. A fault of the handler is the outcome.
\<close>

theorem interrupt_transparent:
  assumes "stubs_linked L" "length (idt s0) = 256" "idt (intr x) = idt (idt_init L s0)" "i < 16" "stack_used E + 100 \<le> 2 ^ 32"
  shows "\<exists>c. interrupted x (of_nat i) c \<and>
    (case default_irq_handler (devices E) (handlers E) c
            ((intr x)\<lparr>flags := (flags (intr x) AND NOT GATE_CLEARS) AND NOT DF_FLAG\<rparr>) of
       Inl e \<Rightarrow> take_interrupt E L (32 + i) None x = IrqFault e
     | Inr s \<Rightarrow> \<exists>m'. take_interrupt E L (32 + i) None x = Resumed (x\<lparr>intr := s\<lparr>flags := flags (intr x)\<rparr>, ram := m'\<rparr>) \<and>
         same_on (- entry_cells E (gpr x ESP) 60) (ram x) m')"
proof -
  have t: "idt (intr x) = idt_table L" using assms(3) by (simp add: idt_init_eq [OF assms(2)])
  have code: "code_at L (gate_offset (idt (intr x) ! (32 + i))) = INTERRUPT (of_nat i)"
    using assms(1,4) idt_table_offsets [of "32 + i" L] by (simp add: t code_at_stubs irq_stubs_nth)
  have "attribs (idt (intr x) ! (32 + i)) = TRAP_GATE"
    using assms(4) by (simp add: t idt_table_def nth_append gate_def)
  moreover have "TRAP_GATE \<noteq> INT_GATE" by (simp add: TRAP_GATE_def INT_GATE_def PRESENT_def)
  ultimately have "gate_flags (idt (intr x) ! (32 + i)) f = f AND NOT GATE_CLEARS" for f by (simp add: gate_flags_def)
  then show ?thesis using enter_irq [of L x "32 + i" "of_nat i" E, OF code assms(5)] by simp
qed

definition demo_stub_env :: stub_env where
  "demo_stub_env = \<lparr>seg_wide = False, ret_addr = (\<lambda>_. 0x100000), stack_used = 64, clobbered = (\<lambda>_ _. 0xdeadbeef), leftover = (\<lambda>_ _. 0xff),
     devices = (\<lambda>_ _. 0), handlers = (\<lambda>_ _. Inr), prints = demo_print_image\<rparr>"

definition demo_cpu :: cpu where
  "demo_cpu = kmachine.extend (demo_machine\<lparr>intr := (irq_boot demo_irq_image 0x202)\<lparr>idt := idt (idt_init demo_irq_image (irq_boot demo_irq_image 2))\<rparr>\<rparr>)
     \<lparr>gpr = (\<lambda>r. if r = ESP then 0x9000 else 7), seg = (\<lambda>s. if s = CS then 0x10 else 8), pc = 0x100040\<rparr>"

lemma demo_linked: "stubs_linked demo_irq_image"
  by (simp add: stubs_linked_def demo_irq_image_def upt_rec)

lemma demo_cpu_fields:
  "idt (intr demo_cpu) = idt (idt_init demo_irq_image (irq_boot demo_irq_image 2))" "ram demo_cpu = ram demo_machine"
  "con demo_cpu = demo_console" "gpr demo_cpu ESP = 0x9000" "prints demo_stub_env = demo_print_image" "stack_used demo_stub_env = 64"
  "irq_mask (intr demo_cpu) = 0xffff" "irq_handler (intr demo_cpu) = replicate 16 0x100400" "flags (intr demo_cpu) = 0x202"
  by (simp_all add: demo_cpu_def demo_stub_env_def kmachine.extend_def demo_machine_def irq_boot_def demo_irq_image_def)

lemma trivial_handler:
  assumes "unat (irq c) < 16" "length (irq_handler s) = 16" "irq_handler s ! unat (irq c) \<noteq> NULL"
  shows "\<exists>s'. default_irq_handler dev (\<lambda>_ _. Inr) c s = Inr s'"
proof -
  obtain s1 where s1: "mask_and_ack_irq dev (irq c) s = Inr s1" "irq_handler s1 = irq_handler s"
    using mask_and_ack_irq_ok [OF assms(1), of dev s] by metis
  moreover have "irq c < IRQ_NR" using assms(1) by (simp add: word_less_nat_alt IRQ_NR_def)
  moreover have "\<exists>s'. pic_enable_irq (ucast (irq c)) s1 = Inr s'"
    using pic.on_line [of "ucast (irq c)" s1] assms(1) by (auto simp: irq_small_ucast)
  ultimately show ?thesis using assms by (simp add: default_irq_handler_def call_handler_def end_of_irq_def)
qed

theorem interrupt_transparent_witness:
  "\<exists>s m'. take_interrupt demo_stub_env demo_irq_image 33 None demo_cpu = Resumed (demo_cpu\<lparr>intr := s, ram := m'\<rparr>) \<and>
     same_on (region 0x9000 0x1000) (ram demo_cpu) m'"
proof -
  have stack: "stack_used demo_stub_env + 100 \<le> 2 ^ 32" by (simp add: demo_cpu_fields)
  obtain c where c: "interrupted demo_cpu (of_nat 1) c"
    "case default_irq_handler (devices demo_stub_env) (handlers demo_stub_env) c
            ((intr demo_cpu)\<lparr>flags := (flags (intr demo_cpu) AND NOT GATE_CLEARS) AND NOT DF_FLAG\<rparr>) of
       Inl e \<Rightarrow> take_interrupt demo_stub_env demo_irq_image (32 + 1) None demo_cpu = IrqFault e
     | Inr s \<Rightarrow> \<exists>m'. take_interrupt demo_stub_env demo_irq_image (32 + 1) None demo_cpu =
           Resumed (demo_cpu\<lparr>intr := s\<lparr>flags := flags (intr demo_cpu)\<rparr>, ram := m'\<rparr>) \<and>
         same_on (- entry_cells demo_stub_env (gpr demo_cpu ESP) 60) (ram demo_cpu) m'"
    using interrupt_transparent [OF demo_linked _ demo_cpu_fields(1) _ stack, of 1] by auto
  have i: "irq c = 1" using c(1) by (simp add: interrupted_def)
  let ?s = "(intr demo_cpu)\<lparr>flags := (flags (intr demo_cpu) AND NOT GATE_CLEARS) AND NOT DF_FLAG\<rparr>"
  have "\<exists>s'. default_irq_handler (devices demo_stub_env) (\<lambda>_ _. Inr) c ?s = Inr s'"
    by (rule trivial_handler) (simp_all add: i demo_cpu_fields NULL_def)
  then have "\<exists>s'. default_irq_handler (devices demo_stub_env) (handlers demo_stub_env) c ?s = Inr s'" by (simp add: demo_stub_env_def)
  then obtain m' s where "take_interrupt demo_stub_env demo_irq_image 33 None demo_cpu = Resumed (demo_cpu\<lparr>intr := s, ram := m'\<rparr>)"
    "same_on (- entry_cells demo_stub_env (gpr demo_cpu ESP) 60) (ram demo_cpu) m'"
    using c(2) by auto
  moreover have "region 0x9000 0x1000 \<subseteq> - entry_cells demo_stub_env (gpr demo_cpu ESP) 60"
    by (auto simp: entry_cells_def demo_cpu_fields region_nowrap)
  ultimately show ?thesis using same_on_subset by blast
qed

text \<open>
  C16. Exceptions are reported: with the gates \<open>idt_init\<close> sets, and the error codes the processor is documented
  to push, an exception calls \<open>default_exc_handler\<close> with a context that holds every register of the interrupted program;
  the kernel prints the exception number, the failed assertion and the panic message and stops with the
  interrupts off. The number is the vector below 16 and always 9 for the vectors from 16 to 31. The context
  also holds the error code, zero where the processor gives none, and the place of the exception; but not on the
  vectors 17, 21, 29 and 30, whose stub does not expect the error code: there the handler reads it as the
  instruction pointer, the instruction pointer as the code segment and the code segment as the flags.
\<close>

theorem exception_reported:
  assumes "stubs_linked L" "length (idt s0) = 256" "idt (intr x) = idt (idt_init L s0)" "v < 32"
    "err = (if pushes_error_code v then Some e else None)" "n = (if v < 16 then of_nat v else 9)"
    "d = (if misses_error_code v then 68 else 64)"
    "console_wf (con x)" "printable (prints E) (ram x)" "literal_at (prints E) (ram x) (lit_file (prints E)) fu" "length fu \<le> 890"
    "clear_of (region (gpr x ESP - of_nat d) d) (message_cells (prints E) (length fu))"
  shows "\<exists>c k s'. (if misses_error_code v then misread x n e c else excepted x n (case err of None \<Rightarrow> 0 | Some e \<Rightarrow> e) c) \<and>
    default_exc_handler (prints E) c k = Some (Halted s') \<and>
    con k = con x \<and> same_on (- region (gpr x ESP - of_nat d) d) (ram x) (ram k) \<and> take_interrupt E L v err x = Stopped s' \<and> console_wf (con s') \<and>
    console_abs (con s') = fold term_put (exception_text n @ bug_text (asc ''true'') fu 79 @ panic_text) (console_abs (con x)) \<and>
    \<not> bit (flags (intr s')) 9"
proof -
  obtain ws p k where ws: "length ws \<in> {5, 6}" "44 + 4 * length ws = d" "gpr x ESP - of_nat d = p + 4" "hd ws = n"
    "take_interrupt E L v err x = exec E (24 + k) COMMON_EXC (at_common_exc v ws p x)"
    "exception_frame x (take 5 ws) = (if misses_error_code v then misread x n e else excepted x n (case err of None \<Rightarrow> 0 | Some e \<Rightarrow> e))"
    by (rule exception_entered [OF assms(1-7)])
  let ?i = "(intr x)\<lparr>flags := gate_flags (idt (intr x) ! v) (flags (intr x)) AND NOT DF_FLAG\<rparr>"
  obtain c m where cm: "exception_frame x (take 5 ws) c" "same_on (- region (p + 4) (44 + 4 * length ws)) (ram x) m"
    "\<forall>s. default_exc_handler (prints E) c \<lparr>con = con x, intr = ?i, ram = m\<rparr> = Some (Halted s) \<longrightarrow>
       exec E (24 + k) COMMON_EXC (at_common_exc v ws p x) = Stopped s"
    using exec_common_exc [OF ws(1), of x p E v k] by blast
  have same: "same_on (- region (gpr x ESP - of_nat d) d) (ram x) m" using cm(2) unfolding ws(2,3) .
  note kept = messages_kept [OF assms(9,10,12) same]
  obtain s' where s': "default_exc_handler (prints E) c \<lparr>con = con x, intr = ?i, ram = m\<rparr> = Some (Halted s')" "console_wf (con s')"
    "console_abs (con s') = fold term_put (exception_text (x_exc c) @ bug_text (asc ''true'') fu 79 @ panic_text) (console_abs (con x))"
    "intr s' = irq_disable ?i"
    using default_exc_handler_ok [of "\<lparr>con = con x, intr = ?i, ram = m\<rparr>" "prints E" fu c] assms(8,11) kept by auto
  have "x_exc c = hd (take 5 ws)" using cm(1) unfolding exception_frame_def by (metis list.sel(1))
  then have "x_exc c = n" using ws(4) by (simp add: hd_take)
  moreover have "\<not> bit (flags (intr s')) 9" using s'(4) by (simp add: irq_disable_def IF_FLAG_def bit_simps)
  moreover have "take_interrupt E L v err x = Stopped s'" using cm(3) s'(1) ws(5) by simp
  moreover have "if misses_error_code v then misread x n e c else excepted x n (case err of None \<Rightarrow> 0 | Some e \<Rightarrow> e) c"
    using cm(1) unfolding ws(6) by (simp split: if_splits)
  ultimately show ?thesis using s' same by (intro exI [of _ c] exI [of _ "\<lparr>con = con x, intr = ?i, ram = m\<rparr>"] exI [of _ s']) simp
qed

theorem exception_reported_witness:
  "\<exists>s' s''. take_interrupt demo_stub_env demo_irq_image 13 (Some 5) demo_cpu = Stopped s' \<and>
     console_abs (con s') = fold term_put (exception_text 13 @ bug_text (asc ''true'') (asc ''a.c'') 79 @ panic_text) (console_abs demo_console) \<and>
     take_interrupt demo_stub_env demo_irq_image 17 (Some 0) demo_cpu = Stopped s'' \<and>
     console_abs (con s'') = fold term_put (exception_text 9 @ bug_text (asc ''true'') (asc ''a.c'') 79 @ panic_text) (console_abs demo_console)"
proof -
  have len: "length (asc ''a.c'') \<le> 890" by (simp add: asc_def)
  have clear: "clear_of (region (gpr demo_cpu ESP - of_nat (if b then 68 else 64)) (if b then 68 else 64))
      (message_cells (prints demo_stub_env) (length (asc ''a.c'')))" for b
    by (cases b) (auto simp: message_cells_def demo_cpu_fields demo_print_image_def region_nowrap asc_def panic_text_def bug_format_def exception_format_def)
  have print: "printable (prints demo_stub_env) (ram demo_cpu)" "literal_at (prints demo_stub_env) (ram demo_cpu) (lit_file (prints demo_stub_env)) (asc ''a.c'')"
    using demo_printable by (simp_all add: demo_cpu_fields)
  have con: "console_wf (con demo_cpu)" by (simp add: demo_cpu_fields demo_console_wf)
  note rep = exception_reported [OF demo_linked _ demo_cpu_fields(1) _ refl refl refl con print len clear]
  have "\<exists>s'. take_interrupt demo_stub_env demo_irq_image 13 (Some 5) demo_cpu = Stopped s' \<and>
     console_abs (con s') = fold term_put (exception_text 13 @ bug_text (asc ''true'') (asc ''a.c'') 79 @ panic_text) (console_abs demo_console)"
    using rep [of 13 5] by (auto simp: demo_cpu_fields pushes_error_code_def)
  moreover have "\<exists>s'. take_interrupt demo_stub_env demo_irq_image 17 (Some 0) demo_cpu = Stopped s' \<and>
     console_abs (con s') = fold term_put (exception_text 9 @ bug_text (asc ''true'') (asc ''a.c'') 79 @ panic_text) (console_abs demo_console)"
    using rep [of 17 0] by (auto simp: demo_cpu_fields pushes_error_code_def)
  ultimately show ?thesis by blast
qed

text \<open>
  C29. The interrupts nothing handles, from the vector on: with the gates \<open>idt_init\<close> sets, every vector from 48 to 255
  reaches \<open>default_irq_handler\<close> with the number 0xff, which shifts 1 by 255, an undefined shift, before it can
  reach \<open>unhandled_interrupt\<close>. On the vector of a line that still has the handler \<open>unhandled_interrupt\<close> of the
  table, whatever the controller reports, so also for a spurious interrupt, the kernel ends in the \<open>BUG_ON(true)\<close> of that function;
  \<open>uninstall_interrupt_handler\<close> succeeds on every line, and on the vector of the line the kernel then calls address 0.
\<close>

theorem unhandled_vectors:
  assumes "stubs_linked L" "length (idt s0) = 256" "idt (intr x) = idt (idt_init L s0)" "length (irq_handler (intr x)) = 16"
    "stack_used E + 100 \<le> 2 ^ 32" "48 \<le> v" "v < 256" "i < 16"
  shows "take_interrupt E L v None x = IrqFault (UNDEFINED_SHIFT 255) \<and>
    (irq_handler (intr x) ! i \<noteq> NULL \<and> handlers E (irq_handler (intr x) ! i) = unhandled_interrupt \<longrightarrow>
       take_interrupt E L (32 + i) None x = IrqFault (BUG_TRUE 67)) \<and>
    (\<exists>s'. uninstall_interrupt_handler (of_nat i) (intr x) = Inr (0, s') \<and>
       take_interrupt E L (32 + i) None (x\<lparr>intr := s'\<rparr>) = IrqFault NULL_CALL)"
proof (intro conjI impI)
  have num: "unat (of_nat i :: u32) = i" using assms(8) by (simp add: unat_of_nat take_bit_nat_eq_self)
  have t: "idt (intr x) = idt_table L" using assms(3) by (simp add: idt_init_eq [OF assms(2)])
  have "code_at L (gate_offset (idt (intr x) ! v)) = INTERRUPT 0xff"
    using assms(1,6,7) idt_table_offsets [of v L] by (simp add: t code_at_stubs irq_unhand_stub_def)
  from enter_irq [OF this assms(5)] show "take_interrupt E L v None x = IrqFault (UNDEFINED_SHIFT 255)"
    by (auto simp: interrupted_def default_irq_handler_shift)
  have code: "code_at L (gate_offset (idt (intr y) ! (32 + i))) = INTERRUPT (of_nat i)" if "idt (intr y) = idt (intr x)" for y :: cpu
    using that assms(1,8) idt_table_offsets [of "32 + i" L] by (simp add: t code_at_stubs irq_stubs_nth)
  have line: "take_interrupt E L (32 + i) None y = IrqFault e"
    if "idt (intr y) = idt (intr x)"
      "\<And>c f. irq c = of_nat i \<Longrightarrow> default_irq_handler (devices E) (handlers E) c ((intr y)\<lparr>flags := f\<rparr>) = Inl e" for y e
    using enter_irq [OF code [OF that(1)] assms(5)] that(2) by (auto simp: interrupted_def)
  show "take_interrupt E L (32 + i) None x = IrqFault (BUG_TRUE 67)"
    if "irq_handler (intr x) ! i \<noteq> NULL \<and> handlers E (irq_handler (intr x) ! i) = unhandled_interrupt"
    using that assms(4,8) by (intro line default_irq_handler_unhandled) (auto simp: num)
  obtain s' where s': "uninstall_interrupt_handler (of_nat i) (intr x) = Inr (0, s')"
    "irq_handler s' = (irq_handler (intr x))[i := NULL]" "idt s' = idt (intr x)"
    using uninstall_interrupt_handler_eq [of "of_nat i" "intr x"] assms(4,8) by (auto simp: num)
  have "take_interrupt E L (32 + i) None (x\<lparr>intr := s'\<rparr>) = IrqFault NULL_CALL"
    using s'(2,3) assms(4,8) by (intro line default_irq_handler_null) (auto simp: num)
  then show "\<exists>s'. uninstall_interrupt_handler (of_nat i) (intr x) = Inr (0, s') \<and>
      take_interrupt E L (32 + i) None (x\<lparr>intr := s'\<rparr>) = IrqFault NULL_CALL"
    using s'(1) by blast
qed

theorem unhandled_vectors_witness:
  "take_interrupt (demo_stub_env\<lparr>handlers := \<lambda>_. unhandled_interrupt\<rparr>) demo_irq_image 128 None demo_cpu = IrqFault (UNDEFINED_SHIFT 255) \<and>
   take_interrupt (demo_stub_env\<lparr>handlers := \<lambda>_. unhandled_interrupt\<rparr>) demo_irq_image 39 None demo_cpu = IrqFault (BUG_TRUE 67)"
  using unhandled_vectors [OF demo_linked _ demo_cpu_fields(1), of "demo_stub_env\<lparr>handlers := \<lambda>_. unhandled_interrupt\<rparr>" 128 7]
  by (simp add: demo_cpu_fields NULL_def)

end
