(* ===== verification/NestedIrq.thy ===== *)
theory NestedIrq
  imports EntryStubs
begin

text \<open>
  Timer interrupts that arrive while the stub of an earlier one runs (\<open>kernel/irq.S\<close>). The gates of
  the interrupt lines are trap gates, so the interrupt flag stays set inside a stub and the processor
  may take the next interrupt before any of its instructions. An arrival is a tree: the address of the
  instruction it interrupts and, for every instruction of its own stub, the arrivals before it. The
  theory runs such trees and shows that every interrupted stub still hands back the program it
  interrupted, with a bound on the stack the nesting uses. The calls of the C handlers are single steps
  here, as in the theory EntryStubs: arrivals inside a C function are not modelled.
\<close>

section \<open>Running a stub with arrivals\<close>

datatype arrivals = Arrivals u32 "arrivals list list"

text \<open>The arrivals at one instruction boundary, each with the address of the instruction. They are
  taken while the interrupt flag is set and must come back to that address.\<close>

fun take_all :: "(u32 \<times> (cpu \<Rightarrow> stub_run)) list \<Rightarrow> cpu \<Rightarrow> stub_run" where
  "take_all [] x = Resumed x"
| "take_all ((a, h) # hs) x =
     (if bit (flags (intr x)) 9 then
        (case h (x\<lparr>pc := a\<rparr>) of
           Resumed y \<Rightarrow> if pc y = a then take_all hs (y\<lparr>pc := pc x\<rparr>) else Stuck
         | r \<Rightarrow> r)
      else Resumed x)"

fun exec_with :: "stub_env \<Rightarrow> (u32 \<times> (cpu \<Rightarrow> stub_run)) list list \<Rightarrow> nat \<Rightarrow> instr list \<Rightarrow> cpu \<Rightarrow> stub_run" where
  "exec_with E hss 0 b x = Stuck"
| "exec_with E hss (Suc n) [] x = Stuck"
| "exec_with E hss (Suc n) (i # b) x =
     (case take_all (if hss = [] then [] else hd hss) x of
        Resumed x0 \<Rightarrow>
          (let x' = step E i x0 in
           case i of
             JMP l \<Rightarrow> exec_with E (tl hss) n (block l) x'
           | IRETL \<Rightarrow> Resumed x'
           | CALL f \<Rightarrow> (case call_c E f x' of Inl r \<Rightarrow> r | Inr x'' \<Rightarrow> exec_with E (tl hss) n b x'')
           | _ \<Rightarrow> exec_with E (tl hss) n b x')
      | r \<Rightarrow> r)"

primrec resume_at :: "arrivals \<Rightarrow> u32" where
  "resume_at (Arrivals a ass) = a"

primrec take_nested :: "stub_env \<Rightarrow> kernel_image \<Rightarrow> arrivals \<Rightarrow> cpu \<Rightarrow> stub_run" where
  "take_nested E L (Arrivals a ass) = (\<lambda>x.
     exec_with E (map (map (\<lambda>t. (resume_at t, take_nested E L t))) ass) 27
       (code_at L (gate_offset (idt (intr x) ! 32))) (deliver 32 None x))"

primrec nesting :: "arrivals \<Rightarrow> nat" where
  "nesting (Arrivals a ass) = Suc (Max (set (0 # concat (map (map nesting) ass))))"


text \<open>The stack a tree of arrivals needs: for each level the 60 bytes of the stub and what the C handler uses.\<close>

definition nested_stack :: "stub_env \<Rightarrow> arrivals \<Rightarrow> nat" where
  "nested_stack E t = nesting t * (stack_used E + 60)"

text \<open>With no arrivals the stub runs as it does alone.\<close>

lemma exec_with_none: "exec_with E [] n b x = exec E n b x"
  by (induction E n b x rule: exec.induct) (simp_all add: Let_def split: instr.split sum.split)

lemma take_nested_none: "take_nested E L (Arrivals a []) x = take_interrupt E L 32 None x"
  by (simp add: exec_with_none take_interrupt_def)

section \<open>Transparent handlers\<close>

text \<open>A handler that is transparent above \<open>lo\<close>, entered with \<open>d\<close> bytes of stack or more, gives back the program it
  interrupts; of the memory it changes only cells between \<open>lo\<close> and the stack pointer.\<close>

definition transparent :: "kernel_image \<Rightarrow> addr \<Rightarrow> nat \<Rightarrow> (cpu \<Rightarrow> stub_run) \<Rightarrow> bool" where
  "transparent L lo d h \<longleftrightarrow> (\<forall>x k. irq_ready L (intr x) \<longrightarrow> gpr x ESP = lo + of_nat k \<longrightarrow> d \<le> k \<longrightarrow> k + 40 \<le> 2 ^ 32 \<longrightarrow>
     (\<exists>s m. h x = Resumed (x\<lparr>intr := s, ram := m\<rparr>) \<and> irq_ready L s \<and> flags s = flags (intr x) \<and>
        same_on (- region lo k) (ram x) m))"

definition calm :: "kernel_image \<Rightarrow> addr \<Rightarrow> nat \<Rightarrow> (u32 \<times> (cpu \<Rightarrow> stub_run)) list list \<Rightarrow> bool" where
  "calm L lo d hss \<longleftrightarrow> (\<forall>hs \<in> set hss. \<forall>(a, h) \<in> set hs. transparent L lo d h)"

lemma calm_tl: "calm L lo d hss \<Longrightarrow> calm L lo d (tl hss)"
  by (cases hss) (simp_all add: calm_def)

lemma calm_drop: "calm L lo d hss \<Longrightarrow> calm L lo d (drop n hss)"
  unfolding calm_def using set_drop_subset by fastforce

text \<open>Two runs of a stub that agree on everything but the interrupt state and the memory between \<open>lo\<close> and the
  stack pointer, \<open>k\<close> bytes above it, and on \<open>W\<close>: the upper halves of the cells of segment registers.\<close>

definition agree :: "kernel_image \<Rightarrow> addr set \<Rightarrow> addr \<Rightarrow> nat \<Rightarrow> cpu \<Rightarrow> cpu \<Rightarrow> bool" where
  "agree L W lo k x y \<longleftrightarrow> gpr x = gpr y \<and> seg x = seg y \<and> pc x = pc y \<and> con x = con y \<and> irq_ready L (intr x) \<and>
     gpr y ESP = lo + of_nat k \<and> same_on (- (region lo k \<union> W)) (ram x) (ram y)"

lemma agree_refl: "irq_ready L (intr x) \<Longrightarrow> gpr x ESP = lo + of_nat k \<Longrightarrow> agree L W lo k x x"
  by (simp add: agree_def)

lemma agree_fields:
  assumes "agree L W lo k x y"
  shows "gpr x = gpr y" "seg x = seg y" "pc x = pc y" "con x = con y" "irq_ready L (intr x)"
  using assms by (simp_all add: agree_def)

lemma take_all_agree:
  assumes "\<forall>(a, h) \<in> set hs. transparent L lo d h" "agree L W lo k x y" "d \<le> k" "k + 40 \<le> 2 ^ 32"
  shows "\<exists>x'. take_all hs x = Resumed x' \<and> agree L W lo k x' y"
  using assms(1,2)
proof (induction hs arbitrary: x)
  case (Cons ah hs)
  obtain a h where ah: "ah = (a, h)" by force
  have ready: "irq_ready L (intr (x\<lparr>pc := a\<rparr>))" "gpr (x\<lparr>pc := a\<rparr>) ESP = lo + of_nat k"
    using Cons.prems(2) by (simp_all add: agree_def)
  moreover have "transparent L lo d h" using Cons.prems(1) ah by simp
  ultimately obtain s m where h: "h (x\<lparr>pc := a\<rparr>) = Resumed (x\<lparr>pc := a, intr := s, ram := m\<rparr>)" "irq_ready L s" "same_on (- region lo k) (ram x) m"
    unfolding transparent_def using assms(3,4) by fastforce
  have "agree L W lo k (x\<lparr>pc := pc x, intr := s, ram := m\<rparr>) y"
    using Cons.prems(2) h(2,3) by (simp add: agree_def same_on_def)
  then obtain x' where "take_all hs (x\<lparr>pc := pc x, intr := s, ram := m\<rparr>) = Resumed x'" "agree L W lo k x' y"
    using Cons.IH [of "x\<lparr>pc := pc x, intr := s, ram := m\<rparr>"] Cons.prems(1) by auto
  moreover have "bit (flags (intr x)) 9" using ready(1) by (simp add: irq_ready_def)
  ultimately show ?case using h(1) by (simp add: ah)
qed simp

lemma boundary:
  assumes "calm L lo d hss" "agree L W lo k x y" "d \<le> k" "k + 40 \<le> 2 ^ 32"
  shows "\<exists>x'. take_all (if hss = [] then [] else hd hss) x = Resumed x' \<and> agree L W lo k x' y"
proof -
  have "\<forall>(a, h) \<in> set (if hss = [] then [] else hd hss). transparent L lo d h"
    using assms(1) by (cases hss) (simp_all add: calm_def)
  then show ?thesis by (rule take_all_agree [OF _ assms(2-4)])
qed

section \<open>Instructions that fall through\<close>

fun level :: "instr \<Rightarrow> nat \<Rightarrow> nat" where
  "level (PUSH s) k = k - 4"
| "level (PUSHL r) k = k - 4"
| "level (PUSHLI v) k = k - 4"
| "level (CALL f) k = k - 4"
| "level (POPL r) k = k + 4"
| "level (POP s) k = k + 4"
| "level (ADDL n r) k = k + unat n"
| "level i k = k"

fun keeps :: "addr set \<Rightarrow> addr \<Rightarrow> instr \<Rightarrow> nat \<Rightarrow> bool" where
  "keeps W lo (PUSH s) k \<longleftrightarrow> 4 \<le> k \<and> region (lo + of_nat (k - 2)) 2 \<subseteq> W"
| "keeps W lo (PUSHL r) k \<longleftrightarrow> 4 \<le> k"
| "keeps W lo (PUSHLI v) k \<longleftrightarrow> 4 \<le> k"
| "keeps W lo (CALL f) k \<longleftrightarrow> 4 \<le> k"
| "keeps W lo (POPL r) k \<longleftrightarrow> r \<noteq> ESP \<and> W = {}"
| "keeps W lo (POP s) k \<longleftrightarrow> W = {}"
| "keeps W lo (ADDL n r) k \<longleftrightarrow> r = ESP"
| "keeps W lo IRETL k \<longleftrightarrow> False"
| "keeps W lo i k \<longleftrightarrow> True"

lemma put_bytes_agree:
  assumes "same_on (- (A \<union> region p (length bs))) m m'"
  shows "same_on (- A) (put_bytes p bs m) (put_bytes p bs m')"
  using assms
proof (induction bs arbitrary: p m m')
  case (Cons b bs)
  have "same_on (- (A \<union> region (p + 1) (length bs))) (m(p := b)) (m'(p := b))"
    using Cons.prems by (auto simp: same_on_def region_Suc)
  then show ?case using Cons.IH by simp
qed simp

lemma store32_agree: "same_on (- (A \<union> region p 4)) m m' \<Longrightarrow> same_on (- A) (store32 p v m) (store32 p v m')"
  unfolding store32_put_bytes by (rule put_bytes_agree) (simp add: eval_nat_numeral)

lemma store16_agree: "same_on (- (A \<union> region p 2)) m m' \<Longrightarrow> same_on (- A) (store16 p v m) (store16 p v m')"
  unfolding store16_put_bytes by (rule put_bytes_agree) (simp add: eval_nat_numeral)

lemma region_top: "4 \<le> k \<Longrightarrow> region lo k = region lo (k - 4) \<union> region (lo + of_nat (k - 4)) 4"
  using region_add [of lo "k - 4" 4] by simp

lemma agree_push:
  assumes "agree L W lo k x y" "4 \<le> k"
  shows "agree L W lo (k - 4) (push32 v x) (push32 v y)"
proof -
  define q where "q = lo + of_nat (k - 4)"
  have sp: "gpr y ESP - 4 = q" using assms by (simp add: agree_def q_def of_nat_diff)
  have "same_on (- (region lo (k - 4) \<union> W)) (store32 q v (ram x)) (store32 q v (ram y))"
    using assms(1) by (intro store32_agree) (simp add: agree_def region_top [OF assms(2)] q_def ac_simps)
  then show ?thesis
    unfolding agree_def push32_def Let_def using agree_fields [OF assms(1)] by (simp add: sp q_def [symmetric])
qed

lemma agree_push_seg:
  assumes "agree L W lo k x y" "4 \<le> k" "region (lo + of_nat (k - 2)) 2 \<subseteq> W"
  shows "agree L W lo (k - 4) (push_seg wide v x) (push_seg wide v y)"
proof -
  define q where "q = lo + of_nat (k - 4)"
  have sp: "gpr y ESP - 4 = q" using assms by (simp add: agree_def q_def of_nat_diff)
  have top: "region lo k = region lo (k - 4) \<union> region q 4" using region_top [OF assms(2)] by (simp only: q_def)
  have "q + 2 = lo + of_nat (k - 2)" using assms(2) by (simp add: q_def of_nat_diff)
  then have "region q 4 \<subseteq> region q 2 \<union> W" using region_add [of q 2 2] assms(3) by auto
  then have "same_on (- (region lo (k - 4) \<union> W \<union> region q 2)) (ram x) (ram y)"
    using assms(1) by (auto simp: agree_def top same_on_def)
  then have "same_on (- (region lo (k - 4) \<union> W)) (store16 q v (ram x)) (store16 q v (ram y))" by (rule store16_agree)
  moreover have "same_on (- (region lo (k - 4) \<union> W)) (store32 q (ucast v) (ram x)) (store32 q (ucast v) (ram y))"
    using assms(1) by (intro store32_agree) (simp add: agree_def top ac_simps)
  ultimately show ?thesis
    unfolding agree_def push_seg_def Let_def using agree_fields [OF assms(1)] by (simp add: sp q_def [symmetric])
qed

lemma agree_top:
  assumes "agree L {} lo k x y" "k + j + 4 \<le> 2 ^ 32"
  shows "load32 (ram x) (lo + of_nat (k + j)) = load32 (ram y) (lo + of_nat (k + j))"
proof -
  have "region lo k \<inter> region (lo + of_nat (k + j)) 4 = {}"
    using region_offsets_disjoint [of 0 k "k + j" 4 lo] assms(2) by simp
  then have "a \<notin> region lo k" if "a \<in> region (lo + of_nat (k + j)) 4" for a using that by blast
  then show ?thesis using assms(1) by (intro load32_same) (simp add: agree_def same_on_def)
qed

lemma agree_pop_esp:
  assumes "agree L {} lo k x y" "k + 4 \<le> 2 ^ 32" "load32 (ram y) (gpr y ESP) = lo + of_nat k'" "k \<le> k'"
  shows "agree L {} lo k' (step E (POPL ESP) x) (step E (POPL ESP) y)"
proof -
  have "stack_top x = stack_top y" using agree_top [OF assms(1), of 0] assms(1,2) by (simp add: stack_top_def agree_def)
  then show ?thesis using assms region_mono [OF assms(4), of lo] by (auto simp: agree_def stack_top_def same_on_def)
qed

lemma ready_flags: "irq_ready L s \<Longrightarrow> bit f 9 \<Longrightarrow> irq_ready L (s\<lparr>flags := f\<rparr>)"
  by (simp add: irq_ready_def pic_synced_def irq_master_mask_def irq_slave_mask_def)

lemma agree_step:
  assumes "agree L W lo k x y" "keeps W lo i k" "k + 40 \<le> 2 ^ 32"
  shows "agree L W lo (level i k) (step E i x) (step E i y)"
proof -
  have top: "stack_top x = stack_top y" if "W = {}"
    using agree_top [of L lo k x y 0] assms(1,3) that by (simp add: stack_top_def agree_def)
  have up: "same_on (- region lo (k + n)) (ram x) (ram y)" if "W = {}" for n
    using assms(1) that region_mono [of k "k + n" lo] by (auto simp: agree_def same_on_def)
  have up': "same_on (- (region lo (k + n) \<union> W)) (ram x) (ram y)" for n
    using assms(1) region_mono [of k "k + n" lo] by (auto simp: agree_def same_on_def)
  have a: "gpr x = gpr y" "seg x = seg y" "irq_ready L (intr x)" "gpr y ESP = lo + of_nat k" using assms(1) by (simp_all add: agree_def)
  show ?thesis
  proof (cases i)
    case CLD
    have "bit (flags (intr x) AND NOT DF_FLAG) 9" using a(3) by (simp add: irq_ready_def DF_FLAG_def bit_simps)
    then have "irq_ready L (intr (step E CLD x))" using ready_flags [OF a(3)] by (simp add: set_flags_def)
    then show ?thesis using assms(1) by (simp add: CLD agree_def set_flags_def)
  next
    case (PUSH s)
    then show ?thesis using agree_push_seg [OF assms(1), of "seg_wide E" "seg y s"] assms(2) a(2) by (simp del: of_nat_diff)
  next
    case (POPL r)
    then show ?thesis using assms(1,2) top up [of 4] by (auto simp: agree_def)
  next
    case (POP s)
    then show ?thesis using assms(1,2) top up [of 4] by (simp add: agree_def)
  next
    case (ADDL n r)
    then show ?thesis using assms(1,2) up' [of "unat n"] by (simp add: agree_def)
  qed (use assms agree_push [OF assms(1)] a(1) in simp_all)
qed

fun smooth :: "addr set \<Rightarrow> addr \<Rightarrow> nat \<Rightarrow> instr list \<Rightarrow> nat \<Rightarrow> bool" where
  "smooth W lo d [] k \<longleftrightarrow> True"
| "smooth W lo d (i # c) k \<longleftrightarrow> d \<le> k \<and> k + 40 \<le> 2 ^ 32 \<and> straight i \<and> keeps W lo i k \<and> smooth W lo d c (level i k)"

lemma exec_with_straight:
  assumes "take_all (if hss = [] then [] else hd hss) x = Resumed x'" "straight i"
  shows "exec_with E hss (Suc n) (i # b) x = exec_with E (tl hss) n b (step E i x')"
  using assms by (cases i) (simp_all add: Let_def)

lemma exec_with_iret:
  assumes "take_all (if hss = [] then [] else hd hss) x = Resumed x'"
  shows "exec_with E hss (Suc n) (IRETL # b) x = Resumed (step E IRETL x')"
  using assms by (simp add: Let_def)

lemma exec_with_smooth:
  assumes "calm L lo d hss" "agree L W lo k x y" "smooth W lo d c k"
  shows "\<exists>x'. agree L W lo (fold level c k) x' (fold (step E) c y) \<and>
    exec_with E hss (length c + n) (c @ b) x = exec_with E (drop (length c) hss) n b x'"
  using assms
proof (induction c arbitrary: hss k x y)
  case Nil
  then show ?case by auto
next
  case (Cons i c)
  have i: "d \<le> k" "k + 40 \<le> 2 ^ 32" "straight i" "keeps W lo i k" "smooth W lo d c (level i k)" using Cons.prems(3) by simp_all
  obtain x0 where x0: "take_all (if hss = [] then [] else hd hss) x = Resumed x0" "agree L W lo k x0 y"
    using boundary [OF Cons.prems(1,2) i(1,2)] by blast
  obtain x' where "agree L W lo (fold level c (level i k)) x' (fold (step E) c (step E i y))"
    "exec_with E (tl hss) (length c + n) (c @ b) (step E i x0) = exec_with E (drop (length c) (tl hss)) n b x'"
    using Cons.IH [OF calm_tl [OF Cons.prems(1)] agree_step [OF x0(2) i(4,2)] i(5)] by blast
  then show ?case using exec_with_straight [OF x0(1) i(3)] by (auto simp: drop_Suc)
qed

section \<open>Saving and restoring with arrivals\<close>

definition seg_tops :: "addr \<Rightarrow> addr set" where
  "seg_tops p = region (p + 42) 2 \<union> region (p + 46) 2"

lemma nested_save:
  assumes "calm L lo d hss" "agree L (seg_tops p) lo j x y" "gpr y ESP = p + 48" "d + 44 \<le> j" "j + 40 \<le> 2 ^ 32"
  shows "\<exists>x'. agree L (seg_tops p) lo (j - 44) x' (at_call E f p y) \<and>
    exec_with E hss (12 + n) (save_regs @ PUSHL ESP # CALL f # b) x =
      (case call_c E f x' of Inl r \<Rightarrow> r | Inr x'' \<Rightarrow> exec_with E (drop 12 hss) n b x'')"
proof -
  let ?c = "save_regs @ [PUSHL ESP]"
  have lo: "lo + of_nat j = p + 48" using assms(2,3) by (simp add: agree_def)
  have tops: "region (lo + of_nat (j - 2)) 2 \<subseteq> seg_tops p" "region (lo + of_nat (j - 6)) 2 \<subseteq> seg_tops p"
  proof -
    have "lo + of_nat (j - 2) = p + 46" "lo + of_nat (j - 6) = p + 42"
      using assms(4) lo by (simp_all add: of_nat_diff algebra_simps)
    then show "region (lo + of_nat (j - 2)) 2 \<subseteq> seg_tops p" "region (lo + of_nat (j - 6)) 2 \<subseteq> seg_tops p"
      by (simp_all add: seg_tops_def)
  qed
  have "smooth (seg_tops p) lo d ?c j" using assms(4,5) tops by (simp add: save_regs_def del: of_nat_diff) (intro conjI; linarith)
  moreover have "length ?c = 11" "fold level ?c j = j - 40" by (simp_all add: save_regs_def)
  ultimately obtain x1 where x1: "agree L (seg_tops p) lo (j - 40) x1 (fold (step E) ?c y)"
    "exec_with E hss (11 + Suc n) (?c @ CALL f # b) x = exec_with E (drop 11 hss) (Suc n) (CALL f # b) x1"
    using exec_with_smooth [OF assms(1,2), of ?c E "Suc n" "CALL f # b"] by metis
  obtain x2 where x2: "take_all (if drop 11 hss = [] then [] else hd (drop 11 hss)) x1 = Resumed x2"
    "agree L (seg_tops p) lo (j - 40) x2 (fold (step E) ?c y)"
    using boundary [OF calm_drop [OF assms(1)] x1(1)] assms(4,5) by fastforce
  have "agree L (seg_tops p) lo (j - 44) (step E (CALL f) x2) (at_call E f p y)"
    using agree_step [OF x2(2), of "CALL f" E] assms(4,5) steps_save [OF assms(3), of E f] by simp
  moreover have tl: "tl (drop 11 hss) = drop 12 hss" by (simp add: tl_drop drop_Suc [symmetric])
  moreover have "exec_with E (drop 11 hss) (Suc n) (CALL f # b) x1 =
      (case call_c E f (step E (CALL f) x2) of Inl r \<Rightarrow> r | Inr x'' \<Rightarrow> exec_with E (drop 12 hss) n b x'')"
    using x2(1) tl by (simp add: Let_def del: step.simps split: sum.split)
  ultimately show ?thesis using x1(2) by auto
qed

lemma iret_agree:
  assumes "agree L {} lo k x y" "k + 12 \<le> 2 ^ 32"
  shows "step E IRETL x = (step E IRETL y)\<lparr>intr := (intr x)\<lparr>flags := flags (intr (step E IRETL y))\<rparr>, ram := ram x\<rparr>"
proof -
  have "load32 (ram x) (gpr y ESP + of_nat n) = load32 (ram y) (gpr y ESP + of_nat n)" if "n \<le> 8" for n
    using agree_top [OF assms(1), of n] assms that by (simp add: agree_def add.assoc)
  from this [of 0] this [of 4] this [of 8] show ?thesis
    using agree_fields [OF assms(1)] by (intro cpu.equality) (simp_all add: Let_def set_flags_def)
qed

lemma nested_restore:
  assumes "calm L lo d hss" "irq_ready L (intr x)" "gpr x ESP = p + 8" "p + 8 = lo + of_nat j" "load32 (ram x) (p + 8) = p + 12"
    "d \<le> j" "j + 84 \<le> 2 ^ 32"
  shows "\<exists>s m. exec_with E hss (12 + n) (restore_regs 4) x =
      Resumed ((restored 4 p x)\<lparr>intr := s\<lparr>flags := load32 (ram x) (p + 60)\<rparr>, ram := m\<rparr>) \<and>
    irq_ready L s \<and> same_on (- region lo (j + 44)) (ram x) m"
proof -
  let ?c = "[POPL EDI, POPL ESI, POPL EBP, POPL EBX, POPL EDX, POPL ECX, POPL EAX, POP ES, POP DS, ADDL 4 ESP]"
  obtain x1 where x1: "take_all (if hss = [] then [] else hd hss) x = Resumed x1" "agree L {} lo j x1 x"
    using boundary [OF assms(1) agree_refl [OF assms(2)]] assms(3-7) by fastforce
  have "agree L {} lo (j + 4) (step E (POPL ESP) x1) (step E (POPL ESP) x)"
  proof (rule agree_pop_esp [OF x1(2)])
    have "p + 12 = p + 8 + 4" by simp
    then show "load32 (ram x) (gpr x ESP) = lo + of_nat (j + 4)" using assms(3,4,5) by (simp add: add.assoc)
  qed (use assms(7) in simp_all)
  moreover have "smooth {} lo d ?c (j + 4)" using assms(6,7) by simp
  ultimately obtain x2 where x2: "agree L {} lo (fold level ?c (j + 4)) x2 (fold (step E) ?c (step E (POPL ESP) x))"
    "exec_with E (tl hss) (length ?c + Suc n) (?c @ [IRETL]) (step E (POPL ESP) x1) = exec_with E (drop (length ?c) (tl hss)) (Suc n) [IRETL] x2"
    using exec_with_smooth [OF calm_tl [OF assms(1)]] by blast
  let ?y = "fold (step E) ?c (step E (POPL ESP) x)"
  have lv: "fold level ?c (j + 4) = j + 44" by simp
  obtain x3 where x3: "take_all (if drop (length ?c) (tl hss) = [] then [] else hd (drop (length ?c) (tl hss))) x2 = Resumed x3"
    "agree L {} lo (j + 44) x3 ?y"
    using boundary [OF calm_drop [OF calm_tl [OF assms(1)]] x2(1) [unfolded lv]] assms(6,7) by fastforce
  have y: "step E IRETL ?y = restored 4 p x" using steps_restore [OF assms(3,5), of E 4] unfolding restore_regs_def fold_simps .
  have "exec_with E hss (Suc (length ?c + Suc n)) (POPL ESP # ?c @ [IRETL]) x = Resumed (step E IRETL x3)"
    using exec_with_straight [OF x1(1), of "POPL ESP" E "length ?c + Suc n" "?c @ [IRETL]"] x2(2) exec_with_iret [OF x3(1), of E n]
    by (simp only: straight.simps simp_thms)
  moreover have "Suc (length ?c + Suc n) = 12 + n" "POPL ESP # ?c @ [IRETL] = restore_regs 4" by (simp_all add: restore_regs_def)
  ultimately have run: "exec_with E hss (12 + n) (restore_regs 4) x = Resumed (step E IRETL x3)" by (simp only:)
  have "step E IRETL x3 = (restored 4 p x)\<lparr>intr := (intr x3)\<lparr>flags := flags (intr (restored 4 p x))\<rparr>, ram := ram x3\<rparr>"
    using iret_agree [OF x3(2), of E] assms(7) unfolding y by simp
  moreover have "flags (intr (restored 4 p x)) = load32 (ram x) (p + 60)"
    by (simp add: restored_def set_flags_def add.assoc)
  moreover have "ram ?y = ram x" using arg_cong [OF y, of ram] by (simp add: restored_def set_flags_def Let_def)
  ultimately show ?thesis using run agree_fields(5) [OF x3(2)] x3(2) by (auto simp: agree_def same_on_def)
qed

section \<open>The timer with arrivals\<close>

text \<open>What the stub finds again: its cells are outside what arrivals and the C function may change.\<close>

lemma agree_cell:
  assumes "agree L W lo j x y" "lo + of_nat j = p + 4" "W \<inter> region (p + 4 + of_nat b) n = {}" "j + b + n \<le> 2 ^ 32"
  shows "same_on (region (p + 4 + of_nat b) n) (ram y) (ram x)"
proof -
  have "region lo j \<inter> region (lo + of_nat (j + b)) n = {}"
    using region_offsets_disjoint [of 0 j "j + b" n lo] assms(4) by simp
  moreover have "lo + of_nat (j + b) = p + 4 + of_nat b" using assms(2) by (simp add: add.assoc [symmetric])
  ultimately have "region lo j \<inter> region (p + 4 + of_nat b) n = {}" by (simp only:)
  then have "a \<notin> region lo j \<union> W" if "a \<in> region (p + 4 + of_nat b) n" for a using that assms(3) by blast
  then show ?thesis using assms(1) by (simp add: agree_def same_on_def)
qed

lemma agree_load:
  assumes "agree L (seg_tops p) lo j x y" "lo + of_nat j = p + 4" "j + 100 \<le> 2 ^ 32" "4 \<le> b" "b \<le> 96" "b + 4 \<le> 42 \<or> 48 \<le> b"
  shows "load32 (ram x) (p + of_nat b) = load32 (ram y) (p + of_nat b)"
proof -
  have b: "p + 4 + of_nat (b - 4) = p + of_nat b" using assms(4) by (simp add: of_nat_diff)
  have "region (p + of_nat 42) 2 \<inter> region (p + of_nat b) 4 = {}" "region (p + of_nat 46) 2 \<inter> region (p + of_nat b) 4 = {}"
    using assms(5,6) region_offsets_disjoint [of 42 2 b 4 p] region_offsets_disjoint [of b 4 42 2 p]
      region_offsets_disjoint [of 46 2 b 4 p] region_offsets_disjoint [of b 4 46 2 p] by auto
  then have "seg_tops p \<inter> region (p + of_nat b) 4 = {}" by (auto simp: seg_tops_def)
  then show ?thesis using agree_cell [OF assms(1,2), of "b - 4" 4] assms(3-5) unfolding b by (intro load32_same) simp
qed

lemmas agree_loads = agree_load [of L p lo j x y "numeral b" for L p lo j x y b, unfolded of_nat_numeral]

lemma low_half_same: "same_on (region p 2) m m' \<Longrightarrow> (ucast (load32 m' p) :: u16) = ucast (load32 m p)"
  by (rule bit_word_eqI) (auto simp: load32_def region_Suc same_on_def numeral_2_eq_2 bit_simps)

lemma agree_seg:
  assumes "agree L (seg_tops p) lo j x y" "lo + of_nat j = p + 4" "j + 100 \<le> 2 ^ 32"
  shows "(ucast (load32 (ram x) (p + 40)) :: u16) = ucast (load32 (ram y) (p + 40))"
    "(ucast (load32 (ram x) (p + 44)) :: u16) = ucast (load32 (ram y) (p + 44))"
proof -
  have "seg_tops p \<inter> region (p + of_nat b) 2 = {}" if "b = 40 \<or> b = 44" for b
    using that region_offsets_disjoint [of 40 2 42 2 p] region_offsets_disjoint [of 40 2 46 2 p] region_offsets_disjoint [of 44 2 46 2 p]
      region_offsets_disjoint [of 42 2 44 2 p] by (auto simp: seg_tops_def)
  note apart = this
  have "same_on (region (p + of_nat b) 2) (ram y) (ram x)" if b: "b = 40 \<or> b = 44" for b
  proof -
    have "p + 4 + of_nat (b - 4) = p + of_nat b" "j + (b - 4) + 2 \<le> 2 ^ 32" using b assms(3) by auto
    then show ?thesis using agree_cell [OF assms(1,2), of "b - 4" 2] apart [OF b] by (simp only:)
  qed
  from low_half_same [OF this [of 40]] low_half_same [OF this [of 44]]
  show "(ucast (load32 (ram x) (p + 40)) :: u16) = ucast (load32 (ram y) (p + 40))"
    "(ucast (load32 (ram x) (p + 44)) :: u16) = ucast (load32 (ram y) (p + 44))" by simp_all
qed

lemma timer_gate:
  assumes "stubs_linked L" "irq_ready L s"
  shows "code_at L (gate_offset (idt s ! 32)) = INTERRUPT 0"
    "irq_ready L (s\<lparr>flags := gate_flags (idt s ! 32) (flags s)\<rparr>)"
proof -
  have t: "idt s = idt_table (irq_image.truncate L)" using assms(2) by (simp add: irq_ready_def)
  show "code_at L (gate_offset (idt s ! 32)) = INTERRUPT 0"
    using assms(1) idt_table_offsets [of 32 "irq_image.truncate L"] code_at_stubs(1) [of L 0]
    by (simp add: t irq_stubs_def irq_image.truncate_def)
  have "bit (gate_flags (idt s ! 32) (flags s)) 9"
    using assms(2)
    by (simp add: t irq_ready_def idt_table_def nth_append gate_def gate_flags_def GATE_CLEARS_def TRAP_GATE_def INT_GATE_def PRESENT_def bit_simps)
  then show "irq_ready L (s\<lparr>flags := gate_flags (idt s ! 32) (flags s)\<rparr>)" by (rule ready_flags [OF assms(2)])
qed

lemma nested_entry:
  assumes "calm L lo d hss" "irq_ready L (intr z)" "gpr z ESP = lo + of_nat (j + 4)" "d \<le> j" "j + 44 \<le> 2 ^ 32"
  shows "\<exists>x. agree L W lo j x (push32 v z) \<and> exec_with E hss (26 + n) (INTERRUPT v) z = exec_with E (drop 2 hss) (24 + n) common_isr x"
proof -
  have "smooth W lo d [PUSHLI v] (j + 4)" "fold level [PUSHLI v] (j + 4) = j" "fold (step E) [PUSHLI v] z = push32 v z" using assms(4,5) by simp_all
  then obtain x1 where x1: "agree L W lo j x1 (push32 v z)"
    "exec_with E hss (length [PUSHLI v] + (25 + n)) ([PUSHLI v] @ [JMP Common_isr]) z = exec_with E (drop (length [PUSHLI v]) hss) (25 + n) [JMP Common_isr] x1"
    using exec_with_smooth [OF assms(1) agree_refl [OF assms(2,3)]] by metis
  obtain x2 where x2: "take_all (if drop 1 hss = [] then [] else hd (drop 1 hss)) x1 = Resumed x2" "agree L W lo j x2 (push32 v z)"
    using boundary [OF calm_drop [OF assms(1)] x1(1) assms(4)] assms(5) by fastforce
  have "exec_with E (drop 1 hss) (Suc (24 + n)) [JMP Common_isr] x1 = exec_with E (tl (drop 1 hss)) (24 + n) common_isr x2"
    using x2(1) by (simp only: exec_with.simps) (simp add: Let_def)
  moreover have "tl (drop 1 hss) = drop 2 hss" by (simp add: tl_drop drop_Suc [symmetric] numeral_2_eq_2)
  ultimately show ?thesis using x1(2) x2(2) by (auto simp: INTERRUPT_def)
qed

lemma timer_call:
  assumes "handlers E = kernel_code L" "clock_handler_addr L \<noteq> NULL" "clock_handler_addr L \<noteq> unhandled_interrupt_addr L"
    "agree L (seg_tops p) lo j x (at_call E Default_irq_handler p y)" "lo + of_nat j = p + 4" "j + 100 \<le> 2 ^ 32" "stack_used E \<le> j"
    "load32 (ram y) (p + 48) = 0"
  shows "\<exists>x'. call_c E Default_irq_handler x = Inr x' \<and> irq_ready L (intr x') \<and> gpr x' ESP = p + 8 \<and> con x' = con y \<and> seg x' = seg y \<and>
    (\<forall>b. 4 \<le> b \<longrightarrow> b \<le> 96 \<longrightarrow> load32 (ram x') (p + of_nat b) = load32 (ram x) (p + of_nat b)) \<and> same_on (- region lo j) (ram x) (ram x')"
proof -
  have sp: "gpr x ESP = p + 4" using agree_fields(1) [OF assms(4)] by (simp add: at_call_def)
  let ?c = "load_irq_context (ram x) (load32 (ram x) (gpr x ESP + 4))"
  have ld: "load32 (ram x) (p + 8) = p + 12" "load32 (ram x) (p + 48) = 0"
    using agree_loads [OF assms(4-6)] assms(8) by (simp_all add: at_call_def saved_cells saved_above)
  then have "irq ?c = 0" by (simp add: load_irq_context_def sp) (simp add: add.commute [of p])
  then obtain s where s: "default_irq_handler (devices E) (handlers E) ?c (intr x) = Inr s" "irq_ready L s"
    using clock_tick [OF agree_fields(5) [OF assms(4)] _ assms(2,3)] assms(1) by metis
  let ?x = "c_return E (x\<lparr>intr := s\<rparr>)"
  have "call_c E Default_irq_handler x = Inr ?x" using s(1) by simp
  moreover have "load32 (ram ?x) (p + of_nat b) = load32 (ram x) (p + of_nat b)" if "4 \<le> b" "b \<le> 96" for b
    using c_return_offset [OF that, of "x\<lparr>intr := s\<rparr>" p E] sp assms(6,7) by simp
  moreover have "same_on (- region lo j) (ram x) (ram ?x)"
  proof -
    have "region lo j = region lo (j - stack_used E) \<union> region (lo + of_nat (j - stack_used E)) (stack_used E)"
      using region_add [of lo "j - stack_used E" "stack_used E"] assms(7) by simp
    moreover have "lo + of_nat (j - stack_used E) = p + 4 - of_nat (stack_used E)"
      using assms(5,7) by (simp add: of_nat_diff algebra_simps)
    ultimately have "region (p + 4 - of_nat (stack_used E)) (stack_used E) \<subseteq> region lo j" by simp
    then show ?thesis using c_return_same [of "x\<lparr>intr := s\<rparr>" E] sp by (auto simp: same_on_def)
  qed
  moreover have "gpr ?x ESP = p + 8" "con ?x = con y" "seg ?x = seg y" "irq_ready L (intr ?x)"
    using agree_fields [OF assms(4)] s(2) by (simp_all add: c_return_def Let_def at_call_def)
  ultimately show ?thesis by blast
qed

lemma stub_cells:
  assumes "lo + of_nat j = p + 4"
  shows "region lo j \<subseteq> region lo (j + 48)" "region (p + 4) 44 \<subseteq> region lo (j + 48)" "seg_tops p \<subseteq> region lo (j + 48)"
proof -
  show r: "region lo j \<subseteq> region lo (j + 48)" "region (p + 4) 44 \<subseteq> region lo (j + 48)"
    using region_add [of lo j 48] region_mono [of 44 48 "p + 4"] assms by auto
  have "region (p + of_nat b) 2 \<subseteq> region (p + 4) 44" if "4 \<le> b" "b \<le> 46" for b
    using region_add [of "p + 4" "b - 4" 2] region_mono [of "b - 4 + 2" 44 "p + 4"] that by (auto simp: of_nat_diff)
  from this [of 42] this [of 46] show "seg_tops p \<subseteq> region lo (j + 48)" using r(2) by (auto simp: seg_tops_def)
qed

text \<open>One level: from \<open>__common_isr\<close> to the end of the stub.\<close>

lemma nested_common_isr:
  assumes "handlers E = kernel_code L" "clock_handler_addr L \<noteq> NULL" "clock_handler_addr L \<noteq> unhandled_interrupt_addr L"
    "calm L lo d hss" "agree L (seg_tops p) lo (j + 44) x y" "lo + of_nat j = p + 4" "j + 100 \<le> 2 ^ 32" "stack_used E \<le> j" "d \<le> j"
    "load32 (ram y) (p + 48) = 0"
  shows "\<exists>s m. exec_with E hss (24 + n) common_isr x = Resumed (y\<lparr>intr := s\<lparr>flags := load32 (ram y) (p + 60)\<rparr>, gpr := (gpr y)(ESP := p + 64),
      seg := (seg y)(CS := ucast (load32 (ram y) (p + 56))), pc := load32 (ram y) (p + 52), ram := m\<rparr>) \<and>
    irq_ready L s \<and> same_on (- region lo (j + 48)) (ram y) m"
proof -
  let ?a = "at_call E Default_irq_handler p y"
  have esp: "gpr y ESP = p + 48" using assms(5,6) by (simp add: agree_def add.assoc [symmetric])
  obtain x1 where x1: "agree L (seg_tops p) lo j x1 ?a"
    "exec_with E hss (12 + (12 + n)) (save_regs @ PUSHL ESP # CALL Default_irq_handler # restore_regs 4) x =
      (case call_c E Default_irq_handler x1 of Inl r \<Rightarrow> r | Inr x' \<Rightarrow> exec_with E (drop 12 hss) (12 + n) (restore_regs 4) x')"
    using nested_save [OF assms(4,5) esp, of E Default_irq_handler "12 + n" "restore_regs 4"] assms(7,9) by auto
  obtain x2 where x2: "call_c E Default_irq_handler x1 = Inr x2" "irq_ready L (intr x2)" "gpr x2 ESP = p + 8" "con x2 = con y" "seg x2 = seg y"
    "\<forall>b. 4 \<le> b \<longrightarrow> b \<le> 96 \<longrightarrow> load32 (ram x2) (p + of_nat b) = load32 (ram x1) (p + of_nat b)" "same_on (- region lo j) (ram x1) (ram x2)"
    using timer_call [OF assms(1-3) x1(1) assms(6-8,10)] by blast
  have ram: "ram ?a = saved E Default_irq_handler p y" by (simp add: at_call_def)
  have ld1: "load32 (ram x2) (p + numeral b) = load32 (ram x1) (p + numeral b)" if "4 \<le> (numeral b :: nat)" "numeral b \<le> (96 :: nat)" for b
    using x2(6) that by (metis of_nat_numeral)
  have ld: "load32 (ram x2) (p + numeral b) = load32 (saved E Default_irq_handler p y) (p + numeral b)"
    if "4 \<le> (numeral b :: nat)" "numeral b \<le> (96 :: nat)" "numeral b + 4 \<le> (42 :: nat) \<or> 48 \<le> (numeral b :: nat)" for b
    using ld1 [OF that(1,2)] agree_loads [OF x1(1) assms(6,7) that] ram by simp
  have seg: "(ucast (load32 (ram x2) (p + 40)) :: u16) = seg y ES" "(ucast (load32 (ram x2) (p + 44)) :: u16) = seg y DS"
    using agree_seg [OF x1(1) assms(6,7)] ld1 by (simp_all add: ram saved_cells)
  have p8: "p + 8 = lo + of_nat (j + 4)" using assms(6) by (simp add: add.assoc [symmetric])
  have room: "d \<le> j + 4" "j + 4 + 84 \<le> 2 ^ 32" "j + 4 + 44 = j + 48" using assms(7,9) by simp_all
  have p12: "load32 (ram x2) (p + 8) = p + 12" by (simp add: ld saved_cells)
  obtain s m where sm: "exec_with E (drop 12 hss) (12 + n) (restore_regs 4) x2 =
      Resumed ((restored 4 p x2)\<lparr>intr := s\<lparr>flags := load32 (ram x2) (p + 60)\<rparr>, ram := m\<rparr>)" "irq_ready L s" "same_on (- region lo (j + 48)) (ram x2) m"
    using nested_restore [OF calm_drop [OF assms(4), of 12] x2(2,3) p8 p12 room(1,2), of E n, unfolded room(3)] by blast
  have "(restored 4 p x2)\<lparr>intr := i, ram := m\<rparr> = y\<lparr>intr := i, gpr := (gpr y)(ESP := p + 64),
      seg := (seg y)(CS := ucast (load32 (ram y) (p + 56))), pc := load32 (ram y) (p + 52), ram := m\<rparr>" for i
    by (rule cpu.equality) (simp_all add: restored_def set_flags_def ld saved_cells saved_above seg x2(4,5) add.assoc fun_eq_iff split: reg.split sreg.split)
  moreover have "load32 (ram x2) (p + 60) = load32 (ram y) (p + 60)" by (simp add: ld saved_above)
  moreover have "exec_with E hss (24 + n) common_isr x = exec_with E (drop 12 hss) (12 + n) (restore_regs 4) x2"
    using x1(2) x2(1) by (simp add: common_blocks add.assoc [symmetric])
  moreover have "same_on (- region lo (j + 48)) (ram y) m"
  proof -
    note sub = stub_cells [OF assms(6)]
    have "same_on (- region lo (j + 48)) (ram y) (saved E Default_irq_handler p y)" by (rule same_on_subset [OF saved_same]) (use sub in auto)
    moreover have "same_on (- region lo (j + 48)) (saved E Default_irq_handler p y) (ram x1)"
    proof -
      have "a \<notin> region lo j \<union> seg_tops p" if "a \<notin> region lo (j + 48)" for a using that sub by blast
      then show ?thesis using x1(1) ram by (simp add: agree_def same_on_def)
    qed
    moreover have "same_on (- region lo (j + 48)) (ram x1) (ram x2)" by (rule same_on_subset [OF x2(7)]) (use sub in auto)
    ultimately show ?thesis using sm(3) by (simp add: same_on_def)
  qed
  ultimately show ?thesis using sm(1,2) by (intro exI [of _ s] exI [of _ m]) simp
qed

lemma timer_level:
  assumes "stubs_linked L" "handlers E = kernel_code L" "clock_handler_addr L \<noteq> NULL" "clock_handler_addr L \<noteq> unhandled_interrupt_addr L"
    "calm L lo d hss" "irq_ready L (intr x)" "gpr x ESP = lo + of_nat k" "d + stack_used E + 60 \<le> k" "k + 40 \<le> 2 ^ 32"
  shows "\<exists>s m. exec_with E hss 27 (code_at L (gate_offset (idt (intr x) ! 32))) (deliver 32 None x) = Resumed (x\<lparr>intr := s, ram := m\<rparr>) \<and>
    irq_ready L s \<and> flags s = flags (intr x) \<and> same_on (- region lo k) (ram x) m"
proof -
  define p where "p = gpr x ESP - 64"
  define j where "j = k - 60"
  let ?z = "deliver 32 None x" and ?y = "push32 0 (deliver 32 None x)"
  note y = deliver_irq(2) [of 0 32 x, folded p_def]
  have k: "k = j + 60" "stack_used E \<le> j" "d \<le> j" "j + 100 \<le> 2 ^ 32" using assms(8,9) by (simp_all add: j_def)
  have sp: "gpr x ESP = p + 64" "lo + of_nat j = p + 4" using assms(7) by (simp_all add: p_def k(1))
  have z: "irq_ready L (intr ?z)" "gpr ?z ESP = lo + of_nat (j + 44 + 4)"
    using timer_gate(2) [OF assms(1,6)] assms(7) by (simp_all add: deliver_def push32_def set_flags_def Let_def k(1))
  have ld: "load32 (ram ?y) (p + 48) = 0" "load32 (ram ?y) (p + 52) = pc x" "load32 (ram ?y) (p + 56) = ucast (seg x CS)"
    "load32 (ram ?y) (p + 60) = flags (intr x)"
    unfolding y by (simp_all add: cell_simps)
  obtain x1 where x1: "agree L (seg_tops p) lo (j + 44) x1 ?y"
    "exec_with E hss (26 + 1) (INTERRUPT 0) ?z = exec_with E (drop 2 hss) (24 + 1) common_isr x1"
    using nested_entry [OF assms(5) z, of "seg_tops p" 0 E 1] k(3,4) by auto
  obtain s m where sm: "exec_with E (drop 2 hss) (24 + 1) common_isr x1 = Resumed (?y\<lparr>intr := s\<lparr>flags := flags (intr x)\<rparr>, gpr := (gpr ?y)(ESP := p + 64),
      seg := (seg ?y)(CS := ucast (ucast (seg x CS) :: u32)), pc := pc x, ram := m\<rparr>)" "irq_ready L s" "same_on (- region lo (j + 48)) (ram ?y) m"
    using nested_common_isr [OF assms(2-4) calm_drop [OF assms(5), of 2] x1(1) sp(2) k(4,2,3) ld(1), of 1] unfolding ld by blast
  have "?y\<lparr>intr := i, gpr := (gpr ?y)(ESP := p + 64), seg := (seg ?y)(CS := ucast (ucast (seg x CS) :: u32)), pc := pc x, ram := m\<rparr> =
      x\<lparr>intr := i, ram := m\<rparr>" for i
    unfolding y by (rule cpu.equality) (simp_all add: low_half_ucast fun_eq_iff sp)
  moreover have "bit (flags (intr x)) 9" using assms(6) by (simp add: irq_ready_def)
  then have "irq_ready L (s\<lparr>flags := flags (intr x)\<rparr>)" by (rule ready_flags [OF sm(2)])
  moreover have "same_on (- region lo k) (ram x) m"
  proof -
    have e: "lo + of_nat (j + 44) = p + 48" "j + 44 + 16 = k" "j + 48 \<le> k" using sp(2) k(1) by (simp_all add: add.assoc [symmetric])
    have "region lo k = region lo (j + 44) \<union> region (p + 48) 16" "region lo (j + 48) \<subseteq> region lo k"
      using region_add [of lo "j + 44" 16] region_mono [OF e(3), of lo] by (simp_all only: e)
    then have "a \<notin> region (p + 48) 16 \<union> region lo (j + 48)" if "a \<notin> region lo k" for a using that by blast
    then show ?thesis using four_pushed_same [of p] sm(3) unfolding y by (simp add: same_on_def)
  qed
  ultimately show ?thesis
    using x1(2) sm(1) timer_gate(1) [OF assms(1,6)] by (intro exI [of _ "s\<lparr>flags := flags (intr x)\<rparr>"] exI [of _ m]) simp
qed

lemma transparent_more: "transparent L lo d h \<Longrightarrow> d \<le> d' \<Longrightarrow> transparent L lo d' h"
  unfolding transparent_def by (meson le_trans)

lemma nesting_le: "as \<in> set ass \<Longrightarrow> t \<in> set as \<Longrightarrow> nesting t < nesting (Arrivals a ass)"
proof -
  assume "as \<in> set ass" "t \<in> set as"
  then have "nesting t \<in> set (0 # concat (map (map nesting) ass))" by auto
  then show ?thesis using Max_ge [OF finite_set] by (simp only: nesting.simps less_Suc_eq_le)
qed

lemma take_nested_transparent:
  assumes "stubs_linked L" "handlers E = kernel_code L" "clock_handler_addr L \<noteq> NULL" "clock_handler_addr L \<noteq> unhandled_interrupt_addr L"
  shows "transparent L lo (nesting t * (stack_used E + 60)) (take_nested E L t)"
proof (induction t)
  case (Arrivals a ass)
  let ?K = "stack_used E + 60"
  obtain n where n: "nesting (Arrivals a ass) = Suc n" by simp
  have "transparent L lo (n * ?K) (take_nested E L t)" if "as \<in> set ass" "t \<in> set as" for as t
  proof (rule transparent_more [OF Arrivals.IH [OF that]])
    have "nesting t \<le> n" using nesting_le [OF that, of a] n by simp
    then show "nesting t * ?K \<le> n * ?K" by (rule mult_le_mono1)
  qed
  then have "calm L lo (n * ?K) (map (map (\<lambda>t. (resume_at t, take_nested E L t))) ass)" by (auto simp: calm_def)
  from timer_level [OF assms this] show ?case
    unfolding transparent_def n by (auto simp: algebra_simps simp del: of_nat_add)
qed

section \<open>Properties\<close>

text \<open>
  C7. The timer may interrupt its own stub: whenever the interrupt state is ready, as \<open>init\<close> leaves it, and
  whatever further timer interrupts arrive before the instructions of the stub, and before those
  of their stubs, to any depth the stack holds, every stub returns to the instruction it interrupted without a
  fault; the interrupted program continues with all its registers and flags, the interrupt state is ready again,
  and of the memory only the cells below the stack pointer have changed, for each level the 60 bytes
  the stub pushes and the stack of the C handler.
\<close>

theorem nested_timer_resumes:
  assumes "stubs_linked L" "irq_ready L (intr x)" "handlers E = kernel_code L" "nested_stack E t + 40 \<le> 2 ^ 32"
    "clock_handler_addr L \<noteq> NULL" "clock_handler_addr L \<noteq> unhandled_interrupt_addr L"
  shows "\<exists>s m'. take_nested E L t x = Resumed (x\<lparr>intr := s, ram := m'\<rparr>) \<and> irq_ready L s \<and> flags s = flags (intr x) \<and>
    same_on (- region (gpr x ESP - of_nat (nested_stack E t)) (nested_stack E t)) (ram x) m'"
  using take_nested_transparent [OF assms(1,3,5,6), of "gpr x ESP - of_nat (nested_stack E t)" t] assms(2,4)
  unfolding transparent_def nested_stack_def by (metis (no_types) diff_add_cancel order_refl)

theorem nested_timer_resumes_witness:
  "\<exists>m s m'. init demo_kernel_image \<lparr>con = demo_console, intr = irq_boot (irq_image.truncate demo_kernel_image) 2\<rparr> = Inr m \<and>
     take_nested (demo_stub_env\<lparr>handlers := kernel_code demo_kernel_image\<rparr>) demo_kernel_image
       (Arrivals 0x101000 [[], [Arrivals 0x101005 [[Arrivals 0x101000 []]]], [Arrivals 0x101100 [], Arrivals 0x101100 []]])
       (demo_cpu\<lparr>intr := intr m\<rparr>) = Resumed (demo_cpu\<lparr>intr := s, ram := m'\<rparr>) \<and>
     irq_ready demo_kernel_image s \<and> same_on (- region 0x8e8c 372) (ram demo_cpu) m'"
proof -
  let ?E = "demo_stub_env\<lparr>handlers := kernel_code demo_kernel_image\<rparr>"
  let ?t = "Arrivals 0x101000 [[], [Arrivals 0x101005 [[Arrivals 0x101000 []]]], [Arrivals 0x101100 [], Arrivals 0x101100 []]]"
  obtain m where m: "init demo_kernel_image \<lparr>con = demo_console, intr = irq_boot (irq_image.truncate demo_kernel_image) 2\<rparr> = Inr m"
    "irq_ready demo_kernel_image (intr m)"
    using init_ready [of demo_console demo_kernel_image 2] by (auto simp: demo_console_def)
  have "stubs_linked demo_kernel_image" "clock_handler_addr demo_kernel_image \<noteq> NULL"
    "clock_handler_addr demo_kernel_image \<noteq> unhandled_interrupt_addr demo_kernel_image"
    using demo_linked by (simp_all add: demo_kernel_image_def demo_irq_image_def irq_image.extend_def NULL_def stubs_linked_def)
  moreover have "nested_stack ?E ?t = 372" by (simp add: nested_stack_def demo_cpu_fields)
  moreover have "gpr (demo_cpu\<lparr>intr := intr m\<rparr>) ESP - of_nat 372 = 0x8e8c" by (simp add: demo_cpu_fields)
  ultimately obtain s m' where "take_nested ?E demo_kernel_image ?t (demo_cpu\<lparr>intr := intr m\<rparr>) =
      Resumed ((demo_cpu\<lparr>intr := intr m\<rparr>)\<lparr>intr := s, ram := m'\<rparr>)" "irq_ready demo_kernel_image s" "same_on (- region 0x8e8c 372) (ram demo_cpu) m'"
    using nested_timer_resumes [of demo_kernel_image "demo_cpu\<lparr>intr := intr m\<rparr>" ?E ?t] m(2) by fastforce
  then show ?thesis using m(1) by auto
qed

end
