(* ===== verification/BootImage.thy ===== *)
theory BootImage
  imports EntryStubs
begin

text \<open>
  The boot code (\<open>kernel/boot.S\<close>): the multiboot header, the descriptor table and the instructions from
  \<open>entry\<close> on, with the segment constants of \<open>include/kernel.h\<close>. The data directives of the assembler
  become bytes, and a processor that loads a segment register reads and checks the descriptor in
  these bytes. The addresses of the labels are the fields of \<open>boot_image\<close>, and the functions \<open>init\<close> and
  \<open>main\<close> are the parameter \<open>callee\<close>, where \<open>None\<close> is a call that does not return.
\<close>

section \<open>Constants\<close>

definition MULTIBOOT_PAGE_ALIGN :: u32 where "MULTIBOOT_PAGE_ALIGN = push_bit 0 1"
definition MULTIBOOT_MEMORY_INFO :: u32 where "MULTIBOOT_MEMORY_INFO = push_bit 1 1"
definition MULTIBOOT_HEADER_MAGIC :: u32 where "MULTIBOOT_HEADER_MAGIC = 0x1BADB002"
definition MULTIBOOT_HEADER_FLAGS :: u32 where "MULTIBOOT_HEADER_FLAGS = MULTIBOOT_PAGE_ALIGN OR MULTIBOOT_MEMORY_INFO"
definition CHECKSUM :: u32 where "CHECKSUM = - (MULTIBOOT_HEADER_MAGIC + MULTIBOOT_HEADER_FLAGS)"

definition CODE :: u8 where "CODE = 0x18"
definition DATA :: u8 where "DATA = 0x10"
definition EXP_DOWN :: u8 where "EXP_DOWN = 0x04"
definition CONFORMING :: u8 where "CONFORMING = 0x04"
definition READABLE :: u8 where "READABLE = 0x00"
definition WRITEABLE :: u8 where "WRITEABLE = 0x02"
definition CODE_SEG :: u8 where "CODE_SEG = CODE OR PRESENT OR READABLE"
definition DATA_SEG :: u8 where "DATA_SEG = DATA OR PRESENT OR WRITEABLE"
definition STACK_SEG :: u8 where "STACK_SEG = DATA_SEG"
definition TSS_SEG :: u8 where "TSS_SEG = PRESENT OR 0x09"
definition REAL_SEG :: u8 where "REAL_SEG = CODE OR PRESENT OR READABLE"
definition KERNEL_DATA :: u16 where "KERNEL_DATA = 0x08"
definition KERNEL_STACK :: u16 where "KERNEL_STACK = 0x08"

lemmas segment_constants = CODE_def DATA_def EXP_DOWN_def CONFORMING_def READABLE_def WRITEABLE_def CODE_SEG_def DATA_SEG_def
  STACK_SEG_def TSS_SEG_def REAL_SEG_def PRESENT_def KERNEL_DATA_def KERNEL_STACK_def KERNEL_CODE_def

section \<open>Data of the image\<close>

datatype directive = Byte u8 | Word u16 | Long u32

fun bytes_of :: "directive \<Rightarrow> u8 list" where
  "bytes_of (Byte b) = [b]"
| "bytes_of (Word w) = [ucast w, ucast (drop_bit 8 w)]"
| "bytes_of (Long l) = [ucast l, ucast (drop_bit 8 l), ucast (drop_bit 16 l), ucast (drop_bit 24 l)]"

definition assemble :: "directive list \<Rightarrow> u8 list" where
  "assemble dirs = concat (map bytes_of dirs)"

definition multiboot_header :: "directive list" where
  "multiboot_header = [Long MULTIBOOT_HEADER_MAGIC, Long MULTIBOOT_HEADER_FLAGS, Long CHECKSUM]"

definition gdt :: "directive list" where
  "gdt =
     [Word 0, Word 0, Byte 0, Byte 0, Byte 0, Byte 0,
      Word 0xffff, Word 0, Byte 0, Byte 0x92, Byte 0xcf, Byte 0,
      Word 0xffff, Word 0, Byte 0, Byte 0x9a, Byte 0xcf, Byte 0]"

definition gdtr :: "addr \<Rightarrow> directive list" where
  "gdtr gdt_addr = [Word (of_nat (length (assemble gdt)) - 1), Long gdt_addr]"

section \<open>Code of the image\<close>

datatype boot_fun = Init | Main

datatype boot_instr =
    MOV_EBX_BOOT_INFO | LGDTL_GDTR | LJMP u16 | MOVW_AX u16 | MOVW_SEG sreg | MOV_STACK_ESP | CALL_FUN boot_fun | CLI | HLT_LOOP

definition boot_code :: "boot_instr list" where
  "boot_code =
     [MOV_EBX_BOOT_INFO, LGDTL_GDTR, LJMP 0x10,
      MOVW_AX 0x08, MOVW_SEG DS, MOVW_SEG ES, MOVW_SEG FS, MOVW_SEG GS, MOVW_SEG SS, MOV_STACK_ESP,
      CALL_FUN Init, CALL_FUN Main, CLI, HLT_LOOP]"

record boot_image =
  gdt_at :: addr
  gdtr_at :: addr
  boot_info :: addr
  K_STACK_START :: addr
  after_call :: "boot_fun \<Rightarrow> addr"

section \<open>Segments\<close>

text \<open>A descriptor as the processor reads it, the limit in bytes.\<close>

record segment =
  sg_base :: u32
  sg_limit :: u32
  sg_access :: u8
  sg_32bit :: bool

definition load_descriptor :: "mem \<Rightarrow> addr \<Rightarrow> segment" where
  "load_descriptor m p =
     (let f = m (p + 6); lim = ucast (load16 m p) OR push_bit 16 (ucast (f AND 0x0f)) in
      \<lparr>sg_base = ucast (load16 m (p + 2)) OR push_bit 16 (ucast (m (p + 4))) OR push_bit 24 (ucast (m (p + 7))),
       sg_limit = (if bit f 7 then push_bit 12 lim OR 0xfff else lim),
       sg_access = m (p + 5), sg_32bit = bit f 6\<rparr>)"

text \<open>Present, of privilege level 0, and of the kind the register needs: executable for \<open>CS\<close>,
  writable data for \<open>SS\<close>, data or readable code for the others.\<close>

definition descriptor_fits :: "sreg \<Rightarrow> segment \<Rightarrow> bool" where
  "descriptor_fits s d \<longleftrightarrow>
     (let a = sg_access d in
      bit a 7 \<and> \<not> bit a 6 \<and> \<not> bit a 5 \<and> bit a 4 \<and>
      (case s of CS \<Rightarrow> bit a 3 | SS \<Rightarrow> \<not> bit a 3 \<and> bit a 1 | _ \<Rightarrow> \<not> bit a 3 \<or> bit a 1))"

record boot_cpu =
  b_mem :: mem
  b_ebx :: u32
  b_ax :: u16
  b_esp :: u32
  b_gdtr :: idt_reg
  b_sel :: "sreg \<Rightarrow> u16"
  b_seg :: "sreg \<Rightarrow> segment"
  b_if :: bool

datatype boot_run = Running boot_fun boot_cpu | Idle boot_cpu | Protection_fault u16

text \<open>Loading a selector of the global table at privilege level 0; the null selector needs no descriptor,
  but \<open>CS\<close> and \<open>SS\<close> cannot hold it.\<close>

definition load_seg :: "sreg \<Rightarrow> u16 \<Rightarrow> boot_cpu \<Rightarrow> boot_cpu option" where
  "load_seg s sel b =
     (if sel AND 0xfffc = 0 then (if s = CS \<or> s = SS then None else Some (b\<lparr>b_sel := (b_sel b)(s := sel)\<rparr>))
      else
        (let off = unat (sel AND 0xfff8); d = load_descriptor (b_mem b) (base (b_gdtr b) + of_nat off) in
         if sel AND 7 = 0 \<and> off + 7 \<le> unat (limit (b_gdtr b)) \<and> descriptor_fits s d
         then Some (b\<lparr>b_sel := (b_sel b)(s := sel), b_seg := (b_seg b)(s := d)\<rparr>) else None))"

section \<open>Running the boot code\<close>

text \<open>The callee gives the state at its \<open>ret\<close>. \<open>hlt\<close> in a loop with the interrupts off is the outcome \<open>Idle\<close>.\<close>

fun boot_exec :: "boot_image \<Rightarrow> (boot_fun \<Rightarrow> boot_cpu \<Rightarrow> boot_cpu option) \<Rightarrow> boot_instr list \<Rightarrow> boot_cpu \<Rightarrow> boot_run option" where
  "boot_exec B callee [] b = None"
| "boot_exec B callee (i # code) b =
     (case i of
        MOV_EBX_BOOT_INFO \<Rightarrow> boot_exec B callee code (b\<lparr>b_mem := store32 (boot_info B) (b_ebx b) (b_mem b)\<rparr>)
      | LGDTL_GDTR \<Rightarrow>
          boot_exec B callee code (b\<lparr>b_gdtr := \<lparr>limit = load16 (b_mem b) (gdtr_at B), base = load32 (b_mem b) (gdtr_at B + 2)\<rparr>\<rparr>)
      | LJMP sel \<Rightarrow> (case load_seg CS sel b of None \<Rightarrow> Some (Protection_fault sel) | Some b' \<Rightarrow> boot_exec B callee code b')
      | MOVW_AX v \<Rightarrow> boot_exec B callee code (b\<lparr>b_ax := v\<rparr>)
      | MOVW_SEG s \<Rightarrow> (case load_seg s (b_ax b) b of None \<Rightarrow> Some (Protection_fault (b_ax b)) | Some b' \<Rightarrow> boot_exec B callee code b')
      | MOV_STACK_ESP \<Rightarrow> boot_exec B callee code (b\<lparr>b_esp := K_STACK_START B\<rparr>)
      | CALL_FUN f \<Rightarrow>
          (let b1 = b\<lparr>b_esp := b_esp b - 4, b_mem := store32 (b_esp b - 4) (after_call B f) (b_mem b)\<rparr> in
           case callee f b1 of None \<Rightarrow> Some (Running f b1) | Some b' \<Rightarrow> boot_exec B callee code (b'\<lparr>b_esp := b_esp b' + 4\<rparr>))
      | CLI \<Rightarrow> boot_exec B callee code (b\<lparr>b_if := False\<rparr>)
      | HLT_LOOP \<Rightarrow> Some (Idle b))"

section \<open>The descriptor table\<close>

lemma gdt_bytes:
  "assemble gdt = [0, 0, 0, 0, 0, 0, 0, 0, 0xff, 0xff, 0, 0, 0, 0x92, 0xcf, 0, 0xff, 0xff, 0, 0, 0, 0x9a, 0xcf, 0]"
  "assemble (gdtr p) = [0x17, 0] @ bytes_of (Long p)"
  by (simp_all add: assemble_def gdt_def gdtr_def)

lemma load_at:
  "bytes_at m p (bytes_of (Word w)) \<Longrightarrow> load16 m p = w" "bytes_at m q (bytes_of (Long l)) \<Longrightarrow> load32 m q = l"
proof -
  assume "bytes_at m p (bytes_of (Word w))"
  then have "m = store16 p w m" by (auto simp: store16_def fun_eq_iff)
  then show "load16 m p = w" by (metis load16_store16)
next
  assume "bytes_at m q (bytes_of (Long l))"
  then have "m = store32 q l m" by (auto simp: store32_def fun_eq_iff add.assoc)
  then show "load32 m q = l" by (metis load32_store32)
qed

definition flat :: "u8 \<Rightarrow> segment" where
  "flat a = \<lparr>sg_base = 0, sg_limit = 0xffffffff, sg_access = a, sg_32bit = True\<rparr>"

lemma kernel_descriptors:
  assumes "bytes_at m p (assemble gdt)"
  shows "load_descriptor m (p + 8) = flat 0x92" "load_descriptor m (p + 16) = flat 0x9a"
proof -
  have b: "m (p + 8) = 0xff" "m (p + 9) = 0xff" "m (p + 10) = 0" "m (p + 11) = 0" "m (p + 12) = 0" "m (p + 13) = 0x92" "m (p + 14) = 0xcf"
    "m (p + 15) = 0" "m (p + 16) = 0xff" "m (p + 17) = 0xff" "m (p + 18) = 0" "m (p + 19) = 0" "m (p + 20) = 0" "m (p + 21) = 0x9a"
    "m (p + 22) = 0xcf" "m (p + 23) = 0"
    using assms by (simp_all add: gdt_bytes add.assoc)
  show "load_descriptor m (p + 8) = flat 0x92" "load_descriptor m (p + 16) = flat 0x9a"
    by (simp_all add: load_descriptor_def flat_def load16_def Let_def b add.assoc)
qed

lemma descriptors_fit: "descriptor_fits CS (flat 0x9a)" "s \<noteq> CS \<Longrightarrow> descriptor_fits s (flat 0x92)"
  by (cases s; simp add: descriptor_fits_def flat_def)+

lemma all_sregs: "f(CS := a, DS := x, ES := x, FS := x, GS := x, SS := x) = (\<lambda>s. if s = CS then a else x)"
proof
  show "(f(CS := a, DS := x, ES := x, FS := x, GS := x, SS := x)) s = (if s = CS then a else x)" for s by (cases s) simp_all
qed

lemma load_kernel_seg:
  assumes "bytes_at (b_mem b) p (assemble gdt)" "b_gdtr b = \<lparr>limit = 0x17, base = p\<rparr>"
  shows "load_seg CS 0x10 b = Some (b\<lparr>b_sel := (b_sel b)(CS := 0x10), b_seg := (b_seg b)(CS := flat 0x9a)\<rparr>)"
    "s \<noteq> CS \<Longrightarrow> load_seg s 0x08 b = Some (b\<lparr>b_sel := (b_sel b)(s := 0x08), b_seg := (b_seg b)(s := flat 0x92)\<rparr>)"
proof -
  note f = descriptors_fit
  show "load_seg CS 0x10 b = Some (b\<lparr>b_sel := (b_sel b)(CS := 0x10), b_seg := (b_seg b)(CS := flat 0x9a)\<rparr>)"
    using f(1) kernel_descriptors(2) [OF assms(1)] assms(2) by (simp add: load_seg_def)
  show "load_seg s 0x08 b = Some (b\<lparr>b_sel := (b_sel b)(s := 0x08), b_seg := (b_seg b)(s := flat 0x92)\<rparr>)" if "s \<noteq> CS"
    using f(2) [OF that] kernel_descriptors(1) [OF assms(1)] assms(2) by (simp add: load_seg_def)
qed

section \<open>The boot code\<close>

definition flat_machine :: "boot_cpu \<Rightarrow> bool" where
  "flat_machine b \<longleftrightarrow> (\<forall>s. b_sel b s = (if s = CS then KERNEL_CODE else KERNEL_DATA) \<and>
     sg_base (b_seg b s) = 0 \<and> sg_limit (b_seg b s) = 0xffffffff \<and> sg_32bit (b_seg b s) \<and> descriptor_fits s (b_seg b s) \<and>
     sg_access (b_seg b s) = (if s = CS then CODE_SEG OR 0x02 else DATA_SEG))"

text \<open>The state in which a function is called.\<close>

definition called :: "boot_image \<Rightarrow> boot_fun \<Rightarrow> boot_cpu \<Rightarrow> boot_cpu" where
  "called B f b = b\<lparr>b_esp := b_esp b - 4, b_mem := store32 (b_esp b - 4) (after_call B f) (b_mem b)\<rparr>"

text \<open>
  The boot code sets up the machine the rest of the kernel assumes: the three words of the multiboot
  header add up to zero; loading the descriptor table and the segment registers raises no fault, and
  every segment is then present, of privilege level 0, of the right kind, 32-bit, and covers all
  4 GB from address 0, under the selectors \<open>KERNEL_CODE\<close> and \<open>KERNEL_DATA\<close>; the boot information pointer is stored and
  \<open>init\<close> is called on the kernel stack, then \<open>main\<close>; should \<open>main\<close> return, the processor idles with the interrupts off.
\<close>

lemma boot_enters_kernel:
  assumes "bytes_at (b_mem b) (gdt_at B) (assemble gdt)" "bytes_at (b_mem b) (gdtr_at B) (assemble (gdtr (gdt_at B)))"
    "clear_of (region (boot_info B) 4) [(gdt_at B, 24), (gdtr_at B, 6)]"
  shows "MULTIBOOT_HEADER_MAGIC + MULTIBOOT_HEADER_FLAGS + CHECKSUM = 0 \<and>
    (\<exists>b1. flat_machine b1 \<and> b_esp b1 = K_STACK_START B \<and> b_mem b1 = store32 (boot_info B) (b_ebx b) (b_mem b) \<and>
      boot_exec B callee boot_code b = Some
        (case callee Init (called B Init b1) of None \<Rightarrow> Running Init (called B Init b1)
         | Some b2 \<Rightarrow> (let b2' = called B Main (b2\<lparr>b_esp := b_esp b2 + 4\<rparr>) in
             case callee Main b2' of None \<Rightarrow> Running Main b2'
             | Some b3 \<Rightarrow> Idle (b3\<lparr>b_esp := b_esp b3 + 4, b_if := False\<rparr>))))"
proof -
  define m where "m = store32 (boot_info B) (b_ebx b) (b_mem b)"
  have kept: "same_on (region p n) (b_mem b) m" if "(p, n) \<in> {(gdt_at B, 24), (gdtr_at B, 6)}" for p n
    unfolding m_def using that assms(3) by (intro store32_same) auto
  have tab: "bytes_at m (gdt_at B) (assemble gdt)"
    using assms(1) kept by (subst bytes_at_same) (auto simp: gdt_bytes)
  have reg: "bytes_at m (gdtr_at B) (assemble (gdtr (gdt_at B)))"
    using assms(2) kept by (subst bytes_at_same) (auto simp: gdt_bytes)
  have ld: "load16 m (gdtr_at B) = 0x17" "load32 m (gdtr_at B + 2) = gdt_at B"
    using reg load_at(1) [of m "gdtr_at B" "0x17"] load_at(2) [of m "gdtr_at B + 2" "gdt_at B"]
    by (simp_all add: gdt_bytes add.assoc)
  let ?b1 = "b\<lparr>b_mem := m, b_gdtr := \<lparr>limit = 0x17, base = gdt_at B\<rparr>, b_ax := 8,
      b_sel := (\<lambda>s. if s = CS then 0x10 else 8), b_seg := (\<lambda>s. if s = CS then flat 0x9a else flat 0x92), b_esp := K_STACK_START B\<rparr>"
  have run: "boot_exec B callee boot_code b = boot_exec B callee [CALL_FUN Init, CALL_FUN Main, CLI, HLT_LOOP] ?b1"
  proof -
    have "boot_exec B callee boot_code b = boot_exec B callee [CALL_FUN Init, CALL_FUN Main, CLI, HLT_LOOP]
        (b\<lparr>b_mem := m, b_gdtr := \<lparr>limit = 0x17, base = gdt_at B\<rparr>, b_ax := 8,
          b_sel := (b_sel b)(CS := 0x10, DS := 8, ES := 8, FS := 8, GS := 8, SS := 8),
          b_seg := (b_seg b)(CS := flat 0x9a, DS := flat 0x92, ES := flat 0x92, FS := flat 0x92, GS := flat 0x92, SS := flat 0x92),
          b_esp := K_STACK_START B\<rparr>)"
      by (simp add: boot_code_def m_def [symmetric] ld load_kernel_seg [where p = "gdt_at B"] tab)
    then show ?thesis unfolding all_sregs .
  qed
  have "flat_machine ?b1"
    using descriptors_fit by (simp add: flat_machine_def segment_constants flat_def)
  moreover have "MULTIBOOT_HEADER_MAGIC + MULTIBOOT_HEADER_FLAGS + CHECKSUM = 0" by (simp add: CHECKSUM_def)
  ultimately show ?thesis
    unfolding run by (intro conjI exI [of _ ?b1]) (auto simp: m_def called_def Let_def split: option.split)
qed

end
