(* ===== verification/LinkLayout.thy ===== *)
theory LinkLayout
  imports BootImage
begin

text \<open>
  The layout of the kernel image (\<open>linker.ld\<close>) and of the object of \<open>kernel/boot.S\<close> in it. A linker
  script is a program on the location counter: \<open>link_kernel\<close> runs the \<open>SECTIONS\<close> command
  on the sizes of the input sections, each with the padding between its parts, and gives the symbols and
  the output sections with their run-time (VMA) and load (LMA) addresses.

  The script names only some of the sections a compiler emits. The linker places each other loaded section, an orphan, behind
  the output section of the same kind: a read-only one, as \<open>.eh_frame\<close>, behind \<open>.text\<close>, a writable one behind \<open>.data\<close>.
  Their sizes are fields of the input. Orphans in front of \<open>.text\<close> have no influence, since the
  script gives \<open>.text\<close> its address. The output sections \<open>.data\<close> and \<open>.bss\<close> have no address in
  the script: they start at the location counter, aligned to the largest alignment of their input sections, a power of two. The sizes of
  the encoded instructions of \<open>boot.S\<close> are parameters. The loader is GRUB: it copies the sections to their load addresses
  and clears the one without contents, as the multiboot specification says.
\<close>

section \<open>The linker script\<close>

definition K_PHYS_START :: nat where "K_PHYS_START = 0x100000"
definition LD_PAGE_SIZE :: nat where "LD_PAGE_SIZE = 0x1000"
definition K_STACK_SIZE :: nat where "K_STACK_SIZE = LD_PAGE_SIZE"

definition ALIGN :: "nat \<Rightarrow> nat \<Rightarrow> nat" where
  "ALIGN n dot = (dot + n - 1) div n * n"

record link_input =
  in_init :: nat
  in_text :: nat
  in_rodata :: nat
  in_data :: nat
  in_bss :: nat
  in_common :: nat
  orphans_ro :: nat
  orphans_rw :: nat
  data_align :: nat
  bss_align :: nat

record out_section =
  vma :: nat
  lma :: nat
  extent :: nat

record link_map =
  ld_KERNEL_INIT :: nat
  ld_KERNEL_END_INIT :: nat
  ld_KERNEL_TEXT :: nat
  ld_KERNEL_END_TEXT :: nat
  ld_KERNEL_DATA :: nat
  ld_KERNEL_END_DATA :: nat
  ld_stack_end :: nat
  ld_stack_start :: nat
  ld_K_STACK_START :: nat
  ld_KERNEL_BSS :: nat
  ld_KERNEL_END_BSS :: nat
  ld_KERNEL_TOP :: nat
  ld_text :: out_section
  ld_ro :: out_section
  ld_data :: out_section
  ld_rw :: out_section
  ld_bss :: out_section

definition link_kernel :: "link_input \<Rightarrow> link_map" where
  "link_kernel i =
     (let dot = K_PHYS_START;
          kernel_init = dot;
          dot = dot + in_init i;
          dot = ALIGN LD_PAGE_SIZE dot;
          kernel_end_init = dot;
          kernel_text = dot;
          dot = dot + in_text i;
          dot = dot + in_rodata i;
          dot = ALIGN LD_PAGE_SIZE dot;
          kernel_end_text = dot;
          dot = dot + orphans_ro i;
          dot = ALIGN (2 ^ data_align i) dot;
          kernel_data = dot;
          dot = dot + in_data i;
          dot = ALIGN LD_PAGE_SIZE dot;
          kernel_end_data = dot;
          dot = dot + orphans_rw i;
          dot = ALIGN (2 ^ bss_align i) dot;
          stack_end = dot;
          dot = dot + K_STACK_SIZE;
          stack_start = dot;
          k_stack_start = dot;
          dot = ALIGN LD_PAGE_SIZE dot;
          kernel_bss = dot;
          dot = dot + in_bss i;
          dot = dot + in_common i;
          dot = ALIGN LD_PAGE_SIZE dot;
          kernel_end_bss = dot;
          dot = ALIGN LD_PAGE_SIZE dot;
          kernel_top = dot
      in \<lparr>ld_KERNEL_INIT = kernel_init, ld_KERNEL_END_INIT = kernel_end_init, ld_KERNEL_TEXT = kernel_text,
          ld_KERNEL_END_TEXT = kernel_end_text, ld_KERNEL_DATA = kernel_data, ld_KERNEL_END_DATA = kernel_end_data,
          ld_stack_end = stack_end, ld_stack_start = stack_start, ld_K_STACK_START = k_stack_start,
          ld_KERNEL_BSS = kernel_bss, ld_KERNEL_END_BSS = kernel_end_bss, ld_KERNEL_TOP = kernel_top,
          ld_text = \<lparr>vma = K_PHYS_START, lma = K_PHYS_START, extent = kernel_end_text - K_PHYS_START\<rparr>,
          ld_ro = \<lparr>vma = kernel_end_text, lma = kernel_end_text, extent = orphans_ro i\<rparr>,
          ld_data = \<lparr>vma = kernel_data, lma = K_PHYS_START + (kernel_data - kernel_init), extent = kernel_end_data - kernel_data\<rparr>,
          ld_rw = \<lparr>vma = kernel_end_data, lma = kernel_end_data, extent = orphans_rw i\<rparr>,
          ld_bss = \<lparr>vma = stack_end, lma = K_PHYS_START + (kernel_bss - kernel_init), extent = kernel_end_bss - stack_end\<rparr>\<rparr>)"

text \<open>The addresses a section occupies at run time, and those the loader fills.\<close>

definition run_range :: "out_section \<Rightarrow> nat set" where
  "run_range s = {vma s..<vma s + extent s}"

definition load_range :: "out_section \<Rightarrow> nat set" where
  "load_range s = {lma s..<lma s + extent s}"

section \<open>The object of the boot code\<close>

record boot_object =
  start_at :: nat
  jmp_size :: nat
  code_size :: nat

definition multiboot_at :: "boot_object \<Rightarrow> nat" where
  "multiboot_at ob = ALIGN 4 (start_at ob + jmp_size ob)"

definition boot_info_at :: "boot_object \<Rightarrow> nat" where
  "boot_info_at ob = ALIGN 4 (multiboot_at ob + length (assemble multiboot_header))"

definition entry_at :: "boot_object \<Rightarrow> nat" where
  "entry_at ob = boot_info_at ob + 4"

definition gdtr_label :: "boot_object \<Rightarrow> nat" where
  "gdtr_label ob = ALIGN 4 (entry_at ob + code_size ob)"

definition gdt_label :: "boot_object \<Rightarrow> nat" where
  "gdt_label ob = ALIGN 4 (gdtr_label ob + length (assemble (gdtr 0)))"

definition gdt_end_label :: "boot_object \<Rightarrow> nat" where
  "gdt_end_label ob = gdt_label ob + length (assemble gdt)"

text \<open>The boot object lies within the input sections \<open>.init\<close>, which start at \<open>KERNEL_INIT\<close>. The linker keeps the
  alignment of its section, so that the assembler's alignment of offsets is one of addresses.\<close>

definition placed :: "link_input \<Rightarrow> boot_object \<Rightarrow> bool" where
  "placed i ob \<longleftrightarrow> 4 dvd start_at ob \<and> K_PHYS_START \<le> start_at ob \<and> gdt_end_label ob \<le> K_PHYS_START + in_init i"

definition linked_boot :: "link_input \<Rightarrow> boot_object \<Rightarrow> (boot_fun \<Rightarrow> addr) \<Rightarrow> boot_image" where
  "linked_boot i ob ret =
     \<lparr>gdt_at = of_nat (gdt_label ob), gdtr_at = of_nat (gdtr_label ob), boot_info = of_nat (boot_info_at ob),
      K_STACK_START = of_nat (ld_K_STACK_START (link_kernel i)), after_call = ret\<rparr>"

section \<open>The location counter\<close>

lemma ALIGN_ge: "0 < n \<Longrightarrow> dot \<le> ALIGN n dot"
proof -
  assume n: "0 < n"
  have "dot + n - 1 < (dot + n - 1) div n * n + n" using n by (metis div_mult_mod_eq mod_less_divisor nat_add_left_cancel_less)
  then show ?thesis unfolding ALIGN_def using n by linarith
qed

lemma ALIGN_less: "0 < n \<Longrightarrow> ALIGN n dot < dot + n"
  unfolding ALIGN_def using div_times_less_eq_dividend [of "dot + n - 1" n] by linarith

lemma ALIGN_dvd [simp]: "n dvd ALIGN n dot"
  by (simp add: ALIGN_def)

lemma ALIGN_same [simp]:
  assumes "n dvd dot"
  shows "ALIGN n dot = dot"
proof (cases "n = 0")
  case True
  then show ?thesis using assms by (simp add: ALIGN_def)
next
  case False
  then have "dot \<le> ALIGN n dot" "ALIGN n dot - dot < n" using ALIGN_ge [of n dot] ALIGN_less [of n dot] by simp_all
  moreover have "n dvd ALIGN n dot - dot" using assms by (intro dvd_diff_nat) simp_all
  ultimately show ?thesis using nat_dvd_not_less [of "ALIGN n dot - dot" n] by force
qed

lemma page_bounds: "dot \<le> ALIGN LD_PAGE_SIZE dot" "ALIGN LD_PAGE_SIZE dot < dot + 4096"
  using ALIGN_ge [of LD_PAGE_SIZE dot] ALIGN_less [of LD_PAGE_SIZE dot] by (simp_all add: LD_PAGE_SIZE_def)

lemma four_bounds: "dot \<le> ALIGN 4 dot" "ALIGN 4 dot < dot + 4"
  using ALIGN_ge [of 4 dot] ALIGN_less [of 4 dot] by simp_all

section \<open>The layout\<close>

text \<open>The symbols, in the order of the script.\<close>

definition page_map :: "link_input \<Rightarrow> nat \<Rightarrow> nat \<Rightarrow> nat \<Rightarrow> nat \<Rightarrow> nat \<Rightarrow> nat \<Rightarrow> nat \<Rightarrow> link_map" where
  "page_map i e1 e2 d e3 st b e4 =
    \<lparr>ld_KERNEL_INIT = K_PHYS_START, ld_KERNEL_END_INIT = e1, ld_KERNEL_TEXT = e1, ld_KERNEL_END_TEXT = e2, ld_KERNEL_DATA = d,
     ld_KERNEL_END_DATA = e3, ld_stack_end = st, ld_stack_start = st + 4096, ld_K_STACK_START = st + 4096,
     ld_KERNEL_BSS = b, ld_KERNEL_END_BSS = e4, ld_KERNEL_TOP = e4,
     ld_text = \<lparr>vma = K_PHYS_START, lma = K_PHYS_START, extent = e2 - K_PHYS_START\<rparr>,
     ld_ro = \<lparr>vma = e2, lma = e2, extent = orphans_ro i\<rparr>,
     ld_data = \<lparr>vma = d, lma = d, extent = e3 - d\<rparr>,
     ld_rw = \<lparr>vma = e3, lma = e3, extent = orphans_rw i\<rparr>,
     ld_bss = \<lparr>vma = st, lma = b, extent = e4 - st\<rparr>\<rparr>"

definition layout_of :: "link_input \<Rightarrow> nat \<Rightarrow> nat \<Rightarrow> nat \<Rightarrow> nat \<Rightarrow> nat \<Rightarrow> nat \<Rightarrow> nat \<Rightarrow> bool" where
  "layout_of i e1 e2 d e3 st b e4 \<longleftrightarrow>
     K_PHYS_START + in_init i \<le> e1 \<and> e1 + in_text i + in_rodata i \<le> e2 \<and> e2 + orphans_ro i \<le> d \<and> d + in_data i \<le> e3 \<and>
     e3 + orphans_rw i \<le> st \<and> st + 4096 \<le> b \<and> b < st + 8192 \<and> b + in_bss i + in_common i \<le> e4 \<and>
     4096 dvd e1 \<and> 4096 dvd e2 \<and> 4096 dvd e3 \<and> 4096 dvd b \<and> 4096 dvd e4 \<and>
     d = ALIGN (2 ^ data_align i) (e2 + orphans_ro i) \<and> st = ALIGN (2 ^ bss_align i) (e3 + orphans_rw i)"

lemma link_kernel_pages:
  obtains e1 e2 d e3 st b e4 where "link_kernel i = page_map i e1 e2 d e3 st b e4" "layout_of i e1 e2 d e3 st b e4"
proof -
  define e1 where "e1 = ALIGN LD_PAGE_SIZE (K_PHYS_START + in_init i)"
  define e2 where "e2 = ALIGN LD_PAGE_SIZE (e1 + in_text i + in_rodata i)"
  define d where "d = ALIGN (2 ^ data_align i) (e2 + orphans_ro i)"
  define e3 where "e3 = ALIGN LD_PAGE_SIZE (d + in_data i)"
  define st where "st = ALIGN (2 ^ bss_align i) (e3 + orphans_rw i)"
  define b where "b = ALIGN LD_PAGE_SIZE (st + 4096)"
  define e4 where "e4 = ALIGN LD_PAGE_SIZE (b + in_bss i + in_common i)"
  note e = e1_def e2_def d_def e3_def st_def b_def e4_def
  have le: "K_PHYS_START + in_init i \<le> e1" "e1 + in_text i + in_rodata i \<le> e2" "e2 + orphans_ro i \<le> d" "d + in_data i \<le> e3"
    "e3 + orphans_rw i \<le> st" "st + 4096 \<le> b" "b < st + 4096 + 4096" "b + in_bss i + in_common i \<le> e4"
    unfolding e by (rule page_bounds ALIGN_ge zero_less_power zero_less_numeral)+
  have dv: "LD_PAGE_SIZE dvd e1" "LD_PAGE_SIZE dvd e2" "LD_PAGE_SIZE dvd e3" "LD_PAGE_SIZE dvd b" "LD_PAGE_SIZE dvd e4"
    unfolding e by simp_all
  have top_page: "ALIGN LD_PAGE_SIZE e4 = e4" using dv(5) by simp
  have k: "K_STACK_SIZE = 4096" by (simp add: K_STACK_SIZE_def LD_PAGE_SIZE_def)
  have "link_kernel i = page_map i e1 e2 d e3 st b e4"
    using le unfolding link_kernel_def Let_def page_map_def k
      e1_def [symmetric] e2_def [symmetric] d_def [symmetric] e3_def [symmetric] st_def [symmetric] b_def [symmetric] e4_def [symmetric] top_page
    by simp
  moreover have "layout_of i e1 e2 d e3 st b e4"
    using le dv unfolding layout_of_def d_def [symmetric] st_def [symmetric] by (simp add: LD_PAGE_SIZE_def)
  ultimately show ?thesis by (rule that)
qed

lemma assembled_sizes: "length (assemble multiboot_header) = 12" "length (assemble (gdtr p)) = 6" "length (assemble gdt) = 24"
  by (simp_all add: gdt_bytes multiboot_header_def) (simp add: assemble_def)

lemma boot_labels:
  "start_at ob + jmp_size ob \<le> multiboot_at ob" "multiboot_at ob < start_at ob + jmp_size ob + 4"
  "multiboot_at ob + 12 \<le> boot_info_at ob" "boot_info_at ob + 4 \<le> gdtr_label ob" "gdtr_label ob + 6 \<le> gdt_label ob"
  "gdt_end_label ob = gdt_label ob + 24"
proof -
  show "start_at ob + jmp_size ob \<le> multiboot_at ob" "multiboot_at ob < start_at ob + jmp_size ob + 4"
    by (simp_all add: multiboot_at_def four_bounds)
  show "multiboot_at ob + 12 \<le> boot_info_at ob" unfolding boot_info_at_def assembled_sizes by (rule four_bounds)
  show "boot_info_at ob + 4 \<le> gdtr_label ob"
    using four_bounds(1) [of "entry_at ob + code_size ob"] unfolding gdtr_label_def [of ob] entry_at_def [of ob] by linarith
  show "gdtr_label ob + 6 \<le> gdt_label ob" unfolding gdt_label_def assembled_sizes by (rule four_bounds)
  show "gdt_end_label ob = gdt_label ob + 24" by (simp add: gdt_end_label_def assembled_sizes)
qed

lemma ranges_apart:
  assumes "x + n \<le> y" "y + k \<le> 2 ^ 32"
  shows "region (of_nat x) n \<inter> region (of_nat y) k = {}" "region (of_nat y) k \<inter> region (of_nat x) n = {}"
  using region_offsets_disjoint [OF assms, of 0] by auto

section \<open>Properties\<close>

text \<open>
  C18. The layout of the image, for input sections, orphan sections and alignments of any size: the sections follow each other in the
  order of the script from 1 MB on, each with room for its parts; the ends of \<open>.init\<close>, \<open>.text\<close>, \<open>.data\<close> and \<open>.bss\<close>
  and \<open>KERNEL_BSS\<close> are page boundaries, \<open>KERNEL_DATA\<close> only when no orphan lies in front of it; everything but
  \<open>.bss\<close> runs where it is loaded; the stack is 4 KB between the data and the variables of
  \<open>.bss\<close>. The load address of \<open>.bss\<close> is 4 KB to 8 KB above its run-time address, since
  it is computed from \<open>KERNEL_BSS\<close>, behind the stack: what the loader clears still covers every variable
  and touches neither code, data, orphans nor the stack, but it extends by as much above \<open>KERNEL_TOP\<close>.
\<close>

theorem link_layout:
  "let k = link_kernel i; gap = ld_KERNEL_BSS k - ld_stack_end k in
    ld_KERNEL_INIT k = 0x100000 \<and>
    (\<forall>a \<in> {ld_KERNEL_END_INIT k, ld_KERNEL_END_TEXT k, ld_KERNEL_END_DATA k, ld_KERNEL_BSS k, ld_KERNEL_END_BSS k, ld_KERNEL_TOP k}. 4096 dvd a) \<and>
    (orphans_ro i = 0 \<and> data_align i \<le> 12 \<longrightarrow> ld_KERNEL_DATA k = ld_KERNEL_END_TEXT k) \<and>
    ld_KERNEL_INIT k + in_init i \<le> ld_KERNEL_END_INIT k \<and> ld_KERNEL_TEXT k = ld_KERNEL_END_INIT k \<and>
    ld_KERNEL_TEXT k + in_text i + in_rodata i \<le> ld_KERNEL_END_TEXT k \<and> ld_KERNEL_END_TEXT k + orphans_ro i \<le> ld_KERNEL_DATA k \<and>
    ld_KERNEL_DATA k + in_data i \<le> ld_KERNEL_END_DATA k \<and> ld_KERNEL_END_DATA k + orphans_rw i \<le> ld_stack_end k \<and>
    ld_K_STACK_START k = ld_stack_end k + 4096 \<and> ld_K_STACK_START k \<le> ld_KERNEL_BSS k \<and>
    ld_KERNEL_BSS k + in_bss i + in_common i \<le> ld_KERNEL_END_BSS k \<and> ld_KERNEL_TOP k = ld_KERNEL_END_BSS k \<and>
    (\<forall>s \<in> {ld_text k, ld_ro k, ld_data k, ld_rw k}. load_range s = run_range s \<and> load_range (ld_bss k) \<inter> run_range s = {}) \<and>
    load_range (ld_bss k) \<inter> {ld_stack_end k..<ld_K_STACK_START k} = {} \<and>
    {ld_KERNEL_BSS k..<ld_KERNEL_END_BSS k} \<subseteq> load_range (ld_bss k) \<and>
    4096 \<le> gap \<and> gap < 8192 \<and> lma (ld_bss k) = vma (ld_bss k) + gap \<and>
    load_range (ld_bss k) = {ld_KERNEL_BSS k..<ld_KERNEL_TOP k + gap}"
proof -
  obtain e1 e2 d e3 st b e4 where e: "link_kernel i = page_map i e1 e2 d e3 st b e4" and l: "layout_of i e1 e2 d e3 st b e4"
    by (rule link_kernel_pages)
  have init: "K_PHYS_START = 0x100000" by (simp add: K_PHYS_START_def)
  have le: "K_PHYS_START + in_init i \<le> e1" "e1 + in_text i + in_rodata i \<le> e2" "e2 + orphans_ro i \<le> d" "d + in_data i \<le> e3"
    "e3 + orphans_rw i \<le> st" "st + 4096 \<le> b" "b < st + 8192" "b + in_bss i + in_common i \<le> e4"
    using l unfolding layout_of_def by blast+
  have dv: "4096 dvd e1" "4096 dvd e2" "4096 dvd e3" "4096 dvd b" "4096 dvd e4" using l unfolding layout_of_def by blast+
  have data: "d = e2" if "orphans_ro i = 0" "data_align i \<le> 12"
  proof -
    have "(2 :: nat) ^ data_align i dvd 2 ^ 12" using that(2) by (rule le_imp_power_dvd)
    then have "2 ^ data_align i dvd (4096 :: nat)" by simp
    then have "2 ^ data_align i dvd e2" by (rule dvd_trans) (rule dv(2))
    moreover have "d = ALIGN (2 ^ data_align i) (e2 + orphans_ro i)" using l unfolding layout_of_def by blast
    ultimately show ?thesis using that(1) by simp
  qed
  have ran: "b + (e4 - st) = e4 + (b - st)" "d + (e3 - d) = e3" "K_PHYS_START + (e2 - K_PHYS_START) = e2" using le by linarith+
  have sec: "{b..<e4 + (b - st)} \<inter> {x..<y} = {}" if "y \<le> b" for x y using that by auto
  show ?thesis
    unfolding e Let_def page_map_def run_range_def load_range_def link_map.simps out_section.simps ran
    using le data by (intro conjI) (auto simp: init [symmetric] sec dv)
qed

definition demo_link_input :: link_input where
  "demo_link_input = \<lparr>in_init = 0x3d0, in_text = 0x4200, in_rodata = 0x900, in_data = 0xa200, in_bss = 0x8c0, in_common = 0,
     orphans_ro = 0xb40, orphans_rw = 0, data_align = 5, bss_align = 5\<rparr>"

lemmas demo_link = link_kernel_def ALIGN_def demo_link_input_def K_PHYS_START_def LD_PAGE_SIZE_def K_STACK_SIZE_def

text \<open>With the orphan \<open>.eh_frame\<close> in front of it \<open>.data\<close> does not start on a page boundary.\<close>

lemma demo_layout:
  "ld_KERNEL_DATA (link_kernel demo_link_input) = 0x106b40" "ld_stack_end (link_kernel demo_link_input) = 0x111000"
  "ld_KERNEL_BSS (link_kernel demo_link_input) = 0x112000" "ld_KERNEL_TOP (link_kernel demo_link_input) = 0x113000"
  by (simp_all add: demo_link cong: let_weak_cong)

theorem link_layout_witness:
  "load_range (ld_bss (link_kernel demo_link_input)) = {0x112000..<0x114000} \<and>
   ld_KERNEL_DATA (link_kernel (demo_link_input\<lparr>orphans_ro := 0\<rparr>)) = ld_KERNEL_END_TEXT (link_kernel (demo_link_input\<lparr>orphans_ro := 0\<rparr>)) \<and>
   4096 dvd ld_KERNEL_END_DATA (link_kernel demo_link_input)"
proof -
  have "orphans_ro (demo_link_input\<lparr>orphans_ro := 0\<rparr>) = 0" "data_align (demo_link_input\<lparr>orphans_ro := 0\<rparr>) \<le> 12"
    by (simp_all add: demo_link_input_def)
  then show ?thesis
    using link_layout [of demo_link_input] link_layout [of "demo_link_input\<lparr>orphans_ro := 0\<rparr>"]
    unfolding Let_def demo_layout by auto
qed

text \<open>The calling convention: a function that returns has its return address on top of the stack again.\<close>

definition keeps_stack :: "(boot_fun \<Rightarrow> boot_cpu \<Rightarrow> boot_cpu option) \<Rightarrow> bool" where
  "keeps_stack callee \<longleftrightarrow> (\<forall>f b b'. callee f b = Some b' \<longrightarrow> b_esp b' = b_esp b)"

text \<open>A call with the stack pointer at the top of the stack of the linker script.\<close>

definition on_stack :: "nat \<Rightarrow> boot_cpu \<Rightarrow> boot_cpu \<Rightarrow> bool" where
  "on_stack st b b' \<longleftrightarrow> b_esp b' = of_nat (st + 4092) \<and> same_on (- region (of_nat st) 4096) (b_mem b) (b_mem b')"

lemma called_on_stack:
  assumes "b_esp b = of_nat (st + 4096)"
  shows "on_stack st b (called B f b)"
proof -
  have sp: "b_esp b - 4 = of_nat (st + 4092)" using assms by simp
  then show ?thesis
    using cell_in_frame [of st "st + 4092" 4096 0] unfolding on_stack_def called_def sp by (auto intro!: store32_same)
qed

text \<open>
  C15. The linked image boots: with the boot object anywhere in the \<open>.init\<close> sections, the multiboot header is on a
  multiple of four, in the \<open>.init\<close> part at the start of the image, at most three bytes behind the jump of \<open>_start\<close>,
  and its words add up to zero. Once the loader has placed the descriptor table, the boot code loads it and the segment
  registers without a fault: every segment is present, of privilege level 0, of the right
  kind, 32-bit, and covers all 4 GB from address 0, under the selectors \<open>KERNEL_CODE\<close> and \<open>KERNEL_DATA\<close>.
  The boot information pointer is stored and \<open>init\<close> is called at the top of the stack of the linker script,
  outside which the call changes nothing, and the descriptor table stays in place. If \<open>init\<close> returns, by the calling
  convention with its return address on top of the stack, \<open>main\<close> is called at the top of the
  same stack, outside which this call changes nothing; should \<open>main\<close> return, the processor idles with the interrupts off.
\<close>

theorem linked_kernel_boots:
  fixes ob :: boot_object and b :: boot_cpu
  assumes "placed i ob" "ld_KERNEL_TOP (link_kernel i) \<le> 2 ^ 32"
    "bytes_at (b_mem b) (of_nat (gdt_label ob)) (assemble gdt)"
    "bytes_at (b_mem b) (of_nat (gdtr_label ob)) (assemble (gdtr (of_nat (gdt_label ob))))"
    "keeps_stack callee"
  shows "4 dvd multiboot_at ob \<and> multiboot_at ob \<le> start_at ob + jmp_size ob + 3 \<and>
    {multiboot_at ob..<multiboot_at ob + length (assemble multiboot_header)} \<subseteq> {K_PHYS_START..<K_PHYS_START + in_init i} \<and>
    MULTIBOOT_HEADER_MAGIC + MULTIBOOT_HEADER_FLAGS + CHECKSUM = 0 \<and>
    (let B = linked_boot i ob r; st = ld_stack_end (link_kernel i) in
     \<exists>b1. flat_machine b1 \<and> b_mem b1 = store32 (of_nat (boot_info_at ob)) (b_ebx b) (b_mem b) \<and>
      on_stack st b1 (called B Init b1) \<and>
      bytes_at (b_mem (called B Init b1)) (of_nat (gdt_label ob)) (assemble gdt) \<and>
      (case callee Init (called B Init b1) of
         None \<Rightarrow> boot_exec B callee boot_code b = Some (Running Init (called B Init b1))
       | Some b2 \<Rightarrow> \<exists>b2'. on_stack st b2 b2' \<and>
           (case callee Main b2' of
              None \<Rightarrow> boot_exec B callee boot_code b = Some (Running Main b2')
            | Some b3 \<Rightarrow> boot_exec B callee boot_code b = Some (Idle (b3\<lparr>b_esp := of_nat (st + 4096), b_if := False\<rparr>)))))"
proof -
  let ?B = "linked_boot i ob r"
  obtain e1 e2 d e3 st bb e4 where e: "link_kernel i = page_map i e1 e2 d e3 st bb e4" and "layout_of i e1 e2 d e3 st bb e4"
    by (rule link_kernel_pages)
  then have l: "K_PHYS_START + in_init i \<le> e1" "e1 + in_text i + in_rodata i \<le> e2" "e2 + orphans_ro i \<le> d" "d + in_data i \<le> e3"
    "e3 + orphans_rw i \<le> st" "st + 4096 \<le> bb" "bb + in_bss i + in_common i \<le> e4"
    unfolding layout_of_def by blast+
  have end_obj: "gdt_label ob + 24 \<le> K_PHYS_START + in_init i" "K_PHYS_START \<le> start_at ob"
    using assms(1) boot_labels(6) [of ob] by (simp_all add: placed_def)
  have top_lim: "e4 \<le> 2 ^ 32" using assms(2) by (simp add: e page_map_def)
  have lim: "gdt_label ob + 24 \<le> st" "st + 4096 \<le> 2 ^ 32" using l end_obj top_lim by linarith+
  have fields: "gdt_at ?B = of_nat (gdt_label ob)" "gdtr_at ?B = of_nat (gdtr_label ob)" "boot_info ?B = of_nat (boot_info_at ob)"
    "K_STACK_START ?B = of_nat (st + 4096)" and st: "ld_stack_end (link_kernel i) = st"
    by (simp_all add: linked_boot_def e page_map_def)
  have clear: "clear_of (region (boot_info ?B) 4) [(gdt_at ?B, 24), (gdtr_at ?B, 6)]"
    unfolding fields using lim boot_labels(4,5) [of ob]
    by (simp add: ranges_apart(2) [of "boot_info_at ob" 4 "gdt_label ob" 24] ranges_apart(2) [of "boot_info_at ob" 4 "gdtr_label ob" 6])
  obtain b1 where b1: "flat_machine b1" "b_esp b1 = of_nat (st + 4096)" "b_mem b1 = store32 (of_nat (boot_info_at ob)) (b_ebx b) (b_mem b)"
    and run: "boot_exec ?B callee boot_code b = Some
        (case callee Init (called ?B Init b1) of None \<Rightarrow> Running Init (called ?B Init b1)
         | Some b2 \<Rightarrow> (let b2' = called ?B Main (b2\<lparr>b_esp := b_esp b2 + 4\<rparr>) in
             case callee Main b2' of None \<Rightarrow> Running Main b2'
             | Some b3 \<Rightarrow> Idle (b3\<lparr>b_esp := b_esp b3 + 4, b_if := False\<rparr>)))"
    using boot_enters_kernel [OF _ _ clear, of b callee] assms(3,4) unfolding fields by blast
  have init: "on_stack st b1 (called ?B Init b1)" by (rule called_on_stack [OF b1(2)])
  have apart: "region (of_nat (gdt_label ob)) 24 \<inter> region (of_nat st) 4096 = {}" "region (of_nat (gdt_label ob)) 24 \<inter> region (of_nat (boot_info_at ob)) 4 = {}"
    using ranges_apart(1) [of "gdt_label ob" 24 st 4096] lim clear fields by simp_all
  have "same_on (region (of_nat (gdt_label ob)) 24) (b_mem b) (b_mem (called ?B Init b1))"
    using same_on_trans [OF store32_same [OF apart(2), of "b_mem b" "b_ebx b"]] init apart(1) b1(3)
    unfolding on_stack_def by (metis same_on_subset disjoint_eq_subset_Compl)
  then have gdt: "bytes_at (b_mem (called ?B Init b1)) (of_nat (gdt_label ob)) (assemble gdt)"
    using assms(3) by (subst bytes_at_same) (simp_all add: assembled_sizes)
  have back4: "b_esp b' + 4 = of_nat (st + 4096)" if "callee f c = Some b'" "b_esp c = of_nat (st + 4092)" for f c b'
    using that assms(5) by (simp add: keeps_stack_def)
  have rest: "case callee Init (called ?B Init b1) of
         None \<Rightarrow> boot_exec ?B callee boot_code b = Some (Running Init (called ?B Init b1))
       | Some b2 \<Rightarrow> \<exists>b2'. on_stack st b2 b2' \<and>
           (case callee Main b2' of
              None \<Rightarrow> boot_exec ?B callee boot_code b = Some (Running Main b2')
            | Some b3 \<Rightarrow> boot_exec ?B callee boot_code b = Some (Idle (b3\<lparr>b_esp := of_nat (st + 4096), b_if := False\<rparr>)))"
  proof (cases "callee Init (called ?B Init b1)")
    case (Some b2)
    let ?b2 = "b2\<lparr>b_esp := of_nat (st + 4096)\<rparr>"
    have up: "b_esp b2 + 4 = of_nat (st + 4096)" using back4 [OF Some] init by (simp only: on_stack_def)
    have "on_stack st ?b2 (called ?B Main ?b2)" by (rule called_on_stack) simp
    then have main: "on_stack st b2 (called ?B Main ?b2)" by (simp add: on_stack_def)
    show ?thesis
      using main back4 [of Main "called ?B Main ?b2"] unfolding run Some Let_def up option.case on_stack_def
      by (intro exI [of _ "called ?B Main ?b2"]) (simp split: option.split)
  qed (simp add: run)
  have "4 dvd multiboot_at ob" "multiboot_at ob \<le> start_at ob + jmp_size ob + 3"
    "{multiboot_at ob..<multiboot_at ob + 12} \<subseteq> {K_PHYS_START..<K_PHYS_START + in_init i}"
    using boot_labels [of ob] end_obj by (simp_all add: multiboot_at_def [of ob])
  moreover have "MULTIBOOT_HEADER_MAGIC + MULTIBOOT_HEADER_FLAGS + CHECKSUM = 0" by (simp add: CHECKSUM_def)
  ultimately show ?thesis
    unfolding Let_def st assembled_sizes using b1(1,3) init gdt rest by (intro conjI) blast+
qed

definition demo_boot_object :: boot_object where
  "demo_boot_object = \<lparr>start_at = 0x100120, jmp_size = 2, code_size = 0x37\<rparr>"

definition demo_loaded :: boot_cpu where
  "demo_loaded = \<lparr>b_mem = put_bytes 0x100174 (assemble gdt) (put_bytes 0x10016c (assemble (gdtr 0x100174)) (\<lambda>_. 0)), b_ebx = 0x9500, b_ax = 0,
     b_esp = 0, b_gdtr = \<lparr>limit = 0, base = 0\<rparr>, b_sel = (\<lambda>_. 0x18), b_seg = (\<lambda>_. flat 0), b_if = False\<rparr>"

theorem linked_kernel_boots_witness:
  "\<exists>b'. boot_exec (linked_boot demo_link_input demo_boot_object (\<lambda>_. 0x100156)) (\<lambda>f b. if f = Init then Some b else None) boot_code demo_loaded =
     Some (Running Main b') \<and> b_esp b' = 0x111ffc"
proof -
  have labels: "gdt_label demo_boot_object = 0x100174" "gdtr_label demo_boot_object = 0x10016c"
    by (simp_all add: gdt_label_def gdtr_label_def entry_at_def boot_info_at_def multiboot_at_def assembled_sizes demo_boot_object_def ALIGN_def)
  have mem: "bytes_at (b_mem demo_loaded) (of_nat (gdt_label demo_boot_object)) (assemble gdt)"
    "bytes_at (b_mem demo_loaded) (of_nat (gdtr_label demo_boot_object)) (assemble (gdtr (of_nat (gdt_label demo_boot_object))))"
    unfolding labels of_nat_numeral by code_simp+
  have lay: "placed demo_link_input demo_boot_object" "ld_KERNEL_TOP (link_kernel demo_link_input) \<le> 2 ^ 32"
    using labels boot_labels(6) [of demo_boot_object] demo_layout(4)
    by (simp_all add: placed_def demo_link_input_def demo_boot_object_def K_PHYS_START_def)
  have "keeps_stack (\<lambda>f b. if f = Init then Some b else None)" by (simp add: keeps_stack_def)
  from linked_kernel_boots [OF lay mem this, of "\<lambda>_. 0x100156"] show ?thesis
    by (auto simp: Let_def on_stack_def demo_layout)
qed

end
