(* ===== verification/Barrier.thy ===== *)
theory Barrier
  imports LinkedList
begin

text \<open>
  The access and barrier macros of \<open>include/kernel.h\<close> and the two list functions whose comments promise
  an ordering between processors (\<open>list_del_init_careful\<close> and \<open>list_empty_careful\<close> of \<open>include/list.h\<close>).

  Code is a tree of plain accesses, volatile accesses (\<open>READ_ONCE\<close> and \<open>WRITE_ONCE\<close>) and barriers. It runs
  alone (\<open>run\<close>) or on one of two processors (\<open>act\<close>), where the order of the accesses is relaxed the way the
  compiler and the processor together may relax it. A store waits in a buffer and reaches the memory at any
  later time and in any order, but two stores to one cell and two volatile stores stay in order.
  A plain load may use a value its processor had fetched from the cell earlier; a volatile one may not.
  The barrier, which is a locked instruction for the processor and a clobber of memory for the compiler,
  waits until the buffer is empty and drops the values fetched before it. An arbitrary sequence of actions says which
  processor does what next. Not modelled are stores that move in front of earlier loads of the same code, and stores that the
  compiler tears, merges or invents.
\<close>

section \<open>Code\<close>

datatype cell = Next addr | Prev addr | Data addr

datatype prog =
    Done "addr list"
  | Read cell "addr \<Rightarrow> prog"
  | Volatile_read cell "addr \<Rightarrow> prog"
  | Write cell addr prog
  | Volatile_write cell addr prog
  | Fence prog

definition barrier :: "prog \<Rightarrow> prog" where
  "barrier k = Fence k"

definition READ_ONCE :: "cell \<Rightarrow> (addr \<Rightarrow> prog) \<Rightarrow> prog" where
  "READ_ONCE x k = Volatile_read x k"

definition WRITE_ONCE :: "cell \<Rightarrow> addr \<Rightarrow> prog \<Rightarrow> prog" where
  "WRITE_ONCE x val k = Volatile_write x val k"

definition smp_store_release :: "cell \<Rightarrow> addr \<Rightarrow> prog \<Rightarrow> prog" where
  "smp_store_release p v k = barrier (WRITE_ONCE p v k)"

definition smp_load_acquire :: "cell \<Rightarrow> (addr \<Rightarrow> prog) \<Rightarrow> prog" where
  "smp_load_acquire p k = READ_ONCE p (\<lambda>p1. barrier (k p1))"

definition del_code :: "addr \<Rightarrow> addr \<Rightarrow> prog \<Rightarrow> prog" where
  "del_code prv nxt k = Write (Prev nxt) prv (WRITE_ONCE (Next prv) nxt k)"

definition del_entry_code :: "addr \<Rightarrow> prog \<Rightarrow> prog" where
  "del_entry_code entry k = Read (Prev entry) (\<lambda>prv. Read (Next entry) (\<lambda>nxt. del_code prv nxt k))"

definition init_code :: "addr \<Rightarrow> prog \<Rightarrow> prog" where
  "init_code list k = WRITE_ONCE (Next list) list (Write (Prev list) list k)"

definition del_init_code :: "addr \<Rightarrow> prog \<Rightarrow> prog" where
  "del_init_code entry k = del_entry_code entry (init_code entry k)"

definition del_init_careful_code :: "addr \<Rightarrow> prog \<Rightarrow> prog" where
  "del_init_careful_code entry k =
     del_entry_code entry (Write (Prev entry) entry (smp_store_release (Next entry) entry k))"

definition empty_careful_code :: "addr \<Rightarrow> (bool \<Rightarrow> prog) \<Rightarrow> prog" where
  "empty_careful_code head k =
     smp_load_acquire (Next head) (\<lambda>nxt. if nxt = head then Read (Prev head) (\<lambda>p. k (nxt = p)) else k False)"

text \<open>The callers: plain stores of data before the removal, plain loads of data after a test that succeeds.\<close>

fun store_all :: "(addr \<times> addr) list \<Rightarrow> prog \<Rightarrow> prog" where
  "store_all [] k = k"
| "store_all ((a, v) # ws) k = Write (Data a) v (store_all ws k)"

fun load_all :: "addr list \<Rightarrow> addr list \<Rightarrow> prog" where
  "load_all [] vs = Done (1 # vs)"
| "load_all (a # rs) vs = Read (Data a) (\<lambda>v. load_all rs (vs @ [v]))"

definition after_test :: "addr list \<Rightarrow> bool \<Rightarrow> prog" where
  "after_test rs b = (if b then load_all rs [] else Done [0])"

section \<open>Processors\<close>

type_synonym cells = "cell \<Rightarrow> addr"

primrec run :: "prog \<Rightarrow> cells \<Rightarrow> addr list \<times> cells" where
  "run (Done r) m = (r, m)"
| "run (Read c k) m = run (k (m c)) m"
| "run (Volatile_read c k) m = run (k (m c)) m"
| "run (Write c v p) m = run p (m(c := v))"
| "run (Volatile_write c v p) m = run p (m(c := v))"
| "run (Fence p) m = run p m"

datatype core = Core0 | Core1

text \<open>A waiting store, with its kind: volatile or plain.\<close>

type_synonym store = "bool \<times> cell \<times> addr"

record multi =
  tmem :: cells
  buf :: "core \<Rightarrow> store list"
  early :: "core \<Rightarrow> cell \<Rightarrow> addr option"
  thr :: "core \<Rightarrow> prog"

datatype action = Exec core | Exec_early core | Flush core nat | Fetch core cell

definition apply_store :: "store \<Rightarrow> cells \<Rightarrow> cells" where
  "apply_store w m = (case w of (b, c, v) \<Rightarrow> m(c := v))"

definition view :: "multi \<Rightarrow> core \<Rightarrow> cells" where
  "view s i = fold apply_store (buf s i) (tmem s)"

text \<open>A store may overtake those in front of it unless they are to its cell or both are volatile.\<close>

fun may_overtake :: "store \<Rightarrow> store \<Rightarrow> bool" where
  "may_overtake (b, c, v) (b', c', v') \<longleftrightarrow> c \<noteq> c' \<and> \<not> (b \<and> b')"

definition enter_store :: "core \<Rightarrow> store \<Rightarrow> prog \<Rightarrow> multi \<Rightarrow> multi" where
  "enter_store i w p s =
     s\<lparr>thr := (thr s)(i := p), buf := (buf s)(i := buf s i @ [w]),
       early := (early s)(i := (early s i)(fst (snd w) := None))\<rparr>"

definition goto :: "core \<Rightarrow> prog \<Rightarrow> multi \<Rightarrow> multi" where
  "goto i p s = s\<lparr>thr := (thr s)(i := p)\<rparr>"

fun act :: "action \<Rightarrow> multi \<Rightarrow> multi option" where
  "act (Exec i) s =
     (case thr s i of
        Done r \<Rightarrow> None
      | Read c k \<Rightarrow> Some (goto i (k (view s i c)) s)
      | Volatile_read c k \<Rightarrow> Some (goto i (k (view s i c)) s)
      | Write c v p \<Rightarrow> Some (enter_store i (False, c, v) p s)
      | Volatile_write c v p \<Rightarrow> Some (enter_store i (True, c, v) p s)
      | Fence p \<Rightarrow> if buf s i = [] then Some (goto i p (s\<lparr>early := (early s)(i := (\<lambda>_. None))\<rparr>)) else None)"
| "act (Exec_early i) s =
     (case thr s i of
        Read c k \<Rightarrow> (case early s i c of None \<Rightarrow> None | Some v \<Rightarrow> Some (goto i (k v) s))
      | _ \<Rightarrow> None)"
| "act (Flush i n) s =
     (if n < length (buf s i) \<and> (\<forall>w \<in> set (take n (buf s i)). may_overtake (buf s i ! n) w)
      then Some (s\<lparr>tmem := apply_store (buf s i ! n) (tmem s), buf := (buf s)(i := take n (buf s i) @ drop (Suc n) (buf s i))\<rparr>)
      else None)"
| "act (Fetch i c) s = Some (s\<lparr>early := (early s)(i := (early s i)(c := Some (view s i c)))\<rparr>)"

fun acts :: "action list \<Rightarrow> multi \<Rightarrow> multi option" where
  "acts [] s = Some s"
| "acts (a # as) s = Option.bind (act a s) (acts as)"

section \<open>The code is the function\<close>

definition holds :: "cells \<Rightarrow> 'a list_heap_scheme \<Rightarrow> bool" where
  "holds m \<sigma> \<longleftrightarrow> (\<forall>a. m (Next a) = next_of \<sigma> a \<and> m (Prev a) = prev_of \<sigma> a)"

lemma holds_upd [simp]:
  "holds m \<sigma> \<Longrightarrow> holds (m(Next a := v)) (set_next a v \<sigma>)" "holds m \<sigma> \<Longrightarrow> holds (m(Prev a := v)) (set_prev a v \<sigma>)"
  "holds m \<sigma> \<Longrightarrow> holds (m(Data a := v)) \<sigma>"
  by (auto simp: holds_def set_next_def set_prev_def)

lemma run_del_code:
  "holds m \<sigma> \<Longrightarrow> \<exists>m'. holds m' (raw_list_del_entry e \<sigma>) \<and> (\<forall>k. run (del_entry_code e k) m = run k m') \<and> (\<forall>a. m' (Data a) = m (Data a))"
  by (intro exI [of _ "m(Prev (next_of \<sigma> e) := prev_of \<sigma> e, Next (prev_of \<sigma> e) := next_of \<sigma> e)"])
    (simp add: del_entry_code_def del_code_def WRITE_ONCE_def raw_list_del_entry_def raw_list_del_def Let_def, simp add: holds_def)

lemma run_del_init:
  assumes "holds m \<sigma>"
  shows "\<exists>m'. run (del_init_careful_code e k) m = run k m' \<and> run (del_init_code e k) m = run k m' \<and>
    holds m' (list_del_init e \<sigma>) \<and> (\<forall>a. m' (Data a) = m (Data a))"
proof -
  obtain m1 where m1: "holds m1 (raw_list_del_entry e \<sigma>)" "\<forall>k. run (del_entry_code e k) m = run k m1" "\<forall>a. m1 (Data a) = m (Data a)"
    using run_del_code [OF assms] by blast
  have "m1(Prev e := e, Next e := e) = m1(Next e := e, Prev e := e)" by (rule fun_upd_twist) simp
  then show ?thesis
    using m1 by (intro exI [of _ "m1(Next e := e, Prev e := e)"])
      (simp add: del_init_careful_code_def del_init_code_def init_code_def smp_store_release_def barrier_def WRITE_ONCE_def
        list_del_init_def INIT_LIST_HEAD_def Let_def)
qed

lemma run_empty_careful:
  "holds m \<sigma> \<Longrightarrow> run (empty_careful_code h k) m = run (k (list_empty_careful h \<sigma>)) m"
  by (auto simp: empty_careful_code_def smp_load_acquire_def READ_ONCE_def barrier_def list_empty_careful_def Let_def holds_def)

definition stored :: "(addr \<times> addr) list \<Rightarrow> cells \<Rightarrow> cells" where
  "stored ws m = fold (\<lambda>(a, v) m. m(Data a := v)) ws m"

lemma stored_simps [simp]: "stored [] m = m" "stored ((a, v) # ws) m = stored ws (m(Data a := v))"
  by (simp_all add: stored_def)

lemma stored_links [simp]: "stored ws m (Next a) = m (Next a)" "stored ws m (Prev a) = m (Prev a)"
  by (induction ws arbitrary: m) auto

lemma run_store_all: "run (store_all ws k) m = run k (stored ws m)"
  by (induction ws arbitrary: m) auto

section \<open>The releasing store\<close>

text \<open>\<open>releases c v p m\<close>: run from \<open>m\<close>, the code \<open>p\<close> ends with a barrier and a volatile store of \<open>v\<close> to \<open>c\<close>, and
  does not store \<open>v\<close> to \<open>c\<close> before.\<close>

definition last_store :: "cell \<Rightarrow> addr \<Rightarrow> prog \<Rightarrow> bool" where
  "last_store c v p \<longleftrightarrow> (\<exists>r. p = Volatile_write c v (Done r))"

lemma last_store_Fence [simp]: "\<not> last_store c v (Fence p)"
  by (simp add: last_store_def)

primrec releases :: "cell \<Rightarrow> addr \<Rightarrow> prog \<Rightarrow> cells \<Rightarrow> bool" where
  "releases c v (Done r) m \<longleftrightarrow> False"
| "releases c v (Read d k) m \<longleftrightarrow> releases c v (k (m d)) m"
| "releases c v (Volatile_read d k) m \<longleftrightarrow> releases c v (k (m d)) m"
| "releases c v (Write d u p) m \<longleftrightarrow> (d, u) \<noteq> (c, v) \<and> releases c v p (m(d := u))"
| "releases c v (Volatile_write d u p) m \<longleftrightarrow> (d, u) \<noteq> (c, v) \<and> releases c v p (m(d := u))"
| "releases c v (Fence p) m \<longleftrightarrow> last_store c v p \<or> releases c v p m"

lemma releases_store_all: "releases (Next e) v (store_all ws k) m = releases (Next e) v k (stored ws m)"
  by (induction ws arbitrary: m) auto

lemma releases_del_init_careful:
  assumes "m (Next e) \<noteq> e" "m (Prev e) \<noteq> e"
  shows "releases (Next e) e (store_all ws (del_init_careful_code e (Done r))) m"
  using assms unfolding releases_store_all
  by (auto simp: del_init_careful_code_def del_entry_code_def del_code_def smp_store_release_def barrier_def WRITE_ONCE_def last_store_def)

section \<open>The invariant of both processors\<close>

definition quiet :: "multi \<Rightarrow> bool" where
  "quiet s \<longleftrightarrow> (\<exists>r. thr s Core0 = Done r) \<and> buf s Core0 = []"

text \<open>The writing processor, alone in storing: it is quiet, or its releasing store is to come, is next behind
  the barrier, or is the only one in its buffer. What it fetched early is what it would load now.\<close>

definition writer_inv :: "cell \<Rightarrow> addr \<Rightarrow> addr list \<times> cells \<Rightarrow> multi \<Rightarrow> bool" where
  "writer_inv c v fin s \<longleftrightarrow> run (thr s Core0) (view s Core0) = fin \<and>
     (\<forall>d u. early s Core0 d = Some u \<longrightarrow> u = view s Core0 d) \<and>
     (quiet s \<or> tmem s c \<noteq> v \<and>
       ((\<forall>b. (b, c, v) \<notin> set (buf s Core0)) \<and> releases c v (thr s Core0) (view s Core0) \<or>
        buf s Core0 = [] \<and> last_store c v (thr s Core0) \<or>
        (\<exists>r. thr s Core0 = Done r) \<and> buf s Core0 = [(True, c, v)]))"

definition loading :: "addr list \<Rightarrow> cells \<Rightarrow> prog \<Rightarrow> bool" where
  "loading rs m p \<longleftrightarrow> (\<exists>as bs. rs = as @ bs \<and> p = load_all bs (map (\<lambda>a. m (Data a)) as))"

lemma load_all_neq [simp]:
  "load_all rs vs \<noteq> Fence p" "load_all rs vs \<noteq> Volatile_read c k" "load_all rs vs \<noteq> Write c v p" "load_all rs vs \<noteq> Volatile_write c v p"
  by (cases rs; simp)+

lemma loading_neq [simp]:
  "\<not> loading rs m (Fence p)" "\<not> loading rs m (Volatile_read c k)" "\<not> loading rs m (Write c v p)" "\<not> loading rs m (Volatile_write c v p)"
  by (auto simp: loading_def dest: sym)

lemma loading_read:
  assumes "loading rs m (Read d k)"
  shows "loading rs m (k (m d))"
proof -
  obtain as bs where ab: "rs = as @ bs" "Read d k = load_all bs (map (\<lambda>a. m (Data a)) as)" using assms by (auto simp: loading_def)
  then obtain a bs' where "bs = a # bs'" by (cases bs) auto
  then show ?thesis unfolding loading_def using ab by (intro exI [of _ "as @ [a]"] exI [of _ bs']) auto
qed

text \<open>The testing processor: once it has seen the releasing store, the writer is quiet; behind its barrier, what it
  fetched early is what is in memory.\<close>

definition reader_inv :: "addr \<Rightarrow> addr list \<Rightarrow> multi \<Rightarrow> bool" where
  "reader_inv e rs s \<longleftrightarrow> buf s Core1 = [] \<and>
     (thr s Core1 = empty_careful_code e (after_test rs) \<or>
      thr s Core1 \<in> {Fence (Done [0]), Done [0]} \<or>
      quiet s \<and>
       (thr s Core1 = Fence (Read (Prev e) (\<lambda>p. after_test rs (e = p))) \<or>
        (\<forall>d u. early s Core1 d = Some u \<longrightarrow> u = tmem s d) \<and>
         (thr s Core1 = Read (Prev e) (\<lambda>p. after_test rs (e = p)) \<or> loading rs (tmem s) (thr s Core1))))"

lemma fold_apply_upd:
  "\<forall>(b', c', v') \<in> set ws. c \<noteq> c' \<Longrightarrow> fold apply_store ws (m(c := v)) = (fold apply_store ws m)(c := v)"
  by (induction ws arbitrary: m) (auto simp: apply_store_def fun_upd_twist split_beta)

lemma view_flush:
  assumes "n < length ws" "\<forall>w \<in> set (take n ws). may_overtake (ws ! n) w"
  shows "fold apply_store (take n ws @ drop (Suc n) ws) (apply_store (ws ! n) m) = fold apply_store ws m"
proof -
  obtain b c v where w: "ws ! n = (b, c, v)" by (cases "ws ! n")
  have "\<forall>(b', c', v') \<in> set (take n ws). c \<noteq> c'" using assms(2) by (auto simp: w)
  then have "fold apply_store (take n ws) (apply_store (ws ! n) m) = apply_store (ws ! n) (fold apply_store (take n ws) m)"
    by (simp add: w apply_store_def fold_apply_upd)
  then have "fold apply_store (take n ws @ drop (Suc n) ws) (apply_store (ws ! n) m) = fold apply_store (take n ws @ ws ! n # drop (Suc n) ws) m"
    by simp
  then show ?thesis using id_take_nth_drop [OF assms(1)] by simp
qed

lemma view_simps:
  "buf s i = [] \<Longrightarrow> view s i = tmem s"
  "view (goto j p s) i = view s i" "view (s\<lparr>early := f\<rparr>) i = view s i"
  "view (enter_store i (b, c, v) p s) i = (view s i)(c := v)"
  by (simp_all add: view_def goto_def enter_store_def apply_store_def)

lemma act_other:
  assumes "act a s = Some s'" "a \<in> {Exec i, Exec_early i} \<union> range (Flush i) \<union> range (Fetch i)" "j \<noteq> i"
  shows "thr s' j = thr s j" "buf s' j = buf s j" "early s' j = early s j"
  using assms by (auto simp: goto_def enter_store_def split: prog.split_asm option.split_asm if_split_asm)

lemma writer_flush:
  assumes "writer_inv c v fin s" "act (Flush Core0 n) s = Some s'"
  shows "writer_inv c v fin s' \<and> \<not> quiet s"
proof -
  let ?b = "buf s Core0"
  have n: "n < length ?b" "\<forall>w \<in> set (take n ?b). may_overtake (?b ! n) w"
    and s': "s' = s\<lparr>tmem := apply_store (?b ! n) (tmem s), buf := (buf s)(Core0 := take n ?b @ drop (Suc n) ?b)\<rparr>"
    using assms(2) by (auto split: if_split_asm)
  have nq: "\<not> quiet s" using n(1) by (auto simp: quiet_def)
  have view: "view s' Core0 = view s Core0" using view_flush [OF n] by (simp add: view_def s')
  have sub: "set (take n ?b @ drop (Suc n) ?b) \<subseteq> set ?b" using set_take_subset set_drop_subset by fastforce
  have f: "thr s' = thr s" "early s' = early s" "buf s' Core0 = take n ?b @ drop (Suc n) ?b" by (simp_all add: s')
  have last: "quiet s'" if "\<exists>r. thr s Core0 = Done r" "?b = [(True, c, v)]" using that n(1) by (auto simp: quiet_def f)
  have mem: "tmem s' c \<noteq> v" if "tmem s c \<noteq> v" "\<forall>b. (b, c, v) \<notin> set ?b"
  proof -
    obtain b d u where w: "?b ! n = (b, d, u)" by (cases "?b ! n")
    then have "(d, u) \<noteq> (c, v)" using that(2) nth_mem [OF n(1)] by auto
    then show ?thesis using that(1) by (auto simp: s' apply_store_def w)
  qed
  show ?thesis using assms(1) nq last mem sub n(1) unfolding writer_inv_def view f by auto
qed

lemma step_fields [simp]:
  "tmem (goto i p s) = tmem s" "buf (goto i p s) = buf s" "early (goto i p s) = early s" "thr (goto i p s) = (thr s)(i := p)"
  "tmem (enter_store i w p s) = tmem s" "buf (enter_store i w p s) = (buf s)(i := buf s i @ [w])"
  "early (enter_store i w p s) = (early s)(i := (early s i)(fst (snd w) := None))" "thr (enter_store i w p s) = (thr s)(i := p)"
  by (simp_all add: goto_def enter_store_def)

text \<open>A store keeps the invariant, whatever its kind; the releasing one is volatile.\<close>

lemma writer_store:
  assumes "writer_inv c v fin s" "thr s Core0 = (if b then Volatile_write d u p else Write d u p)"
  shows "writer_inv c v fin (enter_store Core0 (b, d, u) p s)"
proof -
  have inv: "run p ((view s Core0)(d := u)) = fin" "\<forall>d u. early s Core0 d = Some u \<longrightarrow> u = view s Core0 d" "tmem s c \<noteq> v"
    "(\<forall>b. (b, c, v) \<notin> set (buf s Core0)) \<and> (d, u) \<noteq> (c, v) \<and> releases c v p ((view s Core0)(d := u)) \<or>
     buf s Core0 = [] \<and> b \<and> d = c \<and> u = v \<and> (\<exists>r. p = Done r)"
    using assms by (auto simp: writer_inv_def quiet_def last_store_def split: if_split_asm)
  have "early (enter_store Core0 (b, d, u) p s) Core0 d' = Some u' \<Longrightarrow> u' = ((view s Core0)(d := u)) d'" for d' u'
    using inv(2) by (simp split: if_split_asm)
  moreover have "(\<forall>b. (b, c, v) \<notin> set (buf s Core0 @ [(b', d, u)])) \<longleftrightarrow> (\<forall>b. (b, c, v) \<notin> set (buf s Core0)) \<and> (d, u) \<noteq> (c, v)" for b'
    by auto
  ultimately show ?thesis using inv(1,3,4) by (auto simp: writer_inv_def view_simps)
qed

lemma writer_load:
  assumes "writer_inv c v fin s" "thr s Core0 = Read d k \<or> thr s Core0 = Volatile_read d k" "u = view s Core0 d"
  shows "writer_inv c v fin (goto Core0 (k u) s)"
  using assms by (auto simp: writer_inv_def quiet_def view_simps last_store_def)

lemma writer_exec:
  assumes "writer_inv c v fin s" "act a s = Some s'" "a \<in> {Exec Core0, Exec_early Core0} \<union> range (Fetch Core0)"
  shows "writer_inv c v fin s' \<and> tmem s' = tmem s \<and> (quiet s \<longrightarrow> quiet s')"
proof -
  consider "a = Exec Core0" | "a = Exec_early Core0" | d where "a = Fetch Core0 d" using assms(3) by auto
  then show ?thesis
  proof cases
    case 1
    show ?thesis
    proof (cases "thr s Core0")
      case (Fence p)
      then have b: "buf s Core0 = []" "s' = goto Core0 p (s\<lparr>early := (early s)(Core0 := (\<lambda>_. None))\<rparr>)"
        using assms(2) 1 by (auto split: if_split_asm)
      then show ?thesis using assms(1) Fence by (auto simp: writer_inv_def quiet_def view_simps)
    next
      case (Write d u p)
      then show ?thesis using assms(2) 1 writer_store [OF assms(1), of False d u p] by (auto simp: quiet_def)
    next
      case (Volatile_write d u p)
      then show ?thesis using assms(2) 1 writer_store [OF assms(1), of True d u p] by (auto simp: quiet_def)
    next
      case (Read d k)
      then show ?thesis using assms(2) 1 writer_load [OF assms(1), of d k] by (auto simp: quiet_def)
    next
      case (Volatile_read d k)
      then show ?thesis using assms(2) 1 writer_load [OF assms(1), of d k] by (auto simp: quiet_def)
    qed (use assms(2) 1 in simp)
  next
    case 2
    then obtain d k u where "thr s Core0 = Read d k" "early s Core0 d = Some u" "s' = goto Core0 (k u) s"
      using assms(2) by (auto split: prog.split_asm option.split_asm)
    moreover from this have "u = view s Core0 d" using assms(1) by (simp add: writer_inv_def)
    ultimately show ?thesis using writer_load [OF assms(1), of d k u] by (auto simp: quiet_def)
  next
    case 3
    then show ?thesis using assms(1,2) by (auto simp: writer_inv_def quiet_def view_simps split: if_split_asm)
  qed
qed

lemma empty_careful_unfold:
  "empty_careful_code e (after_test rs) =
     Volatile_read (Next e) (\<lambda>n. Fence (if n = e then Read (Prev e) (\<lambda>p. after_test rs (e = p)) else Done [0]))"
  by (simp add: empty_careful_code_def smp_load_acquire_def READ_ONCE_def barrier_def after_test_def fun_eq_iff)

lemma reader_load:
  assumes "reader_inv e rs s" "quiet s" "\<forall>d u. early s Core1 d = Some u \<longrightarrow> u = tmem s d" "tmem s (Prev e) = e"
    "thr s Core1 = Read d k" "u = tmem s d"
  shows "reader_inv e rs (goto Core1 (k u) s)"
proof -
  have q: "quiet (goto Core1 p s)" for p using assms(2) by (simp add: quiet_def)
  have b: "buf s Core1 = []" using assms(1) by (simp add: reader_inv_def)
  have "thr s Core1 = Read (Prev e) (\<lambda>p. after_test rs (e = p)) \<or> loading rs (tmem s) (thr s Core1)"
    using assms(1,5) unfolding reader_inv_def empty_careful_unfold by auto
  then have "loading rs (tmem s) (k u)"
  proof
    assume "thr s Core1 = Read (Prev e) (\<lambda>p. after_test rs (e = p))"
    then have "k u = load_all rs []" using assms(4-6) by (simp add: after_test_def)
    then show ?thesis unfolding loading_def by (intro exI [of _ "[]"] exI [of _ rs]) simp
  next
    assume "loading rs (tmem s) (thr s Core1)"
    then show ?thesis using loading_read assms(5,6) by simp
  qed
  then show ?thesis using q b assms(3) by (auto simp: reader_inv_def)
qed

text \<open>No step of the testing processor touches the memory or the writer.\<close>

lemma reader_step:
  assumes "writer_inv (Next e) e fin s" "snd fin (Prev e) = e" "reader_inv e rs s" "act a s = Some s'"
    "a \<in> {Exec Core1, Exec_early Core1} \<union> range (Flush Core1) \<union> range (Fetch Core1)"
  shows "reader_inv e rs s' \<and> tmem s' = tmem s"
proof -
  have b: "buf s Core1 = []" "view s Core1 = tmem s" using assms(3) by (simp_all add: reader_inv_def view_simps)
  have seen: "quiet s" if "tmem s (Next e) = e" using that assms(1) by (auto simp: writer_inv_def)
  have prev: "tmem s (Prev e) = e" if "quiet s" using that assms(1,2) by (auto simp: writer_inv_def quiet_def view_simps)
  have q: "quiet (goto Core1 p s) = quiet s" "quiet (s\<lparr>early := (early s)(Core1 := f)\<rparr>) = quiet s"
    "quiet (goto Core1 p (s\<lparr>early := (early s)(Core1 := f)\<rparr>)) = quiet s" for p f by (simp_all add: quiet_def)
  have plain: "quiet s \<and> (\<forall>d u. early s Core1 d = Some u \<longrightarrow> u = tmem s d)" if "thr s Core1 = Read d k" for d k
    using assms(3) that unfolding reader_inv_def empty_careful_unfold by auto
  consider "a = Exec Core1" | "a = Exec_early Core1" | d where "a = Fetch Core1 d" using assms(4,5) b(1) by auto
  then show ?thesis
  proof cases
    case 1
    show ?thesis
    proof (cases "thr s Core1")
      case (Read d k)
      then have "s' = goto Core1 (k (tmem s d)) s" using assms(4) 1 b(2) by simp
      then show ?thesis using reader_load [OF assms(3) _ _ _ Read refl] plain [OF Read] prev by simp
    next
      case (Volatile_read d k)
      then have "thr s Core1 = empty_careful_code e (after_test rs)"
        using assms(3) by (auto simp: reader_inv_def)
      then show ?thesis
        using assms(4) 1 b seen unfolding empty_careful_unfold by (cases "tmem s (Next e) = e") (auto simp: reader_inv_def q)
    next
      case (Fence p)
      then show ?thesis
        using assms(3,4) 1 b(1) unfolding reader_inv_def empty_careful_unfold by (auto simp: q)
    qed (use assms(3,4) 1 in \<open>auto simp: reader_inv_def empty_careful_unfold\<close>)
  next
    case 2
    then obtain d k u where r: "thr s Core1 = Read d k" "early s Core1 d = Some u" "s' = goto Core1 (k u) s"
      using assms(4) by (auto split: prog.split_asm option.split_asm)
    then show ?thesis using reader_load [OF assms(3) _ _ _ r(1)] plain [OF r(1)] prev by auto
  next
    case 3
    then show ?thesis using assms(3,4) b(2) by (auto simp: reader_inv_def q split: if_split_asm)
  qed
qed

lemma both_step:
  assumes "writer_inv (Next e) e fin s" "snd fin (Prev e) = e" "reader_inv e rs s" "act a s = Some s'"
  shows "writer_inv (Next e) e fin s' \<and> reader_inv e rs s'"
proof -
  let ?on = "\<lambda>i. {Exec i, Exec_early i} \<union> range (Flush i) \<union> range (Fetch i)"
  consider "a \<in> ?on Core0" | "a \<in> ?on Core1" by (cases a) (metis (full_types) UnCI core.exhaust insertCI rangeI)+
  then show ?thesis
  proof cases
    case 1
    have f: "thr s' Core1 = thr s Core1" "buf s' Core1 = buf s Core1" "early s' Core1 = early s Core1" using act_other [OF assms(4) 1] by simp_all
    have "writer_inv (Next e) e fin s' \<and> (quiet s \<longrightarrow> quiet s' \<and> tmem s' = tmem s)"
      using 1 writer_exec [OF assms(1,4)] writer_flush [OF assms(1)] assms(4) by blast
    then show ?thesis using assms(3) unfolding reader_inv_def f by auto
  next
    case 2
    have f: "thr s' Core0 = thr s Core0" "buf s' Core0 = buf s Core0" "early s' Core0 = early s Core0" using act_other [OF assms(4) 2] by simp_all
    have r: "reader_inv e rs s'" "tmem s' = tmem s" using reader_step [OF assms 2] by simp_all
    have "view s' Core0 = view s Core0" by (simp add: view_def f r(2))
    then show ?thesis using assms(1) r by (simp add: writer_inv_def quiet_def f)
  qed
qed

lemma both_acts:
  "writer_inv (Next e) e fin s \<Longrightarrow> snd fin (Prev e) = e \<Longrightarrow> reader_inv e rs s \<Longrightarrow> acts as s = Some s' \<Longrightarrow>
    writer_inv (Next e) e fin s' \<and> reader_inv e rs s'"
proof (induction as arbitrary: s)
  case (Cons a as)
  then obtain t where "act a s = Some t" "acts as t = Some s'" by (auto simp: bind_eq_Some_conv)
  then show ?case using both_step [OF Cons.prems(1-3)] Cons.IH Cons.prems(2) by blast
qed simp

section \<open>Properties\<close>

text \<open>Two processors: one stores data and takes the entry off its list, the other tests the entry and, when the test
  succeeds, loads data.\<close>

definition handover :: "(prog \<Rightarrow> prog) \<Rightarrow> (addr \<times> addr) list \<Rightarrow> addr \<Rightarrow> addr list \<Rightarrow> cells \<Rightarrow> multi" where
  "handover del ws e rs m =
     \<lparr>tmem = m, buf = (\<lambda>_. []), early = (\<lambda>_ _. None),
      thr = (\<lambda>i. case i of Core0 \<Rightarrow> store_all ws (del (Done [])) | Core1 \<Rightarrow> empty_careful_code e (after_test rs))\<rparr>"

definition demo_cells :: cells where
  "demo_cells c = (case c of Next a \<Rightarrow> next_of sample_heap a | Prev a \<Rightarrow> prev_of sample_heap a | Data a \<Rightarrow> 0)"

definition result_of :: "prog \<Rightarrow> addr list" where
  "result_of p = (case p of Done r \<Rightarrow> r | _ \<Rightarrow> [])"

text \<open>The plain \<open>list_del_init\<close> gives no such order: its stores to the entry may be seen before the data.\<close>

lemma del_init_no_order:
  "map_option (\<lambda>s. result_of (thr s Core1))
     (acts (replicate 7 (Exec Core0) @ [Flush Core0 4, Flush Core0 2, Flush Core0 2] @ replicate 4 (Exec Core1))
       (handover (del_init_code 16) [(500, 7)] 16 [500] demo_cells)) = Some [1, 0]"
  by code_simp

text \<open>
  C17. The promise of \<open>list_del_init_careful\<close> and \<open>list_empty_careful\<close>: one processor stores any data and then removes an entry from
  its list with \<open>list_del_init_careful\<close>, another one tests the entry with \<open>list_empty_careful\<close> and loads data
  after a test that succeeds. In every interleaving, with stores delayed and reordered and loads done early in
  every way the barriers of the two functions permit, a processor whose test has succeeded loads the data stored
  before the removal; the removal is then complete and no store is waiting, the list has lost exactly
  the entry and the entry is an empty list. Run alone, the code of the two functions is the function on the list heap.
\<close>

theorem careful_promise:
  assumes "dlist \<sigma> h (as @ e # bs)" "holds m \<sigma>"
    "acts xs (handover (del_init_careful_code e) ws e rs m) = Some s" "thr s Core1 = Done (1 # vs)"
  shows "vs = map (\<lambda>a. stored ws m (Data a)) rs \<and> (\<forall>a. tmem s (Data a) = stored ws m (Data a)) \<and> buf s Core0 = [] \<and>
    holds (tmem s) (list_del_init_careful e \<sigma>) \<and> dlist (list_del_init_careful e \<sigma>) h (as @ bs) \<and> dlist (list_del_init_careful e \<sigma>) e [] \<and>
    run (empty_careful_code h (after_test rs)) m = run (after_test rs (list_empty_careful h \<sigma>)) m \<and>
    (\<exists>m1. run (del_init_careful_code e (Done [])) m = ([], m1) \<and> holds m1 (list_del_init_careful e \<sigma>))"
proof -
  let ?s = "handover (del_init_careful_code e) ws e rs m"
  have same: "list_del_init_careful e \<sigma> = list_del_init e \<sigma>" by (rule list_del_init_careful_eq)
  have "e \<noteq> next_of \<sigma> e" "e \<noteq> prev_of \<sigma> e"
    using node_neighbours [OF assms(1)] dlist_distinct [OF assms(1)] by auto
  then have ne: "m (Next e) \<noteq> e" "m (Prev e) \<noteq> e" using assms(2) by (auto simp: holds_def)
  have "holds (stored ws m) \<sigma>" using assms(2) by (simp add: holds_def)
  then obtain m' where m': "run (del_init_careful_code e (Done [])) (stored ws m) = ([], m')"
    "holds m' (list_del_init e \<sigma>)" "\<forall>a. m' (Data a) = stored ws m (Data a)"
    using run_del_init [of "stored ws m" \<sigma> e "Done []"] by auto
  note del = dlist_list_del_init [OF assms(1)]
  have "prev_of (list_del_init e \<sigma>) e = e"
    using dlist_empty_careful_iff [OF del(2)] by (auto simp: list_empty_careful_def Let_def)
  then have fin: "snd ([], m') (Prev e) = e" using m'(2) by (simp add: holds_def)
  have "writer_inv (Next e) e ([], m') ?s"
    using m'(1) ne releases_del_init_careful [OF ne, of ws "[]"] by (simp add: writer_inv_def handover_def view_def run_store_all)
  moreover have "reader_inv e rs ?s" by (simp add: reader_inv_def handover_def)
  ultimately have inv: "writer_inv (Next e) e ([], m') s" "reader_inv e rs s" using both_acts [OF _ fin _ assms(3)] by blast+
  have q: "quiet s" "loading rs (tmem s) (Done (1 # vs))" using inv(2) assms(4) by (auto simp: reader_inv_def empty_careful_unfold)
  have mem: "tmem s = m'" "buf s Core0 = []" using inv(1) q(1) by (auto simp: writer_inv_def quiet_def view_simps)
  have "vs = map (\<lambda>a. tmem s (Data a)) rs"
  proof -
    obtain as bs where "rs = as @ bs" "Done (1 # vs) = load_all bs (map (\<lambda>a. tmem s (Data a)) as)" using q(2) by (auto simp: loading_def)
    then show ?thesis by (cases bs) auto
  qed
  moreover have "\<exists>m1. run (del_init_careful_code e (Done [])) m = ([], m1) \<and> holds m1 (list_del_init e \<sigma>)"
    using run_del_init [OF assms(2), of e "Done []"] by auto
  ultimately show ?thesis using mem m'(2,3) del run_empty_careful [OF assms(2)] by (simp add: same)
qed

text \<open>A run in which the stores reach the memory out of order.\<close>

theorem careful_promise_witness:
  "\<exists>s. acts (replicate 6 (Exec Core0) @ [Fetch Core1 (Data 500), Flush Core0 3, Flush Core0 2, Flush Core0 1, Flush Core0 0] @
        replicate 2 (Exec Core0) @ [Flush Core0 0] @ replicate 4 (Exec Core1))
      (handover (del_init_careful_code 16) [(500, 7)] 16 [500] demo_cells) = Some s \<and> thr s Core1 = Done [1, 7] \<and>
     holds (tmem s) (list_del_init_careful 16 sample_heap)"
proof -
  let ?r = "acts (replicate 6 (Exec Core0) @ [Fetch Core1 (Data 500), Flush Core0 3, Flush Core0 2, Flush Core0 1, Flush Core0 0] @
        replicate 2 (Exec Core0) @ [Flush Core0 0] @ replicate 4 (Exec Core1))
      (handover (del_init_careful_code 16) [(500, 7)] 16 [500] demo_cells)"
  have "map_option (\<lambda>s. case thr s Core1 of Done r \<Rightarrow> Some r | _ \<Rightarrow> None) ?r = Some (Some [1, 7])" by code_simp
  then obtain s where s: "?r = Some s" "thr s Core1 = Done [1, 7]" by (cases ?r) (auto split: prog.splits)
  have "dlist sample_heap 100 ([8] @ 16 # [24])" using sample_dlist(1) by simp
  moreover have "holds demo_cells sample_heap" by (simp add: holds_def demo_cells_def)
  ultimately have "holds (tmem s) (list_del_init_careful 16 sample_heap)" using careful_promise [OF _ _ s] by blast
  then show ?thesis using s by blast
qed

end
