(* ===== verification/Constants.thy ===== *)
theory Constants
  imports NumConv Interrupt
begin

text \<open>
  The constants of \<open>include/errno.h\<close> and \<open>include/limits.h\<close>: the macros of the error numbers with their
  replacement texts, the expansion of a macro the way the preprocessor does it, and the limits of the
  integer types with the conversions their definitions write out.
\<close>

section \<open>Error numbers\<close>

datatype replacement = Number int | Name string

definition errno_macros :: "(string \<times> replacement) list" where
  "errno_macros =
     [(''EPERM'', Number 1), (''ENOENT'', Number 2), (''ESRCH'', Number 3), (''EINTR'', Number 4),
      (''EIO'', Number 5), (''ENXIO'', Number 6), (''E2BIG'', Number 7), (''ENOEXEC'', Number 8),
      (''EBADF'', Number 9), (''ECHILD'', Number 10), (''EAGAIN'', Number 11), (''ENOMEM'', Number 12),
      (''EACCES'', Number 13), (''EFAULT'', Number 14), (''ENOTBLK'', Number 15), (''EBUSY'', Number 16),
      (''EEXIST'', Number 17), (''EXDEV'', Number 18), (''ENODEV'', Number 19), (''ENOTDIR'', Number 20),
      (''EISDIR'', Number 21), (''EINVAL'', Number 22), (''ENFILE'', Number 23), (''EMFILE'', Number 24),
      (''ENOTTY'', Number 25), (''ETXTBSY'', Number 26), (''EFBIG'', Number 27), (''ENOSPC'', Number 28),
      (''ESPIPE'', Number 29), (''EROFS'', Number 30), (''EMLINK'', Number 31), (''EPIPE'', Number 32),
      (''EDOM'', Number 33), (''ERANGE'', Number 34), (''EDEADLK'', Number 35), (''ENAMETOOLONG'', Number 36),
      (''ENOLCK'', Number 37), (''ENOSYS'', Number 38), (''ENOTEMPTY'', Number 39), (''ELOOP'', Number 40),
      (''EWOULDBLOCK'', Name ''EAGAIN''), (''ENOMSG'', Number 42), (''EIDRM'', Number 43), (''ECHRNG'', Number 44),
      (''EL2NSYNC'', Number 45), (''EL3HLT'', Number 46), (''EL3RST'', Number 47), (''ELNRNG'', Number 48),
      (''EUNATCH'', Number 49), (''ENOCSI'', Number 50), (''EL2HLT'', Number 51), (''EBADE'', Number 52),
      (''EBADR'', Number 53), (''EXFULL'', Number 54), (''ENOANO'', Number 55), (''EBADRQC'', Number 56),
      (''EBADSLT'', Number 57), (''EDEADLOCK'', Name ''EDEADL''), (''EBFONT'', Number 59), (''ENOSTR'', Number 60),
      (''ENODATA'', Number 61), (''ETIME'', Number 62), (''ENOSR'', Number 63), (''ENONET'', Number 64),
      (''ENOPKG'', Number 65), (''EREMOTE'', Number 66), (''ENOLINK'', Number 67), (''EADV'', Number 68),
      (''ESRMNT'', Number 69), (''ECOMM'', Number 70), (''EPROTO'', Number 71), (''EMULTIHOP'', Number 72),
      (''EDOTDOT'', Number 73), (''EBADMSG'', Number 74), (''EOVERFLOW'', Number 75), (''ENOTUNIQ'', Number 76),
      (''EBADFD'', Number 77), (''EREMCHG'', Number 78), (''ELIBACC'', Number 79), (''ELIBBAD'', Number 80),
      (''ELIBSCN'', Number 81), (''ELIBMAX'', Number 82), (''ELIBEXEC'', Number 83), (''EILSEQ'', Number 84),
      (''ERESTART'', Number 85), (''ESTRPIPE'', Number 86), (''EUSERS'', Number 87), (''ENOTSOCK'', Number 88),
      (''EDESTADDRREQ'', Number 89), (''EMSGSIZE'', Number 90), (''EPROTOTYPE'', Number 91),
      (''ENOPROTOOPT'', Number 92), (''EPROTONOSUPPORT'', Number 93), (''ESOCKTNOSUPPORT'', Number 94),
      (''EOPNOTSUPP'', Number 95), (''EPFNOSUPPORT'', Number 96), (''EAFNOSUPPORT'', Number 97),
      (''EADDRINUSE'', Number 98), (''EADDRNOTAVAIL'', Number 99), (''ENETDOWN'', Number 100),
      (''ENETUNREACH'', Number 101), (''ENETRESET'', Number 102), (''ECONNABORTED'', Number 103),
      (''ECONNRESET'', Number 104), (''ENOBUFS'', Number 105), (''EISCONN'', Number 106), (''ENOTCONN'', Number 107),
      (''ESHUTDOWN'', Number 108), (''ETOOMANYREFS'', Number 109), (''ETIMEDOUT'', Number 110),
      (''ECONNREFUSED'', Number 111), (''EHOSTDOWN'', Number 112), (''EHOSTUNREACH'', Number 113),
      (''EALREADY'', Number 114), (''EINPROGRESS'', Number 115), (''ESTALE'', Number 116), (''EUCLEAN'', Number 117),
      (''ENOTNAM'', Number 118), (''ENAVAIL'', Number 119), (''EISNAM'', Number 120), (''EREMOTEIO'', Number 121),
      (''EDQUOT'', Number 122), (''ENOMEDIUM'', Number 123), (''EMEDIUMTYPE'', Number 124)]"

text \<open>Expansion: a name that is no macro stays an identifier, which the compiler does not know.\<close>

fun expand :: "(string \<times> replacement) list \<Rightarrow> nat \<Rightarrow> string \<Rightarrow> int option" where
  "expand ms 0 x = None"
| "expand ms (Suc n) x =
     (case map_of ms x of None \<Rightarrow> None | Some (Number k) \<Rightarrow> Some k | Some (Name y) \<Rightarrow> expand ms n y)"

definition errno :: "string \<Rightarrow> int option" where
  "errno x = expand errno_macros 2 x"

section \<open>Limits\<close>

definition CHAR_MIN :: int where "CHAR_MIN = - 128"
definition CHAR_MAX :: int where "CHAR_MAX = 127"
definition UCHAR_MAX :: int where "UCHAR_MAX = 255"
definition SHRT_MAX :: int where "SHRT_MAX = sint (ucast (drop_bit 1 (NOT 0 :: u32)) :: u16)"
definition SHRT_MIN :: int where "SHRT_MIN = - SHRT_MAX - 1"
definition USHRT_MAX :: int where "USHRT_MAX = sint (ucast (drop_bit 1 (NOT 0 :: u32)) :: u16)"
definition INT_MIN :: int where "INT_MIN = - INT_MAX - 1"
definition UINT_MAX :: int where "UINT_MAX = uint (NOT 0 :: u32)"
definition LONG_MAX :: int where "LONG_MAX = sint (drop_bit 1 (NOT 0 :: u32))"
definition LONG_MIN :: int where "LONG_MIN = - LONG_MAX - 1"
definition ULONG_MAX :: int where "ULONG_MAX = uint (NOT 0 :: u32)"

section \<open>Values\<close>

text \<open>The error numbers run from 1 to 124 in the order of the file, with two aliases in place of 41 and 58.\<close>

fun number_of :: "string \<times> replacement \<Rightarrow> (string \<times> int) list" where
  "number_of (x, Number k) = [(x, k)]"
| "number_of (x, Name y) = []"

fun alias_of :: "string \<times> replacement \<Rightarrow> (string \<times> string) list" where
  "alias_of (x, Number k) = []"
| "alias_of (x, Name y) = [(x, y)]"

lemma errno_macros_values:
  "map snd (concat (map number_of errno_macros)) = [1..40] @ [42..57] @ [59..124]"
  "concat (map alias_of errno_macros) = [(''EWOULDBLOCK'', ''EAGAIN''), (''EDEADLOCK'', ''EDEADL'')]"
  by code_simp+

lemma errno_macros_distinct: "distinct (map fst errno_macros)"
  by code_simp

lemma in_numbers: "(x, k) \<in> set (concat (map number_of ms)) \<longleftrightarrow> (x, Number k) \<in> set ms"
proof -
  have "(x, k) \<in> set (number_of p) \<longleftrightarrow> p = (x, Number k)" for p by (cases p rule: number_of.cases) auto
  then show ?thesis by auto
qed

lemma in_aliases: "(x, y) \<in> set (concat (map alias_of ms)) \<longleftrightarrow> (x, Name y) \<in> set ms"
proof -
  have "(x, y) \<in> set (alias_of p) \<longleftrightarrow> p = (x, Name y)" for p by (cases p rule: alias_of.cases) auto
  then show ?thesis by auto
qed

lemma errno_lookups:
  "map_of errno_macros ''EAGAIN'' = Some (Number 11)" "map_of errno_macros ''EDEADL'' = None"
  "map_of errno_macros ''EWOULDBLOCK'' = Some (Name ''EAGAIN'')" "map_of errno_macros ''EDEADLOCK'' = Some (Name ''EDEADL'')"
  by code_simp+

lemma errno_cases: "errno x = Some k \<longleftrightarrow> (x, Number k) \<in> set errno_macros \<or> x = ''EWOULDBLOCK'' \<and> k = 11"
proof -
  have m: "map_of errno_macros x = Some r \<longleftrightarrow> (x, r) \<in> set errno_macros" for x r
    by (rule map_of_eq_Some_iff [OF errno_macros_distinct])
  have two: "errno x = (case map_of errno_macros x of None \<Rightarrow> None | Some (Number k) \<Rightarrow> Some k
      | Some (Name y) \<Rightarrow> (case map_of errno_macros y of Some (Number k) \<Rightarrow> Some k | _ \<Rightarrow> None))"
    by (simp add: errno_def numeral_2_eq_2 split: option.split replacement.split)
  show ?thesis
  proof (cases "map_of errno_macros x")
    case None
    then show ?thesis using m [of x] two errno_lookups(3) by (metis option.distinct(1) option.simps(4))
  next
    case (Some r)
    show ?thesis
    proof (cases r)
      case (Number n)
      have "errno x = Some n" unfolding two Some Number by simp
      moreover have "x \<noteq> ''EWOULDBLOCK''" using Some Number errno_lookups(3) by (metis option.inject replacement.distinct(1))
      moreover have "(x, Number k) \<in> set errno_macros \<longleftrightarrow> n = k" unfolding m [symmetric] Some Number by simp
      ultimately show ?thesis by simp
    next
      case (Name y)
      then have "(x, y) \<in> set (concat (map alias_of errno_macros))" using Some m [of x] in_aliases by blast
      then consider "x = ''EWOULDBLOCK''" "y = ''EAGAIN''" | "x = ''EDEADLOCK''" "y = ''EDEADL''"
        unfolding errno_macros_values by (simp only: list.set insert_iff empty_iff prod.inject) blast
      then show ?thesis
      proof cases
        case 1
        then have "errno x = Some 11" unfolding two Some Name by (simp only: errno_lookups option.case replacement.case)
        moreover have "(x, Number k) \<notin> set errno_macros" unfolding m [symmetric] Some Name by simp
        ultimately show ?thesis using 1(1) by (metis option.inject)
      next
        case 2
        then have "errno x = None" unfolding two Some Name by (simp only: errno_lookups option.case replacement.case)
        moreover have "(x, Number k) \<notin> set errno_macros" unfolding m [symmetric] Some Name by simp
        moreover have "x \<noteq> ''EWOULDBLOCK''" unfolding 2(1) by simp
        ultimately show ?thesis by simp
      qed
    qed
  qed
qed

text \<open>
  The error numbers: every macro but one expands to its number, between 1 and 124, no two macros share a
  number but \<open>EAGAIN\<close> and \<open>EWOULDBLOCK\<close>, the number the interrupt code returns is that of the
  file, and \<open>EDEADLOCK\<close> expands to the identifier \<open>EDEADL\<close>, which nothing defines.
\<close>

theorem error_numbers:
  "(\<forall>x k. errno x = Some k \<longrightarrow> 1 \<le> k \<and> k \<le> 124) \<and>
   (\<forall>x y k. errno x = Some k \<and> errno y = Some k \<longrightarrow> x = y \<or> {x, y} = {''EAGAIN'', ''EWOULDBLOCK''}) \<and>
   (\<forall>x \<in> set (map fst errno_macros). errno x = None \<longleftrightarrow> x = ''EDEADLOCK'') \<and>
   errno ''EINVAL'' = Some EINVAL"
proof (intro conjI allI impI ballI)
  let ?N = "concat (map number_of errno_macros)"
  have vals: "snd ` set ?N = {1..40} \<union> {42..57} \<union> {59..124}" "distinct (map snd ?N)"
    unfolding set_map [symmetric] errno_macros_values by (simp_all only: set_append set_upto Un_assoc) (code_simp)
  have eagain: "(''EAGAIN'', 11) \<in> set ?N" using map_of_SomeD [OF errno_lookups(1)] in_numbers by blast
  have same: "x = y" if "(x, k) \<in> set ?N" "(y, k) \<in> set ?N" for x y k
    using that vals(2) unfolding distinct_map by (metis inj_onD prod.inject snd_conv)
  show "1 \<le> k" "k \<le> 124" if "errno x = Some k" for x k
  proof -
    have "k \<in> snd ` set ?N \<or> k = 11" using that unfolding errno_cases in_numbers [symmetric] by (metis image_eqI snd_conv)
    then show "1 \<le> k" "k \<le> 124" unfolding vals by auto
  qed
  show "x = y \<or> {x, y} = {''EAGAIN'', ''EWOULDBLOCK''}" if "errno x = Some k \<and> errno y = Some k" for x y k
  proof -
    have "(x, k) \<in> set ?N \<or> x = ''EWOULDBLOCK'' \<and> k = 11" "(y, k) \<in> set ?N \<or> y = ''EWOULDBLOCK'' \<and> k = 11"
      using that unfolding errno_cases in_numbers by blast+
    moreover have "z = ''EAGAIN''" if "(z, 11) \<in> set ?N" for z by (rule same [OF that eagain])
    ultimately show ?thesis using same by (elim disjE conjE; hypsubst?) blast+
  qed
  show "errno x = None \<longleftrightarrow> x = ''EDEADLOCK''" if x: "x \<in> set (map fst errno_macros)" for x
  proof -
    obtain r where r: "(x, r) \<in> set errno_macros" using x by auto
    have lost: "errno ''EDEADLOCK'' = None" by code_simp
    show ?thesis
    proof (cases r)
      case (Number n)
      then have "errno x = Some n" using r by (simp add: errno_cases)
      then show ?thesis using lost by (metis option.distinct(1))
    next
      case (Name y)
      then have "(x, y) \<in> set (concat (map alias_of errno_macros))" using r in_aliases by blast
      then consider "x = ''EWOULDBLOCK''" | "x = ''EDEADLOCK''"
        unfolding errno_macros_values by (simp only: list.set insert_iff empty_iff prod.inject) blast
      then show ?thesis
      proof cases
        case 1
        then have "errno x = Some 11" unfolding errno_cases by blast
        moreover have "x \<noteq> ''EDEADLOCK''" unfolding 1 by simp
        ultimately show ?thesis by simp
      qed (use lost in simp)
    qed
  qed
  show "errno ''EINVAL'' = Some EINVAL" by code_simp
qed

lemma limits_values:
  "SHRT_MAX = - 1" "SHRT_MIN = 0" "USHRT_MAX = - 1" "INT_MIN = - 2147483648" "UINT_MAX = 4294967295"
  "LONG_MAX = INT_MAX" "LONG_MIN = INT_MIN" "ULONG_MAX = UINT_MAX" "INT_MAX = sint (drop_bit 1 (NOT 0 :: u32))"
  by code_simp+

end
