(* ===== verification/Spec2Isabelle.thy ===== *)
theory Spec2Isabelle
  imports TaskPlaces HList Scanf NestedIrq LinkLayout Barrier Constants
begin

text \<open>
  PastaOS, a small 32-bit x86 kernel: a verification of its C and assembly code.

  \<^bold>\<open>The program.\<close> \<open>kernel/boot.S\<close> calls \<open>init\<close> (\<open>kernel/init.c\<close>), which clears the console,
  programs the interval timer and sets up the interrupt descriptor table, and then \<open>main\<close>
  (\<open>init/main.c\<close>), which starts nine kernel tasks and becomes the tenth. The tasks switch
  cooperatively through \<open>schedule\<close> (\<open>kernel/sched.c\<close>), over a ready list made of the circular
  lists of \<open>include/list.h\<close>. They print with \<open>printk\<close> (\<open>kernel/console.c\<close>), which formats
  with \<open>vsnprintf\<close> (\<open>lib/vsprintf.c\<close>) and writes to the video memory, and wait for the clock
  interrupt (\<open>kernel/clock.c\<close>, \<open>kernel/interrupt.c\<close>), which enters through the stubs of
  \<open>kernel/irq.S\<close>. A failed check ends in \<open>panic\<close>.

  \<^bold>\<open>Theories\<close>, in the order of their imports:
  \<^item> \<open>Prelude\<close>: the machine types (words of 8, 16, 32 and 64 bits), the collections of
    simplification rules and generic lemmas.
  \<^item> \<open>LinkedList\<close> (\<open>include/list.h\<close>): a heap of \<open>next\<close> and \<open>prev\<close> fields by address and every
    function and iteration macro of \<open>list_head\<close>. The lemmas relate each operation to the list of
    nodes; a locale gives the ready queue's contract to the scheduler.
  \<^item> \<open>Barrier\<close> (\<open>include/kernel.h\<close>, \<open>include/list.h\<close>): the access and barrier macros and the careful list
    functions as code on two processors, with plain and volatile accesses reordered as the compiler and the processor may.
  \<^item> \<open>Sched\<close> (\<open>kernel/sched.c\<close>, \<open>include/sched.h\<close>): tasks, stack cells, registers, the stack switch
    instruction by instruction. A step relation describes the whole system of tasks, and its
    invariant gives the absence of panics, the isolation of contexts and the round robin order.
  \<^item> \<open>Ctype\<close> (\<open>include/ctype.h\<close>, \<open>lib/ctype.c\<close>): the table of character classes.
  \<^item> \<open>Console\<close> (\<open>kernel/console.c\<close>, \<open>include/console.h\<close>, \<open>include/io.h\<close>): the video buffer as a
    refinement of a terminal of 25 lines.
  \<^item> \<open>Interrupt\<close> (\<open>kernel/interrupt.c\<close>, \<open>include/interrupt.h\<close>): descriptor table, handler table, the
    two interrupt controllers.
  \<^item> \<open>Clock\<close> (\<open>kernel/clock.c\<close>, \<open>kernel/init.c\<close>): the timer and the initialisation.
  \<^item> \<open>Memory\<close>: byte memory, little-endian loads and stores, C strings; no source of its own.
  \<^item> \<open>CString\<close> (\<open>include/string.h\<close>, \<open>lib/string.c\<close>): all string and block functions.
  \<^item> \<open>NumConv\<close> (\<open>lib/vsprintf.c\<close>, first half): 64-bit division, number parsing and printing.
  \<^item> \<open>Printf\<close> (\<open>lib/vsprintf.c\<close>, \<open>include/stdarg.h\<close>): \<open>vsnprintf\<close> and its variants, as a refinement
    of the list function \<open>format\<close>.
  \<^item> \<open>Printk\<close> (\<open>kernel/console.c\<close>, \<open>kernel/panic.c\<close>, \<open>include/panic.h\<close>): \<open>printk\<close>, \<open>panic\<close>,
    \<open>BUG_ON\<close> and the exception handler.
  \<^item> \<open>InitMain\<close> (\<open>init/main.c\<close>): the composition of all parts, and what the screen shows.
  \<^item> \<open>TaskPlaces\<close> (\<open>init/main.c\<close>, \<open>include/sched.h\<close>): where each task of that composition starts and resumes.
  \<^item> \<open>HList\<close> (\<open>include/list.h\<close>, last part): the hash lists, on a heap of pointer cells.
  \<^item> \<open>Scanf\<close> (\<open>lib/vsprintf.c\<close>, last part): \<open>vsscanf\<close> and \<open>sscanf\<close>.
  \<^item> \<open>EntryStubs\<close> (\<open>kernel/irq.S\<close>): the stubs as lists of instructions, a processor with its registers,
    its stack in memory and its gates, and the contexts the C handlers read from the stack.
  \<^item> \<open>BootImage\<close> (\<open>kernel/boot.S\<close>, segment constants of \<open>include/kernel.h\<close>): the multiboot header, the
    segment descriptors and the code that loads them and calls \<open>init\<close> and \<open>main\<close>.
  \<^item> \<open>NestedIrq\<close> (\<open>kernel/irq.S\<close>): timer interrupts that arrive inside the stub of another one, as trees, by a
    simulation of the undisturbed run.
  \<^item> \<open>LinkLayout\<close> (\<open>linker.ld\<close>, \<open>kernel/boot.S\<close>): the linker script as a program on the location counter, for any
    sizes and alignments of the named and of the orphan sections, and the boot code in the image it lays out.
  \<^item> \<open>Constants\<close> (\<open>include/errno.h\<close>, \<open>include/limits.h\<close>): error numbers and limits.

  \<^bold>\<open>Conventions.\<close> Definitions carry the names of the source; a loop has a definition of its own,
  named after its function. State is passed explicitly. A failing \<open>BUG_ON\<close>, an access outside an
  array or a call through \<open>NULL\<close> is a value of a fault type; \<open>None\<close> stands for a loop that does not
  return (\<open>partial_function (option)\<close>) or for a signed overflow that C leaves undefined, and the
  properties state that the result is \<open>Some\<close>. Only the stubs run with fuel, 27 instructions: the
  longest of them has no more, and the properties exclude the outcome \<open>Stuck\<close>. Pointers are 32-bit words and
  wrap. The scheduler's cells and the byte memory of the string code are separate views of
  memory; the two never share an object in the code.

  \<^bold>\<open>Parameters.\<close> What the C code does not determine is an argument: addresses chosen by the
  linker and the compiler (\<open>image\<close>, \<open>irq_image\<close>, \<open>kernel_image\<close>, \<open>print_image\<close>, \<open>boot_image\<close>, \<open>env\<close>), the
  bytes the devices return (\<open>dev\<close>), the code behind a handler address (\<open>code\<close>), the context of
  the interrupt that wakes the processor (\<open>e_wake\<close>), what compiled code does to its registers and
  its own stack between two calls of the scheduler (\<open>e_work\<close>), and what a compiled handler leaves in the
  scratch registers and below its stack frame (\<open>stub_env\<close>). The assumptions on them say
  that stacks and objects do not overlap, that the compiled code stays on its stack and that a function which returns has kept its
  stack pointer; for an exception, that the processor pushes an error code on the vectors its documentation names.

  \<^bold>\<open>What the properties show.\<close> C1 spans all components: from the initial data the kernel comes up
  and prints its lines in the proven order for ever; by C4 every task starts at its entry point in that run and
  always resumes with its own registers. C2, C3, C6, C8 and C39 are about the
  scheduler, C19 to C22 about the lists, C17 about their use by two processors and C38 about the hash lists, C9 about
  the console, C5, C35 to C37 and C40 about formatting, numbers and formatted input, C10 and C13 about messages and
  panic, C11, C14 and C25 to C30 about interrupts and the clock, C7, C12 and C16 about the way from
  an interrupt or exception through its stub to the C handler and back, nested ones included, C15 and C18 about the linked
  image and the boot code, C23 and C24 about character classes, C31 to C34 about strings. Some of them record
  what the code does where it is wrong or surprising (C16, C18, C24, C28, C29, C33, C39).

  \<^bold>\<open>Not modelled.\<close> Interrupts that arrive inside a C function, and those of the running tasks other than the
  one that ends a \<open>hlt\<close>; by C12 one of them leaves the interrupted code all its registers and all memory above its
  stack pointer. The instruction pointer within a stub and the encoding of
  the instructions, which the assembler chooses: arrivals and the layout of the image hold for any. The
  prefetch and branch-hint macros and the compiler attributes, which have no effect the model could show. Of memory order, stores that
  move in front of earlier loads of the same code, and stores that the compiler tears, merges or invents. The \<open>Makefile\<close> and the boot menu have no
  behaviour at run time.
\<close>

end
